(* ===== verification/Conbee_Prelude.thy ===== *)
theory Conbee_Prelude
  imports Main "HOL-Library.Word"
begin

text \<open>
  Shared material: the machine types of the library, the ways a C execution can leave the
  language (\<open>ub\<close>), the sequencing of fallible steps (\<open>bindE\<close>), bounded reads and writes of byte
  buffers (\<open>memcpy\<close> on arrays) and the little-endian layout of integers in memory, with the
  round-trip lemmas every component uses. The model is that of a little-endian LP64 machine,
  the only platform on which the library has been tested.
\<close>

unbundle bit_operations_syntax

named_theorems conbee_const \<open>the numeric values of the \#define constants\<close>

type_synonym u8 = "8 word"
type_synonym u16 = "16 word"
type_synonym u32 = "32 word"
type_synonym u64 = "64 word"

subsection \<open>Undefined behaviour and sequencing\<close>

text \<open>
  A step that C leaves undefined has no result in the model: it is an \<open>Inl\<close> with the reason.
\<close>

datatype ub =
    NullDeref
  | UseAfterFree
  | OutOfBounds

fun bindE :: "'e + 'a \<Rightarrow> ('a \<Rightarrow> 'e + 'b) \<Rightarrow> 'e + 'b" where
  "bindE (Inl e) f = Inl e"
| "bindE (Inr x) f = f x"

lemma bindE_eq_Inr: "bindE m f = Inr y \<longleftrightarrow> (\<exists>x. m = Inr x \<and> f x = Inr y)"
  by (cases m) auto

lemma bindE_assoc: "bindE (bindE m f) g = bindE m (\<lambda>x. bindE (f x) g)"
  by (cases m) auto

lemma bindE_cong [fundef_cong]:
  "m = m' \<Longrightarrow> (\<And>x. m' = Inr x \<Longrightarrow> f x = f' x) \<Longrightarrow> bindE m f = bindE m' f'"
  by (cases m') auto

subsection \<open>Byte buffers\<close>

text \<open>
  \<open>memcpy\<close> out of and into an array of known size: touching a byte outside the array is
  undefined behaviour.
\<close>

definition buf_read :: "u8 list \<Rightarrow> nat \<Rightarrow> nat \<Rightarrow> ub + u8 list" where
  "buf_read buf off n = (if off + n \<le> length buf then Inr (take n (drop off buf)) else Inl OutOfBounds)"

definition buf_write :: "u8 list \<Rightarrow> nat \<Rightarrow> u8 list \<Rightarrow> ub + u8 list" where
  "buf_write buf off bs =
     (if off + length bs \<le> length buf
      then Inr (take off buf @ bs @ drop (off + length bs) buf)
      else Inl OutOfBounds)"

lemma buf_read_ok: "off + n \<le> length buf \<Longrightarrow> buf_read buf off n = Inr (take n (drop off buf))"
  by (simp add: buf_read_def)

lemma buf_read_oob: "length buf < off + n \<Longrightarrow> buf_read buf off n = Inl OutOfBounds"
  by (simp add: buf_read_def)

lemma buf_write_ok:
  "off + length bs \<le> length buf \<Longrightarrow>
   buf_write buf off bs = Inr (take off buf @ bs @ drop (off + length bs) buf)"
  by (simp add: buf_write_def)

lemma buf_write_oob: "length buf < off + length bs \<Longrightarrow> buf_write buf off bs = Inl OutOfBounds"
  by (simp add: buf_write_def)

lemma buf_write_length: "buf_write buf off bs = Inr buf' \<Longrightarrow> length buf' = length buf"
  by (auto simp: buf_write_def split: if_splits)

text \<open>Writing at the end of the part of a buffer that has been filled so far.\<close>

lemma buf_write_next:
  "off = length front \<Longrightarrow> off + length bs \<le> length buf \<Longrightarrow>
   buf_write (front @ drop off buf) off bs = Inr ((front @ bs) @ drop (off + length bs) buf)"
  by (simp add: buf_write_def add.commute)

lemma buf_write_first:
  "length bs \<le> length buf \<Longrightarrow> buf_write buf 0 bs = Inr (bs @ drop (length bs) buf)"
  by (simp add: buf_write_def)

text \<open>Reading a segment of a buffer that is known by its parts.\<close>

lemma buf_read_mid:
  "off = length xs \<Longrightarrow> n = length ys \<Longrightarrow> buf_read (xs @ ys @ zs) off n = Inr ys"
  by (simp add: buf_read_def)

text \<open>One and two elements of a list.\<close>

lemma take_one_drop: "i < length xs \<Longrightarrow> take (Suc 0) (drop i xs) = [xs ! i]"
  by (simp flip: Cons_nth_drop_Suc)

lemma take_two_drop: "j < length xs \<Longrightarrow> j = Suc i \<Longrightarrow> take 2 (drop i xs) = [xs ! i, xs ! j]"
  by (simp add: numeral_2_eq_2 flip: Cons_nth_drop_Suc)

subsection \<open>Integers in memory\<close>

definition le_bytes :: "nat \<Rightarrow> 'a::len word \<Rightarrow> u8 list" where
  "le_bytes n w = map (\<lambda>i. ucast (drop_bit (8 * i) w)) [0..<n]"

fun le_word :: "u8 list \<Rightarrow> 'a::len word" where
  "le_word [] = 0"
| "le_word (b # bs) = ucast b OR push_bit 8 (le_word bs)"

lemma length_le_bytes [simp]: "length (le_bytes n w) = n"
  by (simp add: le_bytes_def)

lemma nth_le_bytes: "i < n \<Longrightarrow> le_bytes n w ! i = ucast (drop_bit (8 * i) w)"
  by (simp add: le_bytes_def)

lemma bit_le_word:
  "bit (le_word bs :: 'a::len word) k \<longleftrightarrow>
     k < LENGTH('a) \<and> k div 8 < length bs \<and> bit (bs ! (k div 8)) (k mod 8)"
proof (induction bs arbitrary: k)
  case Nil
  then show ?case by simp
next
  case (Cons b bs)
  show ?case
  proof (cases "k < 8")
    case True
    then show ?thesis by (auto simp: bit_simps dest: bit_imp_le_length)
  next
    case False
    then obtain j where j: "k = j + 8" by (metis add.commute le_Suc_ex not_le)
    then have "\<not> bit b k" by (auto dest: bit_imp_le_length)
    moreover have "(j + 8) div 8 = Suc (j div 8)" by simp
    ultimately show ?thesis
      using Cons.IH[of j] j by (auto simp: bit_simps dest: bit_imp_le_length)
  qed
qed

theorem le_word_le_bytes:
  fixes w :: "'a::len word"
  assumes "LENGTH('a) \<le> 8 * n"
  shows "le_word (le_bytes n w) = w"
proof (rule bit_word_eqI)
  fix k assume k: "k < LENGTH('a)"
  then have kn: "k div 8 < n" using assms by simp
  have "8 * (k div 8) + k mod 8 = k" by simp
  then show "bit (le_word (le_bytes n w) :: 'a word) k = bit w k"
    using k kn by (simp add: bit_le_word nth_le_bytes bit_simps)
qed

theorem le_bytes_le_word:
  assumes "8 * length bs = LENGTH('a::len)"
  shows "le_bytes (length bs) (le_word bs :: 'a word) = bs"
proof (rule nth_equalityI)
  show "length (le_bytes (length bs) (le_word bs :: 'a word)) = length bs" by simp
next
  fix i assume "i < length (le_bytes (length bs) (le_word bs :: 'a word))"
  then have i: "i < length bs" by simp
  show "le_bytes (length bs) (le_word bs :: 'a word) ! i = bs ! i"
  proof (rule bit_word_eqI)
    fix k assume k: "k < LENGTH(8)"
    then have "(8 * i + k) div 8 = i" "(8 * i + k) mod 8 = k" by simp_all
    moreover have "8 * i + k < LENGTH('a)" using assms i k by simp
    ultimately show "bit (le_bytes (length bs) (le_word bs :: 'a word) ! i) k = bit (bs ! i) k"
      using i k by (simp add: nth_le_bytes bit_simps bit_le_word)
  qed
qed

text \<open>The widths the library uses, as rewrite rules.\<close>

lemma le_word_le_bytes16 [simp]: "le_word (le_bytes 2 w) = (w :: u16)"
  by (rule le_word_le_bytes) simp

lemma le_word_le_bytes32 [simp]: "le_word (le_bytes 4 w) = (w :: u32)"
  by (rule le_word_le_bytes) simp

lemma le_word_le_bytes64 [simp]: "le_word (le_bytes 8 w) = (w :: u64)"
  by (rule le_word_le_bytes) simp

lemma le_word_le_bytes8 [simp]: "le_word (le_bytes 1 w) = (w :: u8)"
  by (rule le_word_le_bytes) simp

lemma le_bytes16_inject [simp]: "le_bytes 2 v = le_bytes 2 w \<longleftrightarrow> v = (w :: u16)"
  by (metis le_word_le_bytes16)

lemma le_word_high: "drop_bit 8 (le_word [a, b] :: u16) = ucast b"
  by (rule bit_word_eqI) (auto simp: bit_simps dest: bit_imp_le_length)

subsection \<open>Word arithmetic\<close>

lemma unat_of_nat16: "n < 65536 \<Longrightarrow> unat (word_of_nat n :: u16) = n"
  by (simp add: unsigned_of_nat take_bit_nat_eq_self)

lemma unat_of_nat32: "n < 4294967296 \<Longrightarrow> unat (word_of_nat n :: u32) = n"
  by (simp add: unsigned_of_nat take_bit_nat_eq_self)

lemma unat_lt16: "unat (w :: u16) < 65536"
  using unsigned_less [of w, where 'a = nat] by simp

lemma unat_lt8: "unat (w :: u8) < 256"
  using unsigned_less [of w, where 'a = nat] by simp

lemma unat_ucast_16_32 [simp]: "unat (ucast (w :: u16) :: u32) = unat w"
  by transfer simp

lemma unat_length_plus_2: "unat (ucast (w :: u16) + 2 :: u32) = unat w + 2"
  using unat_lt16 [of w] by (simp add: unat_word_ariths)

lemma unat_inc32: "r < len \<Longrightarrow> unat (r + 1 :: u32) = Suc (unat r)"
proof -
  assume "r < len"
  then have "unat r < unat len" by (simp add: word_less_nat_alt)
  moreover have "unat len < 4294967296" using unsigned_less [of len] by simp
  ultimately have "Suc (unat r) < 4294967296" by simp
  then show ?thesis by (simp add: unat_word_ariths)
qed

lemma sint_small32: "unat (w :: u32) < 2147483648 \<Longrightarrow> sint w = int (unat w)"
proof -
  assume "unat w < 2147483648"
  then have "int (unat w) < 2147483648" by linarith
  then have "uint w < 2147483648" by (simp only: of_nat_unat)
  then have "signed_take_bit 31 (uint w) = uint w"
    by (intro signed_take_bit_int_eq_self) (simp_all add: order.trans [OF _ uint_ge_0])
  moreover have "sint w = signed_take_bit 31 (uint w)"
    by transfer (simp add: signed_take_bit_take_bit)
  ultimately show ?thesis by simp
qed

lemma u32_not_negative [simp]: "\<not> (w :: u32) < 0"
  by simp

end
