(* ===== verification/Crc16.thy ===== *)
theory Crc16
  imports Conbee_Prelude "HOL-Library.Multiset"
begin

text \<open>
  The checksum of \<open>src/crc16.c\<close>. It is the two's complement of the 16-bit sum of the bytes (not a
  cyclic redundancy check, whatever its name says): the lemmas give that closed form, the sum
  check a receiver can do, what corruption it detects and what it cannot.
\<close>

subsection \<open>The code\<close>

text \<open>The summation loop; \<open>buffer++\<close> is the tail of the buffer.\<close>

fun crc16_loop :: "u8 list \<Rightarrow> nat \<Rightarrow> u16 \<Rightarrow> ub + u16" where
  "crc16_loop buffer 0 crc = Inr crc"
| "crc16_loop [] (Suc n) crc = Inl OutOfBounds"
| "crc16_loop (b # buffer) (Suc n) crc = crc16_loop buffer n (crc + ucast b)"

text \<open>
  The final negation. \<open>crc\<close> is promoted to a 32-bit \<open>int\<close> before \<open>~\<close> and \<open>+\<close>, and \<open>>>\<close> of the
  negative result is arithmetic.
\<close>

definition crc16_final :: "u16 \<Rightarrow> u16" where
  "crc16_final crc =
     (let crc0 = ucast (((NOT (ucast crc :: u32)) + 1) AND 0xFF) :: u8;
          crc1 = ucast ((signed_drop_bit 8 ((NOT (ucast crc :: u32)) + 1)) AND 0xFF) :: u8;
          crc = ucast crc1 :: u16;
          crc = push_bit 8 crc
      in crc + ucast crc0)"

definition crc16 :: "u8 list \<Rightarrow> u32 \<Rightarrow> ub + u16" where
  "crc16 buffer len = bindE (crc16_loop buffer (unat len) 0) (\<lambda>crc. Inr (crc16_final crc))"

subsection \<open>The closed form\<close>

definition byte_sum :: "u8 list \<Rightarrow> u16" where
  "byte_sum bs = sum_list (map ucast bs)"

lemma byte_sum_simps [simp]:
  "byte_sum [] = 0"
  "byte_sum (b # bs) = ucast b + byte_sum bs"
  "byte_sum (xs @ ys) = byte_sum xs + byte_sum ys"
  by (simp_all add: byte_sum_def)

definition checksum :: "u8 list \<Rightarrow> u16" where
  "checksum bs = - byte_sum bs"

lemma crc16_loop_ok:
  "n \<le> length buffer \<Longrightarrow> crc16_loop buffer n crc = Inr (crc + byte_sum (take n buffer))"
  by (induction buffer n crc rule: crc16_loop.induct) (auto simp: add.assoc)

lemma crc16_loop_oob: "length buffer < n \<Longrightarrow> crc16_loop buffer n crc = Inl OutOfBounds"
  by (induction buffer n crc rule: crc16_loop.induct) auto

lemma halves16:
  fixes w :: u16
  shows "push_bit 8 (ucast (ucast (drop_bit 8 w) :: u8)) + ucast (ucast w :: u8) = w"
proof -
  let ?hi = "push_bit 8 (ucast (ucast (drop_bit 8 w) :: u8)) :: u16"
  let ?lo = "ucast (ucast w :: u8) :: u16"
  have "?hi AND ?lo = 0"
    by (rule bit_word_eqI) (auto simp: bit_simps)
  then have "?hi + ?lo = ?hi OR ?lo"
    by (rule disjunctive_add_eq_or)
  also have "\<dots> = w"
    by (rule bit_word_eqI) (auto simp: bit_simps dest: bit_imp_le_length)
  finally show ?thesis .
qed

lemma neg32_low16: "ucast (NOT (ucast (w :: u16) :: u32) + 1) = - w"
proof -
  have "NOT (ucast w :: u32) + 1 = - ucast w"
    by (simp add: minus_eq_not_plus_1)
  moreover have "ucast (- (ucast w :: u32)) = - w"
    by transfer (simp add: take_bit_minus)
  ultimately show ?thesis
    by simp
qed

lemma crc16_final_eq: "crc16_final w = - w"
proof -
  define n :: u32 where "n = NOT (ucast w :: u32) + 1"
  have ff: "(0xFF :: u32) = mask 8" by (simp add: mask_eq_exp_minus_1)
  have lo: "ucast (n AND 0xFF) = (ucast (ucast n :: u16) :: u8)"
    unfolding ff by (rule bit_word_eqI) (auto simp: bit_simps)
  have hi: "ucast (signed_drop_bit 8 n AND 0xFF) = (ucast (drop_bit 8 (ucast n :: u16)) :: u8)"
    unfolding ff by (rule bit_word_eqI) (auto simp: bit_simps)
  have "crc16_final w = ucast n"
    unfolding crc16_final_def Let_def n_def[symmetric] lo hi by (rule halves16)
  then show ?thesis
    by (simp add: n_def neg32_low16)
qed

lemma crc16_ok: "unat len \<le> length buffer \<Longrightarrow> crc16 buffer len = Inr (checksum (take (unat len) buffer))"
  by (simp add: crc16_def crc16_loop_ok crc16_final_eq checksum_def)

lemma crc16_oob: "length buffer < unat len \<Longrightarrow> crc16 buffer len = Inl OutOfBounds"
  by (simp add: crc16_def crc16_loop_oob)

lemma ucast_u8_u16_inject [simp]: "(ucast a :: u16) = ucast b \<longleftrightarrow> a = (b :: u8)"
  by transfer simp

lemma byte_sum_perm: "mset xs = mset ys \<Longrightarrow> byte_sum xs = byte_sum ys"
  unfolding byte_sum_def by (metis mset_map sum_mset_sum_list)

lemma checksum_zero_sum: "byte_sum bs + checksum bs = 0"
  by (simp add: checksum_def)

lemma checksum_replace: "checksum (xs @ [a] @ ys) = checksum (xs @ [b] @ ys) \<longleftrightarrow> a = b"
  by (simp add: checksum_def)

subsection \<open>Properties\<close>

text \<open>
  C40: \<open>crc16\<close> is total on every in-bounds length and returns the two's complement of the 16-bit
  byte sum, computed by the code through a 32-bit promotion and two masked halves. So a receiver
  can check a packet by summing: bytes plus checksum give zero modulo \<open>2^16\<close>.
\<close>

theorem crc16_is_negated_sum:
  assumes "unat len \<le> length buffer"
  shows "\<exists>crc. crc16 buffer len = Inr crc \<and> byte_sum (take (unat len) buffer) + crc = 0"
  using assms by (simp add: crc16_ok checksum_zero_sum)

theorem crc16_is_negated_sum_witness:
  "crc16 [0x0A, 0x01, 0x00, 0xFF] 3 = Inr 0xFFF5 \<and> byte_sum [0x0A, 0x01, 0x00] + 0xFFF5 = 0"
proof -
  have "unat (3 :: u32) \<le> length [0x0A, 0x01, 0x00, 0xFF :: u8]" by simp
  from crc16_is_negated_sum [OF this] show ?thesis
    by (auto simp: crc16_ok checksum_def)
qed

end
