(* ===== verification/Slip.thy ===== *)
theory Slip
  imports Conbee_Prelude
begin

text \<open>
  The SLIP framing of \<open>src/slip.c\<close> (RFC 1055). Both routines reach the line only through the
  function pointers \<open>dev->write_byte\<close> and \<open>dev->read_byte\<close>, so those are arguments here; the
  locales \<open>byte_sink\<close> and \<open>byte_source\<close> state what the framing needs of them and the device
  layer provides both. Reading may block for ever, so the receiver is a partial function:
  \<open>None\<close> is "does not return".
\<close>

subsection \<open>The code\<close>

definition END :: u8 where [conbee_const]: "END = 0xC0"
definition ESC :: u8 where [conbee_const]: "ESC = 0xDB"
definition ESC_END :: u8 where [conbee_const]: "ESC_END = 0xDC"
definition ESC_ESC :: u8 where [conbee_const]: "ESC_ESC = 0xDD"

text \<open>
  The loop of \<open>slip_transmit_packet\<close>: one escaped byte per turn. The \<open>break\<close> on an error inside an
  escape leaves the \<open>switch\<close>, not the loop, so the next byte follows.
\<close>

fun slip_transmit_loop ::
  "('d \<Rightarrow> u8 \<Rightarrow> int \<times> 'd) \<Rightarrow> 'd \<Rightarrow> u8 list \<Rightarrow> nat \<Rightarrow> int \<Rightarrow> ub + int \<times> 'd" where
  "slip_transmit_loop write_byte dev buffer 0 err = Inr (err, dev)"
| "slip_transmit_loop write_byte dev [] (Suc n) err = Inl OutOfBounds"
| "slip_transmit_loop write_byte dev (b # buffer) (Suc n) err =
     (if b = END then
        (let (err, dev) = write_byte dev ESC
         in if err < 0 then slip_transmit_loop write_byte dev buffer n err
            else (let (err, dev) = write_byte dev ESC_END
                  in slip_transmit_loop write_byte dev buffer n err))
      else if b = ESC then
        (let (err, dev) = write_byte dev ESC
         in if err < 0 then slip_transmit_loop write_byte dev buffer n err
            else (let (err, dev) = write_byte dev ESC_ESC
                  in slip_transmit_loop write_byte dev buffer n err))
      else
        (let (err, dev) = write_byte dev b
         in slip_transmit_loop write_byte dev buffer n err))"

definition slip_transmit_packet ::
  "('d \<Rightarrow> u8 \<Rightarrow> int \<times> 'd) \<Rightarrow> 'd \<Rightarrow> u8 list \<Rightarrow> u32 \<Rightarrow> ub + int \<times> 'd" where
  "slip_transmit_packet write_byte dev buffer len =
     (let (err, dev) = write_byte dev END
      in bindE (slip_transmit_loop write_byte dev buffer (unat len) err)
           (\<lambda>(err, dev). let (_, dev) = write_byte dev END in Inr (err, dev)))"

text \<open>
  Receiving. \<open>err\<close> is a \<open>uint32_t\<close> there, so the \<open>int32_t\<close> that \<open>read_byte\<close> returns is converted,
  and \<open>err < 0\<close> is an unsigned comparison. \<open>c\<close> lives across turns: a read that delivers nothing
  leaves the last byte in it.
\<close>

definition slip_store :: "u8 list \<Rightarrow> u32 \<Rightarrow> u32 \<Rightarrow> u8 \<Rightarrow> ub + u8 list \<times> u32" where
  "slip_store buffer len received c =
     (if received < len
      then (if unat received < length buffer
            then Inr (buffer[unat received := c], received + 1)
            else Inl OutOfBounds)
      else Inr (buffer, received))"

definition slip_unescape :: "u8 \<Rightarrow> u8" where
  "slip_unescape c = (if c = ESC_END then END else if c = ESC_ESC then ESC else c)"

partial_function (option) slip_receive_loop ::
  "('d \<Rightarrow> u8 \<Rightarrow> (int \<times> u8 \<times> 'd) option) \<Rightarrow> 'd \<Rightarrow> u8 \<Rightarrow> u8 list \<Rightarrow> u32 \<Rightarrow> u32 \<Rightarrow>
   (ub + int \<times> u8 list \<times> 'd) option" where
  "slip_receive_loop read_byte dev c buffer len received =
     Option.bind (read_byte dev c) (\<lambda>(r, c, dev).
       if (word_of_int r :: u32) < 0 then Some (Inr (sint (word_of_int r :: u32), buffer, dev))
       else if c = END then
         (if received \<noteq> 0 then Some (Inr (sint received, buffer, dev))
          else slip_receive_loop read_byte dev c buffer len received)
       else if c = ESC then
         Option.bind (read_byte dev c) (\<lambda>(r, c, dev).
           if (word_of_int r :: u32) < 0 then Some (Inr (sint (word_of_int r :: u32), buffer, dev))
           else (case slip_store buffer len received (slip_unescape c) of
                   Inl e \<Rightarrow> Some (Inl e)
                 | Inr (buffer, received) \<Rightarrow>
                     slip_receive_loop read_byte dev (slip_unescape c) buffer len received))
       else (case slip_store buffer len received c of
               Inl e \<Rightarrow> Some (Inl e)
             | Inr (buffer, received) \<Rightarrow>
                 slip_receive_loop read_byte dev c buffer len received))"

definition slip_receive_packet ::
  "('d \<Rightarrow> u8 \<Rightarrow> (int \<times> u8 \<times> 'd) option) \<Rightarrow> 'd \<Rightarrow> u8 list \<Rightarrow> u32 \<Rightarrow>
   (ub + int \<times> u8 list \<times> 'd) option" where
  "slip_receive_packet read_byte dev buffer len = slip_receive_loop read_byte dev 0 buffer len 0"

subsection \<open>The packet format\<close>

text \<open>RFC 1055: an END, the escaped packet, an END.\<close>

definition slip_escape_byte :: "u8 \<Rightarrow> u8 list" where
  "slip_escape_byte b = (if b = END then [ESC, ESC_END] else if b = ESC then [ESC, ESC_ESC] else [b])"

definition slip_escape :: "u8 list \<Rightarrow> u8 list" where
  "slip_escape bs = concat (map slip_escape_byte bs)"

definition slip_encode :: "u8 list \<Rightarrow> u8 list" where
  "slip_encode bs = END # slip_escape bs @ [END]"

lemma slip_codes [simp]:
  "END \<noteq> ESC" "ESC \<noteq> END" "ESC_END \<noteq> END" "ESC_ESC \<noteq> END" "ESC_END \<noteq> ESC" "ESC_ESC \<noteq> ESC"
  "ESC_ESC \<noteq> ESC_END" "ESC_END \<noteq> ESC_ESC" "END \<noteq> ESC_END" "END \<noteq> ESC_ESC" "ESC \<noteq> ESC_END" "ESC \<noteq> ESC_ESC"
  by (simp_all add: conbee_const)

lemma slip_escape_simps [simp]:
  "slip_escape [] = []"
  "slip_escape (b # bs) = slip_escape_byte b @ slip_escape bs"
  "slip_escape (xs @ ys) = slip_escape xs @ slip_escape ys"
  by (simp_all add: slip_escape_def)

lemma END_notin_escape [simp]: "END \<notin> set (slip_escape bs)"
  by (induction bs) (auto simp: slip_escape_byte_def)

lemma slip_escape_byte_first: "slip_escape_byte a @ xs = slip_escape_byte b @ ys \<longleftrightarrow> a = b \<and> xs = ys"
  by (auto simp: slip_escape_byte_def split: if_splits)

lemma slip_escape_byte_not_Nil [simp]: "slip_escape_byte b \<noteq> []" "[] \<noteq> slip_escape_byte b"
  by (simp_all add: slip_escape_byte_def)

lemma slip_escape_inject [simp]: "slip_escape xs = slip_escape ys \<longleftrightarrow> xs = ys"
proof (induction xs arbitrary: ys)
  case Nil
  then show ?case by (cases ys) simp_all
next
  case (Cons x xs)
  then show ?case by (cases ys) (simp_all add: slip_escape_byte_first)
qed

lemma slip_encode_inject [simp]: "slip_encode xs = slip_encode ys \<longleftrightarrow> xs = ys"
  by (simp add: slip_encode_def)

lemma slip_unescape_simps [simp]:
  "slip_unescape ESC_END = END" "slip_unescape ESC_ESC = ESC" "slip_unescape ESC = ESC"
  by (simp_all add: slip_unescape_def)

subsection \<open>What the framing needs of the line\<close>

text \<open>
  A sink delivers each byte and reports success; \<open>emit d bs\<close> is the device after \<open>bs\<close> has gone out.
  A source has bytes waiting in front of its input; \<open>feed bs d\<close> is the device with \<open>bs\<close> still to
  be read before what \<open>d\<close> has.
\<close>

locale byte_sink =
  fixes write_byte :: "'d \<Rightarrow> u8 \<Rightarrow> int \<times> 'd"
    and emit :: "'d \<Rightarrow> u8 list \<Rightarrow> 'd"
    and sink_up :: "'d \<Rightarrow> bool"
  assumes write_byte_up: "sink_up d \<Longrightarrow> write_byte d b = (0, emit d [b])"
    and emit_up: "sink_up d \<Longrightarrow> sink_up (emit d bs)"
    and emit_Nil: "emit d [] = d"
    and emit_append: "emit (emit d xs) ys = emit d (xs @ ys)"
begin

lemma slip_transmit_loop_emits:
  "sink_up d \<Longrightarrow> n \<le> length buffer \<Longrightarrow> 0 < n \<Longrightarrow>
   slip_transmit_loop write_byte d buffer n err = Inr (0, emit d (slip_escape (take n buffer)))"
proof (induction n arbitrary: d buffer err)
  case 0
  then show ?case by simp
next
  case (Suc n)
  from Suc.prems(2) obtain b rest where buffer: "buffer = b # rest" "n \<le> length rest"
    by (cases buffer) auto
  let ?d = "emit d (slip_escape_byte b)"
  have step: "slip_transmit_loop write_byte d buffer (Suc n) err =
      slip_transmit_loop write_byte ?d rest n 0"
    using Suc.prems(1) by (simp add: buffer slip_escape_byte_def write_byte_up emit_up emit_append)
  show ?case
  proof (cases "n = 0")
    case True
    then show ?thesis using step by (simp add: buffer emit_append)
  next
    case False
    then show ?thesis
      using step Suc.IH[of ?d rest 0] Suc.prems(1) buffer by (simp add: emit_up emit_append)
  qed
qed

lemma slip_transmit_packet_emits:
  assumes "sink_up d" "unat len \<le> length buffer"
  shows "slip_transmit_packet write_byte d buffer len =
         Inr (0, emit d (slip_encode (take (unat len) buffer)))"
proof (cases "unat len = 0")
  case True
  then show ?thesis using assms
    by (simp add: slip_transmit_packet_def slip_encode_def write_byte_up emit_up emit_append)
next
  case False
  then show ?thesis using assms
    by (simp add: slip_transmit_packet_def slip_encode_def write_byte_up emit_up emit_append
        slip_transmit_loop_emits)
qed

end

text \<open>
  The buffer after the bytes \<open>bs\<close> have been stored from index \<open>r\<close> on, at most up to \<open>len\<close>.
\<close>

definition stored :: "u8 list \<Rightarrow> nat \<Rightarrow> nat \<Rightarrow> u8 list \<Rightarrow> u8 list" where
  "stored buffer r len bs =
     take r buffer @ take (len - r) bs @ drop (min len (r + length bs)) buffer"

lemma stored_Nil [simp]: "r \<le> len \<Longrightarrow> stored buffer r len [] = buffer"
  by (simp add: stored_def min_def)

lemma stored_full: "len \<le> r \<Longrightarrow> r \<le> len \<Longrightarrow> stored buffer r len bs = buffer"
  by (simp add: stored_def)

lemma stored_Cons:
  assumes "r < len" "len \<le> length buffer"
  shows "stored (buffer[r := b]) (Suc r) len bs = stored buffer r len (b # bs)"
proof -
  have "take (Suc r) (buffer[r := b]) = take r buffer @ [b]"
    using assms by (simp add: take_Suc_conv_app_nth)
  moreover have "len - r = Suc (len - Suc r)"
    using assms by simp
  moreover have "drop (min len (r + Suc (length bs))) (buffer[r := b]) =
      drop (min len (r + Suc (length bs))) buffer"
    using assms by (intro drop_update_cancel) simp
  ultimately show ?thesis
    by (simp add: stored_def)
qed

lemma stored_from_0: "stored buffer 0 len bs = take len bs @ drop (min len (length bs)) buffer"
  by (simp add: stored_def)

locale byte_source =
  fixes read_byte :: "'e \<Rightarrow> u8 \<Rightarrow> (int \<times> u8 \<times> 'e) option"
    and feed :: "u8 list \<Rightarrow> 'e \<Rightarrow> 'e"
    and source_up :: "'e \<Rightarrow> bool"
  assumes read_byte_feed: "source_up d \<Longrightarrow> read_byte (feed (b # bs) d) c = Some (0, b, feed bs d)"
begin

lemma slip_receive_skips_END:
  "source_up d \<Longrightarrow>
   slip_receive_loop read_byte (feed (replicate k END @ bs) d) c buffer len 0 =
   slip_receive_loop read_byte (feed bs d) (if k = 0 then c else END) buffer len 0"
proof (induction k arbitrary: c)
  case 0
  then show ?case by simp
next
  case (Suc k)
  then show ?case
    by (subst slip_receive_loop.simps) (simp add: read_byte_feed)
qed

lemma slip_receive_byte:
  assumes up: "source_up d" and len: "unat len \<le> length buffer"
  shows "slip_receive_loop read_byte (feed (slip_escape_byte b @ bs) d) c buffer len received =
         (if received < len
          then slip_receive_loop read_byte (feed bs d) b (buffer[unat received := b]) len (received + 1)
          else slip_receive_loop read_byte (feed bs d) b buffer len received)"
proof -
  have "received < len \<Longrightarrow> unat received < length buffer"
    using len by (simp add: word_less_nat_alt)
  then show ?thesis
    by (subst slip_receive_loop.simps)
       (auto simp: slip_escape_byte_def read_byte_feed [OF up] slip_store_def)
qed

lemma slip_receive_loop_body:
  assumes up: "source_up d" and len31: "unat len < 2147483648"
  shows "unat received \<le> unat len \<Longrightarrow> unat len \<le> length buffer \<Longrightarrow> 0 < unat len \<Longrightarrow>
         received \<noteq> 0 \<or> bs \<noteq> [] \<Longrightarrow>
         slip_receive_loop read_byte (feed (slip_escape bs @ END # rest) d) c buffer len received =
         Some (Inr (int (min (unat len) (unat received + length bs)),
                    stored buffer (unat received) (unat len) bs, feed rest d))"
proof (induction bs arbitrary: buffer received c)
  case Nil
  then have "received \<noteq> 0" "sint received = int (unat received)"
    using len31 by (auto simp: sint_small32 simp del: of_nat_unat)
  then show ?case
    using Nil by (subst slip_receive_loop.simps) (simp add: read_byte_feed [OF up] min_def del: of_nat_unat)
next
  case (Cons b bs)
  let ?tail = "slip_escape bs @ END # rest"
  show ?case
  proof (cases "received < len")
    case True
    then have r: "unat (received + 1) = Suc (unat received)" "unat received < unat len"
      by (simp_all add: unat_inc32 word_less_nat_alt)
    then have "received + 1 \<noteq> 0" by auto
    with Cons.IH[of "received + 1" "buffer[unat received := b]" b] Cons.prems r True
    show ?thesis
      by (simp add: slip_receive_byte [OF up] stored_Cons)
  next
    case False
    then have r: "unat received = unat len"
      using Cons.prems(1) by (simp add: word_less_nat_alt)
    then have "received \<noteq> 0" using Cons.prems(3) by auto
    with Cons.IH[of received buffer b] Cons.prems r False show ?thesis
      by (simp add: slip_receive_byte [OF up] stored_full)
  qed
qed

lemma slip_receive_packet_decodes:
  assumes "source_up d" "unat len \<le> length buffer" "0 < unat len" "unat len < 2147483648" "bs \<noteq> []"
  shows "slip_receive_packet read_byte (feed (slip_encode bs @ rest) d) buffer len =
         Some (Inr (int (min (unat len) (length bs)), stored buffer 0 (unat len) bs, feed rest d))"
proof -
  have "slip_receive_packet read_byte (feed (slip_encode bs @ rest) d) buffer len =
        slip_receive_loop read_byte (feed (slip_escape bs @ END # rest) d) END buffer len 0"
    using slip_receive_skips_END [OF assms(1), of "Suc 0" "slip_escape bs @ END # rest" 0]
    by (simp add: slip_receive_packet_def slip_encode_def)
  then show ?thesis
    using slip_receive_loop_body [OF assms(1,4), of 0] assms by simp
qed

end

text \<open>
  Sink and source together: what one device sends, another receives. The packet must fit the
  buffer, as a longer one is cut.
\<close>

locale slip_channel = byte_sink write_byte emit sink_up + byte_source read_byte feed source_up
  for write_byte :: "'d \<Rightarrow> u8 \<Rightarrow> int \<times> 'd" and emit and sink_up
    and read_byte :: "'e \<Rightarrow> u8 \<Rightarrow> (int \<times> u8 \<times> 'e) option" and feed and source_up
begin

lemma slip_transfer:
  assumes "sink_up d" "source_up e"
    and "0 < unat n" "unat n \<le> length packet"
    and "unat n \<le> unat len" "unat len \<le> length buffer" "unat len < 2147483648"
  shows "\<exists>wire. slip_transmit_packet write_byte d packet n = Inr (0, emit d wire) \<and>
           slip_receive_packet read_byte (feed (wire @ rest) e) buffer len =
           Some (Inr (int (unat n), take (unat n) packet @ drop (unat n) buffer, feed rest e))"
proof -
  let ?bs = "take (unat n) packet"
  have "?bs \<noteq> []" "length ?bs = unat n" using assms by auto
  then show ?thesis
    using slip_transmit_packet_emits [OF assms(1,4)]
      slip_receive_packet_decodes [OF assms(2,6) _ assms(7), of ?bs rest] assms
    by (intro exI [where x = "slip_encode ?bs"]) (simp add: stored_from_0 min_absorb2)
qed

end

subsection \<open>Reads that fail\<close>

text \<open>
  \<open>err\<close> being unsigned, the code of a failed read is never looked at: any two sources that leave the
  same byte in \<open>c\<close> and the same device behind are the same to the receiver.
\<close>

lemma slip_receive_ignores_code:
  assumes "read_byte d c = Some (r, b, d')" "read_byte e c = Some (r', b, d')"
  shows "slip_receive_loop read_byte d c buffer len received =
         slip_receive_loop read_byte e c buffer len received"
  by (subst (1 2) slip_receive_loop.simps) (simp add: assms)

text \<open>A source whose every read fails and leaves \<open>c\<close> alone: the receiver never returns.\<close>

lemma slip_store_room:
  assumes "unat len \<le> length buffer"
  shows "\<exists>buffer' received'. slip_store buffer len received c = Inr (buffer', received') \<and>
           length buffer' = length buffer"
  using assms by (auto simp: slip_store_def word_less_nat_alt)

lemma slip_receive_dead_source:
  fixes read_byte :: "'d \<Rightarrow> u8 \<Rightarrow> (int \<times> u8 \<times> 'd) option"
  assumes dead: "\<And>d c. dead d \<Longrightarrow> \<exists>r d'. read_byte d c = Some (r, c, d') \<and> dead d'"
    and start: "dead d" "c \<noteq> END" and room: "unat len \<le> length buffer"
  shows "slip_receive_loop read_byte d c buffer len received = None"
proof (rule ccontr)
  let ?ok = "\<lambda>d c buffer (len :: u32). dead d \<and> c \<noteq> END \<and> unat len \<le> length (buffer :: u8 list)"
  assume "slip_receive_loop read_byte d c buffer len received \<noteq> None"
  then obtain res where "slip_receive_loop read_byte d c buffer len received = Some res" by auto
  then have "read_byte = read_byte \<longrightarrow> \<not> ?ok d c buffer len"
  proof (rule slip_receive_loop.raw_induct [where P = "\<lambda>rb d c buffer len received res.
        rb = read_byte \<longrightarrow> \<not> ?ok d c buffer len", rotated])
    fix f :: "('d \<Rightarrow> u8 \<Rightarrow> (int \<times> u8 \<times> 'd) option) \<Rightarrow> 'd \<Rightarrow> u8 \<Rightarrow> u8 list \<Rightarrow> u32 \<Rightarrow> u32 \<Rightarrow>
           (ub + int \<times> u8 list \<times> 'd) option"
      and rb :: "'d \<Rightarrow> u8 \<Rightarrow> (int \<times> u8 \<times> 'd) option"
      and d c buffer len received res
    let ?step = "\<lambda>d c. case slip_store buffer len received c of Inl e \<Rightarrow> Some (Inl e)
             | Inr (buffer, received) \<Rightarrow> f rb d c buffer len received"
    assume IH: "\<And>rb d c buffer len received res. f rb d c buffer len received = Some res \<Longrightarrow>
          rb = read_byte \<longrightarrow> \<not> ?ok d c buffer len"
      and eq: "Option.bind (rb d c) (\<lambda>(r, c, dev).
         if (word_of_int r :: u32) < 0 then Some (Inr (sint (word_of_int r :: u32), buffer, dev))
         else if c = END then
           (if received \<noteq> 0 then Some (Inr (sint received, buffer, dev))
            else f rb dev c buffer len received)
         else if c = ESC then
           Option.bind (rb dev c) (\<lambda>(r, c, dev).
             if (word_of_int r :: u32) < 0 then Some (Inr (sint (word_of_int r :: u32), buffer, dev))
             else ?step dev (slip_unescape c))
         else ?step dev c) = Some res"
    show "rb = read_byte \<longrightarrow> \<not> ?ok d c buffer len"
    proof (intro impI notI)
      assume rb: "rb = read_byte" and ok: "?ok d c buffer len"
      obtain r d' where d': "read_byte d c = Some (r, c, d')" "dead d'" using dead ok by blast
      obtain r' d'' where d'': "read_byte d' c = Some (r', c, d'')" "dead d''" using dead d' by blast
      obtain buffer' received' where store:
        "slip_store buffer len received c = Inr (buffer', received')" "length buffer' = length buffer"
        using slip_store_room ok by blast
      have stuck: "f rb e c buffer' len received' \<noteq> Some res" if "dead e" for e
        using IH [of rb e c buffer' len received'] rb ok that store(2) by auto
      show False
        using eq stuck [OF d'(2)] stuck [OF d''(2)] ok d'(1) d''(1) store(1)
        by (cases "c = ESC") (simp_all add: rb)
    qed
  qed
  with start room show False by simp
qed

subsection \<open>What the routines keep\<close>

text \<open>Anything a byte routine keeps, the packet routine keeps.\<close>

lemma slip_receive_keeps:
  fixes read_byte :: "'d \<Rightarrow> u8 \<Rightarrow> (int \<times> u8 \<times> 'd) option"
  assumes keeps: "\<And>d c r c' d'. read_byte d c = Some (r, c', d') \<Longrightarrow> I d \<Longrightarrow> I d'"
    and res: "slip_receive_loop read_byte d c buffer len received = Some (Inr (n, buffer', d'))" and start: "I d"
  shows "I d' \<and> length buffer' = length buffer"
proof -
  obtain out where out: "slip_receive_loop read_byte d c buffer len received = Some out" "out = Inr (n, buffer', d')"
    using res by blast
  from out(1) have "read_byte = read_byte \<longrightarrow> I d \<longrightarrow> (\<forall>n b e. out = Inr (n, b, e) \<longrightarrow> I e \<and> length b = length buffer)"
  proof (rule slip_receive_loop.raw_induct [where P = "\<lambda>rb d c buffer len received res.
        rb = read_byte \<longrightarrow> I d \<longrightarrow> (\<forall>n b e. res = Inr (n, b, e) \<longrightarrow> I e \<and> length b = length buffer)", rotated])
    fix f :: "('d \<Rightarrow> u8 \<Rightarrow> (int \<times> u8 \<times> 'd) option) \<Rightarrow> 'd \<Rightarrow> u8 \<Rightarrow> u8 list \<Rightarrow> u32 \<Rightarrow> u32 \<Rightarrow>
           (ub + int \<times> u8 list \<times> 'd) option"
      and rb :: "'d \<Rightarrow> u8 \<Rightarrow> (int \<times> u8 \<times> 'd) option"
      and d c buffer len received res
    let ?step = "\<lambda>d c. case slip_store buffer len received c of Inl e \<Rightarrow> Some (Inl e)
             | Inr (buffer, received) \<Rightarrow> f rb d c buffer len received"
    assume IH: "\<And>rb d c buffer len received res. f rb d c buffer len received = Some res \<Longrightarrow>
          rb = read_byte \<longrightarrow> I d \<longrightarrow> (\<forall>n b e. res = Inr (n, b, e) \<longrightarrow> I e \<and> length b = length buffer)"
      and eq: "Option.bind (rb d c) (\<lambda>(r, c, dev).
         if (word_of_int r :: u32) < 0 then Some (Inr (sint (word_of_int r :: u32), buffer, dev))
         else if c = END then
           (if received \<noteq> 0 then Some (Inr (sint received, buffer, dev))
            else f rb dev c buffer len received)
         else if c = ESC then
           Option.bind (rb dev c) (\<lambda>(r, c, dev).
             if (word_of_int r :: u32) < 0 then Some (Inr (sint (word_of_int r :: u32), buffer, dev))
             else ?step dev (slip_unescape c))
         else ?step dev c) = Some res"
    have step: "\<forall>n b e. res = Inr (n, b, e) \<longrightarrow> I e \<and> length b = length buffer"
      if "?step d c = Some res" "I d" "rb = read_byte" for d c
      using that by (auto simp: slip_store_def split: if_splits dest!: IH)
    show "rb = read_byte \<longrightarrow> I d \<longrightarrow> (\<forall>n b e. res = Inr (n, b, e) \<longrightarrow> I e \<and> length b = length buffer)"
    proof (intro impI)
      assume rb: "rb = read_byte" and d: "I d"
      obtain r c1 d1 where 1: "read_byte d c = Some (r, c1, d1)" using eq rb by (cases "rb d c") auto
      have d1: "I d1" by (rule keeps [OF 1 d])
      show "\<forall>n b e. res = Inr (n, b, e) \<longrightarrow> I e \<and> length b = length buffer"
      proof (cases "c1 = ESC")
        case True
        obtain r' c2 d2 where 2: "read_byte d1 c1 = Some (r', c2, d2)" using eq rb 1 True by (cases "rb d1 c1") auto
        have "?step d2 (slip_unescape c2) = Some res" using eq rb 1 2 True by simp
        then show ?thesis using step keeps [OF 2 d1] rb by blast
      next
        case False
        then show ?thesis
          using eq rb 1 d1 step [of d1 c1] IH [of rb d1 END buffer len received res]
          by (auto split: if_splits)
      qed
    qed
  qed
  with start out(2) show ?thesis by blast
qed

lemma slip_transmit_keeps:
  assumes keeps: "\<And>d b r d'. write_byte d b = (r, d') \<Longrightarrow> I d \<Longrightarrow> I d'"
  shows "slip_transmit_loop write_byte d buffer n err = Inr (e, d') \<Longrightarrow> I d \<Longrightarrow> I d'"
proof (induction buffer arbitrary: d n err)
  case Nil
  then show ?case by (cases n) auto
next
  case (Cons b buffer)
  show ?case
  proof (cases n)
    case 0
    then show ?thesis using Cons.prems by simp
  next
    case (Suc m)
    have step: "I d'" if "slip_transmit_loop write_byte x buffer m r = Inr (e, d')" "I x" for x r
      using Cons.IH that by blast
    show ?thesis
      using Cons.prems Suc by (auto simp: Let_def split: if_splits prod.splits intro: step keeps)
  qed
qed

end
