(* ===== verification/Memory.thy ===== *)
theory Memory
  imports Conbee_Prelude
begin

text \<open>
  The heap the library works on: one map per type of object (frames, payload buffers, queue items),
  one address space, \<open>NULL\<close> as address 0. A pointer that is null, has been freed or leaves its block
  makes a step undefined. \<open>malloc\<close> hands out fresh addresses and returns \<open>NULL\<close> when nothing is
  available; a block may be bigger than asked for, as allocators round small requests up to
  \<open>min_chunk\<close> bytes (24 in the GNU C library on LP64, the platform of the library).
\<close>

type_synonym addr = nat

abbreviation (input) NULL :: addr where "NULL \<equiv> 0"

subsection \<open>Structures\<close>

text \<open>\<open>struct conbee_frame\<close>; the field \<open>length\<close> is \<open>frame_length\<close> here.\<close>

record conbee_frame =
  command :: u8
  sequence_number :: u8
  status :: u8
  frame_length :: u16
  payload_length :: u16
  payload :: addr

text \<open>\<open>struct conbee_queue_item\<close> and \<open>struct conbee_queue_root\<close>; \<open>next\<close> is a keyword here.\<close>

record conbee_queue_item =
  contents :: addr
  next_item :: addr
  previous_item :: addr

record conbee_queue_root =
  head :: addr
  tail :: addr

record heap =
  frames :: "addr \<rightharpoonup> conbee_frame"
  blocks :: "addr \<rightharpoonup> u8 list"
  items :: "addr \<rightharpoonup> conbee_queue_item"
  brk :: addr
  avail :: nat
  min_chunk :: nat

definition init_heap :: "nat \<Rightarrow> nat \<Rightarrow> heap" where
  "init_heap n chunk =
     \<lparr>frames = Map.empty, blocks = Map.empty, items = Map.empty, brk = 1, avail = n, min_chunk = chunk\<rparr>"

definition live :: "heap \<Rightarrow> addr \<Rightarrow> bool" where
  "live h a \<longleftrightarrow> a \<in> dom (frames h) \<union> dom (blocks h) \<union> dom (items h)"

definition heap_ok :: "heap \<Rightarrow> bool" where
  "heap_ok h \<longleftrightarrow> 0 < brk h \<and> (\<forall>a. live h a \<longrightarrow> 0 < a \<and> a < brk h)"

subsection \<open>Allocation and access\<close>

definition malloc :: "heap \<Rightarrow> addr \<times> heap" where
  "malloc h = (if avail h = 0 then (NULL, h) else (brk h, h\<lparr>brk := Suc (brk h), avail := avail h - 1\<rparr>))"

definition deref :: "(addr \<rightharpoonup> 'a) \<Rightarrow> addr \<Rightarrow> ub + 'a" where
  "deref m a = (if a = NULL then Inl NullDeref
                else (case m a of None \<Rightarrow> Inl UseAfterFree | Some x \<Rightarrow> Inr x))"

definition update_frame :: "heap \<Rightarrow> addr \<Rightarrow> (conbee_frame \<Rightarrow> conbee_frame) \<Rightarrow> ub + heap" where
  "update_frame h a f =
     bindE (deref (frames h) a) (\<lambda>fr. Inr (h\<lparr>frames := (frames h)(a \<mapsto> f fr)\<rparr>))"

definition free_frame_block :: "heap \<Rightarrow> addr \<Rightarrow> ub + heap" where
  "free_frame_block h a =
     (if a = NULL then Inr h
      else (case frames h a of
              None \<Rightarrow> Inl UseAfterFree
            | Some _ \<Rightarrow> Inr (h\<lparr>frames := (frames h)(a := None), avail := Suc (avail h)\<rparr>)))"

definition free_bytes :: "heap \<Rightarrow> addr \<Rightarrow> ub + heap" where
  "free_bytes h a =
     (if a = NULL then Inr h
      else (case blocks h a of
              None \<Rightarrow> Inl UseAfterFree
            | Some _ \<Rightarrow> Inr (h\<lparr>blocks := (blocks h)(a := None), avail := Suc (avail h)\<rparr>)))"

definition free_item :: "heap \<Rightarrow> addr \<Rightarrow> ub + heap" where
  "free_item h a =
     (if a = NULL then Inr h
      else (case items h a of
              None \<Rightarrow> Inl UseAfterFree
            | Some _ \<Rightarrow> Inr (h\<lparr>items := (items h)(a := None), avail := Suc (avail h)\<rparr>)))"

text \<open>\<open>malloc(n)\<close> for a payload buffer that is then filled with the \<open>n\<close> bytes \<open>bs\<close>.\<close>

definition malloc_bytes :: "heap \<Rightarrow> u8 list \<Rightarrow> ub + addr \<times> heap" where
  "malloc_bytes h bs =
     (let (a, h) = malloc h
      in if a = NULL then Inl NullDeref else Inr (a, h\<lparr>blocks := (blocks h)(a \<mapsto> bs)\<rparr>))"

text \<open>\<open>memcpy\<close> of \<open>n\<close> bytes out of a payload buffer, from offset \<open>off\<close>.\<close>

definition read_bytes :: "heap \<Rightarrow> addr \<Rightarrow> nat \<Rightarrow> nat \<Rightarrow> ub + u8 list" where
  "read_bytes h a off n = bindE (deref (blocks h) a) (\<lambda>bs. buf_read bs off n)"

subsection \<open>Lemmas\<close>

lemma deref_simps [simp]:
  "deref m NULL = Inl NullDeref"
  "a \<noteq> NULL \<Longrightarrow> m a = Some x \<Longrightarrow> deref m a = Inr x"
  "a \<noteq> NULL \<Longrightarrow> m a = None \<Longrightarrow> deref m a = Inl UseAfterFree"
  by (simp_all add: deref_def)

lemma deref_eq_Inr: "deref m a = Inr x \<longleftrightarrow> a \<noteq> NULL \<and> m a = Some x"
  by (auto simp: deref_def split: option.splits)

lemma read_bytes_ok:
  "a \<noteq> NULL \<Longrightarrow> blocks h a = Some bs \<Longrightarrow> off + n \<le> length bs \<Longrightarrow>
   read_bytes h a off n = Inr (take n (drop off bs))"
  by (simp add: read_bytes_def buf_read_def)

lemma read_bytes_oob:
  "a \<noteq> NULL \<Longrightarrow> blocks h a = Some bs \<Longrightarrow> length bs < off + n \<Longrightarrow> read_bytes h a off n = Inl OutOfBounds"
  by (simp add: read_bytes_def buf_read_def)

lemma read_bytes_NULL [simp]: "read_bytes h NULL off n = Inl NullDeref"
  by (simp add: read_bytes_def)

lemma malloc_avail: "0 < avail h \<Longrightarrow> malloc h = (brk h, h\<lparr>brk := Suc (brk h), avail := avail h - 1\<rparr>)"
  by (simp add: malloc_def)

lemma heap_ok_brk: "heap_ok h \<Longrightarrow> 0 < brk h"
  by (simp add: heap_ok_def)

lemma heap_ok_fresh:
  assumes "heap_ok h" "brk h \<le> a"
  shows "frames h a = None" "blocks h a = None" "items h a = None"
  using assms by (auto simp: heap_ok_def live_def dom_def dest!: spec [where x = a])

lemma heap_ok_live:
  assumes "heap_ok h"
  shows "frames h a = Some f \<Longrightarrow> 0 < a \<and> a < brk h"
    and "blocks h a = Some bs \<Longrightarrow> 0 < a \<and> a < brk h"
    and "items h a = Some it \<Longrightarrow> 0 < a \<and> a < brk h"
  using assms by (auto simp: heap_ok_def live_def)

lemma heap_ok_init [simp]: "heap_ok (init_heap n chunk)"
  by (simp add: heap_ok_def init_heap_def live_def)

lemma init_heap_simps [simp]:
  "avail (init_heap n chunk) = n" "min_chunk (init_heap n chunk) = chunk" "brk (init_heap n chunk) = 1"
  "frames (init_heap n chunk) a = None" "blocks (init_heap n chunk) a = None" "items (init_heap n chunk) a = None"
  by (simp_all add: init_heap_def)

lemma frames_init_heap [simp]:
  "dom (frames (init_heap n chunk)) = {}" "dom (blocks (init_heap n chunk)) = {}" "dom (items (init_heap n chunk)) = {}"
  by (simp_all add: init_heap_def)

text \<open>Preservation: storing at a live or just allocated address, and forgetting an address.\<close>

lemma heap_okI:
  assumes "heap_ok h" "brk h \<le> brk h'" "\<And>a. live h' a \<Longrightarrow> live h a \<or> (0 < a \<and> a < brk h')"
  shows "heap_ok h'"
  using assms unfolding heap_ok_def by (meson less_le_trans)

end
