(* ===== verification/Queue.thy ===== *)
theory Queue
  imports Memory
begin

text \<open>
  The linked queue of \<open>src/conbee-queue.c\<close> on the heap of \<open>Memory\<close>. Items are doubly linked; the
  predicate \<open>queue_at\<close> describes a queue through its \<open>next\<close> pointers, \<open>linked_at\<close> through both. The
  locale \<open>fifo_queue\<close> is what the transport relies on.
\<close>

subsection \<open>Item blocks\<close>

text \<open>
  An item is allocated with \<open>malloc(sizeof(item))\<close>, the size of a pointer, and has three pointer
  fields. Whether a field is inside the block depends on how the allocator rounds the request.
\<close>

definition sizeof_ptr :: nat where "sizeof_ptr = 8"

definition item_block_size :: "heap \<Rightarrow> nat" where
  "item_block_size h = max sizeof_ptr (min_chunk h)"

definition item_field :: "heap \<Rightarrow> addr \<Rightarrow> nat \<Rightarrow> ub + conbee_queue_item" where
  "item_field h a idx =
     bindE (deref (items h) a)
       (\<lambda>it. if (idx + 1) * sizeof_ptr \<le> item_block_size h then Inr it else Inl OutOfBounds)"

definition set_item_field ::
  "heap \<Rightarrow> addr \<Rightarrow> nat \<Rightarrow> (conbee_queue_item \<Rightarrow> conbee_queue_item) \<Rightarrow> ub + heap" where
  "set_item_field h a idx f =
     bindE (item_field h a idx) (\<lambda>it. Inr (h\<lparr>items := (items h)(a \<mapsto> f it)\<rparr>))"

definition get_contents :: "heap \<Rightarrow> addr \<Rightarrow> ub + addr" where
  "get_contents h a = bindE (item_field h a 0) (\<lambda>it. Inr (contents it))"
definition get_next :: "heap \<Rightarrow> addr \<Rightarrow> ub + addr" where
  "get_next h a = bindE (item_field h a 1) (\<lambda>it. Inr (next_item it))"
definition get_previous :: "heap \<Rightarrow> addr \<Rightarrow> ub + addr" where
  "get_previous h a = bindE (item_field h a 2) (\<lambda>it. Inr (previous_item it))"
definition set_contents :: "heap \<Rightarrow> addr \<Rightarrow> addr \<Rightarrow> ub + heap" where
  "set_contents h a v = set_item_field h a 0 (\<lambda>it. it\<lparr>contents := v\<rparr>)"
definition set_next :: "heap \<Rightarrow> addr \<Rightarrow> addr \<Rightarrow> ub + heap" where
  "set_next h a v = set_item_field h a 1 (\<lambda>it. it\<lparr>next_item := v\<rparr>)"
definition set_previous :: "heap \<Rightarrow> addr \<Rightarrow> addr \<Rightarrow> ub + heap" where
  "set_previous h a v = set_item_field h a 2 (\<lambda>it. it\<lparr>previous_item := v\<rparr>)"

subsection \<open>The operations\<close>

definition conbee_queue_init :: "conbee_queue_root" where
  "conbee_queue_init = \<lparr>head = NULL, tail = NULL\<rparr>"

definition conbee_queue_push ::
  "heap \<Rightarrow> conbee_queue_root \<Rightarrow> addr \<Rightarrow> ub + heap \<times> conbee_queue_root" where
  "conbee_queue_push h queue content =
     (let (item, h) = malloc h;
          h = (if item = NULL then h
               else h\<lparr>items := (items h)(item \<mapsto> \<lparr>contents = NULL, next_item = NULL, previous_item = NULL\<rparr>)\<rparr>)
      in bindE (set_contents h item content) (\<lambda>h.
         bindE (set_next h item NULL) (\<lambda>h.
         bindE (set_previous h item NULL) (\<lambda>h.
         if head queue = NULL then Inr (h, \<lparr>head = item, tail = item\<rparr>)
         else bindE (set_previous h item (tail queue)) (\<lambda>h.
              bindE (set_next h (tail queue) item) (\<lambda>h.
              Inr (h, queue\<lparr>tail := item\<rparr>)))))))"

definition conbee_queue_pop ::
  "heap \<Rightarrow> conbee_queue_root \<Rightarrow> ub + addr \<times> heap \<times> conbee_queue_root" where
  "conbee_queue_pop h queue =
     (if head queue = NULL then Inr (NULL, h, queue)
      else bindE (get_contents h (head queue)) (\<lambda>popped.
           bindE (get_next h (head queue)) (\<lambda>next_it.
           bindE (free_item h (head queue)) (\<lambda>h.
             let queue = queue\<lparr>head := next_it\<rparr>;
                 queue = (if head queue = NULL then queue\<lparr>tail := NULL\<rparr> else queue)
             in Inr (popped, h, queue)))))"

definition conbee_queue_delete ::
  "heap \<Rightarrow> conbee_queue_root \<Rightarrow> addr \<Rightarrow> ub + heap \<times> conbee_queue_root" where
  "conbee_queue_delete h queue item =
     bindE (get_previous h item) (\<lambda>prev.
     bindE (if prev = NULL
            then bindE (get_next h item) (\<lambda>next_it. Inr (h, queue\<lparr>head := next_it\<rparr>))
            else bindE (get_next h item) (\<lambda>next_it.
                 bindE (set_next h prev next_it) (\<lambda>h. Inr (h, queue)))) (\<lambda>(h, queue).
     bindE (free_item h item) (\<lambda>h. Inr (h, queue))))"

subsection \<open>Queues on the heap\<close>

fun chain :: "(addr \<rightharpoonup> conbee_queue_item) \<Rightarrow> addr \<Rightarrow> addr list \<Rightarrow> addr list \<Rightarrow> bool" where
  "chain m p [] [] \<longleftrightarrow> p = NULL"
| "chain m p (a # as) (c # cs) \<longleftrightarrow> p = a \<and> a \<noteq> NULL \<and>
     (\<exists>it. m a = Some it \<and> contents it = c \<and> chain m (next_item it) as cs)"
| "chain m p _ _ \<longleftrightarrow> False"

definition queue_at :: "heap \<Rightarrow> conbee_queue_root \<Rightarrow> addr list \<Rightarrow> addr list \<Rightarrow> bool" where
  "queue_at h q as cs \<longleftrightarrow>
     chain (items h) (head q) as cs \<and> distinct as \<and> (as \<noteq> [] \<longrightarrow> tail q = last as)"

fun linked :: "(addr \<rightharpoonup> conbee_queue_item) \<Rightarrow> addr \<Rightarrow> addr \<Rightarrow> addr list \<Rightarrow> bool" where
  "linked m prev p [] \<longleftrightarrow> p = NULL"
| "linked m prev p (a # as) \<longleftrightarrow> p = a \<and> a \<noteq> NULL \<and>
     (\<exists>it. m a = Some it \<and> previous_item it = prev \<and> linked m a (next_item it) as)"

definition linked_at :: "heap \<Rightarrow> conbee_queue_root \<Rightarrow> addr list \<Rightarrow> bool" where
  "linked_at h q as \<longleftrightarrow> linked (items h) NULL (head q) as"

text \<open>The allocator gives item blocks that hold all three fields.\<close>

definition roomy :: "heap \<Rightarrow> bool" where
  "roomy h \<longleftrightarrow> 3 * sizeof_ptr \<le> min_chunk h"

text \<open>Two heaps that agree but for items at the addresses of \<open>S\<close>.\<close>

definition items_only :: "addr set \<Rightarrow> heap \<Rightarrow> heap \<Rightarrow> bool" where
  "items_only S h h' \<longleftrightarrow>
     frames h' = frames h \<and> blocks h' = blocks h \<and> min_chunk h' = min_chunk h \<and>
     (\<forall>a. a \<notin> S \<longrightarrow> items h' a = items h a)"

lemma roomy_upd [simp]:
  "roomy (h\<lparr>items := m\<rparr>) = roomy h" "roomy (h\<lparr>brk := b\<rparr>) = roomy h"
  "roomy (h\<lparr>avail := n\<rparr>) = roomy h" "roomy (h\<lparr>frames := fs\<rparr>) = roomy h"
  "roomy (h\<lparr>blocks := bs\<rparr>) = roomy h"
  by (simp_all add: roomy_def)

lemma items_only_roomy: "items_only S h h' \<Longrightarrow> roomy h' = roomy h"
  by (simp add: items_only_def roomy_def)

lemma item_access [simp]:
  assumes "roomy h" "a \<noteq> NULL" "items h a = Some it"
  shows "get_contents h a = Inr (contents it)"
    and "get_next h a = Inr (next_item it)"
    and "get_previous h a = Inr (previous_item it)"
    and "set_contents h a v = Inr (h\<lparr>items := (items h)(a \<mapsto> it\<lparr>contents := v\<rparr>)\<rparr>)"
    and "set_next h a v = Inr (h\<lparr>items := (items h)(a \<mapsto> it\<lparr>next_item := v\<rparr>)\<rparr>)"
    and "set_previous h a v = Inr (h\<lparr>items := (items h)(a \<mapsto> it\<lparr>previous_item := v\<rparr>)\<rparr>)"
  using assms
  by (simp_all add: get_contents_def get_next_def get_previous_def set_contents_def set_next_def
      set_previous_def set_item_field_def item_field_def item_block_size_def roomy_def)

lemma chain_cong:
  "(\<And>a. a \<in> set as \<Longrightarrow> m a = m' a) \<Longrightarrow> chain m p as cs \<longleftrightarrow> chain m' p as cs"
  by (induction m p as cs rule: chain.induct) auto

lemma linked_cong:
  "(\<And>a. a \<in> set as \<Longrightarrow> m a = m' a) \<Longrightarrow> linked m prev p as \<longleftrightarrow> linked m' prev p as"
  by (induction as arbitrary: prev p) auto

lemma chain_live: "chain m p as cs \<Longrightarrow> a \<in> set as \<Longrightarrow> a \<noteq> NULL \<and> (\<exists>it. m a = Some it)"
  by (induction m p as cs rule: chain.induct) auto

lemma queue_at_live:
  assumes "queue_at h q as cs" "a \<in> set as"
  shows "a \<noteq> NULL" "\<exists>it. items h a = Some it"
  using assms chain_live unfolding queue_at_def by blast+

lemma queue_at_fresh: "queue_at h q as cs \<Longrightarrow> heap_ok h \<Longrightarrow> brk h \<notin> set as"
  using queue_at_live(2) heap_ok_fresh(3) by fastforce

lemma linked_live: "linked m prev p as \<Longrightarrow> a \<in> set as \<Longrightarrow> a \<noteq> NULL \<and> m a \<noteq> None"
  by (induction as arbitrary: prev p) auto

lemma chain_length: "chain m p as cs \<Longrightarrow> length as = length cs"
  by (induction m p as cs rule: chain.induct) auto

lemma chain_NULL [simp]: "chain m NULL as cs \<longleftrightarrow> as = [] \<and> cs = []"
  by (cases "(m, NULL, as, cs)" rule: chain.cases) auto

lemma chain_head: "chain m p as cs \<Longrightarrow> p = NULL \<longleftrightarrow> as = []"
  by (cases "(m, p, as, cs)" rule: chain.cases) auto

lemma linked_NULL [simp]: "linked m prev NULL as \<longleftrightarrow> as = []"
  by (cases as) auto

lemma chain_snoc:
  assumes "chain m p (as @ [l]) cs" "distinct (as @ [l])" "n \<notin> set (as @ [l])" "n \<noteq> NULL"
    and "m l = Some it" "next_item it' = n" "contents it' = contents it"
    and "contents nit = c" "next_item nit = NULL"
  shows "chain (m(l \<mapsto> it', n \<mapsto> nit)) p (as @ [l, n]) (cs @ [c])"
  using assms
proof (induction as arbitrary: p cs)
  case Nil
  then obtain c' where "cs = [c']" by (cases cs; cases "tl cs") auto
  with Nil show ?case by auto
next
  case (Cons a as)
  then obtain c' cs' ia where "cs = c' # cs'" "m a = Some ia" "contents ia = c'" "p = a" "a \<noteq> NULL"
      "chain m (next_item ia) (as @ [l]) cs'"
    by (cases cs) auto
  with Cons show ?case by auto
qed

lemma heap_ok_items:
  assumes "heap_ok h" "brk h \<le> b" "\<And>a. m a \<noteq> None \<Longrightarrow> items h a \<noteq> None \<or> (0 < a \<and> a < b)"
  shows "heap_ok (h\<lparr>brk := b, avail := n, items := m\<rparr>)"
  using assms unfolding heap_ok_def live_def by (fastforce simp: dom_def)

lemma conbee_queue_push_empty:
  assumes "roomy h" "0 < avail h" "heap_ok h" "head q = NULL"
  shows "conbee_queue_push h q c =
     Inr (h\<lparr>brk := Suc (brk h), avail := avail h - 1,
            items := (items h)(brk h \<mapsto> \<lparr>contents = c, next_item = NULL, previous_item = NULL\<rparr>)\<rparr>,
          \<lparr>head = brk h, tail = brk h\<rparr>)"
  using assms heap_ok_brk [OF assms(3)] by (simp add: conbee_queue_push_def malloc_avail)

lemma conbee_queue_push_append:
  assumes "roomy h" "0 < avail h" "heap_ok h" "head q \<noteq> NULL" "items h (tail q) = Some it"
  shows "conbee_queue_push h q c =
     Inr (h\<lparr>brk := Suc (brk h), avail := avail h - 1,
            items := (items h)(tail q \<mapsto> it\<lparr>next_item := brk h\<rparr>,
                               brk h \<mapsto> \<lparr>contents = c, next_item = NULL, previous_item = tail q\<rparr>)\<rparr>,
          q\<lparr>tail := brk h\<rparr>)"
proof -
  have "tail q \<noteq> NULL" "tail q \<noteq> brk h"
    using heap_ok_live(3) [OF assms(3,5)] by auto
  then show ?thesis
    using assms heap_ok_brk [OF assms(3)] by (simp add: conbee_queue_push_def malloc_avail fun_upd_twist)
qed

lemma conbee_queue_push_ok:
  assumes h: "roomy h" "0 < avail h" "heap_ok h" and q: "queue_at h q as cs"
  obtains h' q' where "conbee_queue_push h q c = Inr (h', q')"
    and "queue_at h' q' (as @ [brk h]) (cs @ [c])"
    and "heap_ok h'" "items_only (insert (brk h) (set as)) h h'"
    and "brk h' = Suc (brk h)" "avail h' = avail h - 1"
proof (cases "head q = NULL")
  case True
  with q have as: "as = []" "cs = []" by (simp_all add: queue_at_def)
  show ?thesis
    by (rule that [OF conbee_queue_push_empty [OF h True]])
      (use h True as heap_ok_brk [OF h(3)] in
        \<open>auto simp: queue_at_def items_only_def intro!: heap_ok_items\<close>)
next
  case False
  with q have "as \<noteq> []" by (cases as; cases cs) (auto simp: queue_at_def)
  then obtain bs l where as: "as = bs @ [l]" by (metis rev_exhaust)
  then have l: "tail q = l" using q by (simp add: queue_at_def)
  have "l \<in> set as" by (simp add: as)
  then obtain it where it: "items h l = Some it"
    using queue_at_live(2) [OF q] by blast
  have fresh: "brk h \<notin> set as"
    by (rule queue_at_fresh [OF q h(3)])
  show ?thesis
  proof (rule that [OF conbee_queue_push_append [OF h False]])
    show "items h (tail q) = Some it" by (simp add: l it)
    show "queue_at (h\<lparr>brk := Suc (brk h), avail := avail h - 1,
            items := (items h)(tail q \<mapsto> it\<lparr>next_item := brk h\<rparr>,
                               brk h \<mapsto> \<lparr>contents = c, next_item = NULL, previous_item = tail q\<rparr>)\<rparr>)
          (q\<lparr>tail := brk h\<rparr>) (as @ [brk h]) (cs @ [c])"
      using q fresh it heap_ok_brk [OF h(3)]
      by (simp add: queue_at_def as l chain_snoc)
  qed (use h l it as heap_ok_live(3) [OF h(3) it] in
        \<open>auto simp: items_only_def intro!: heap_ok_items\<close>)
qed

lemma queue_at_NULL: "queue_at h q as cs \<Longrightarrow> head q = NULL \<longleftrightarrow> as = []"
  by (cases as; cases cs) (auto simp: queue_at_def)

lemma queue_at_Nil [simp]: "queue_at h q as [] \<longleftrightarrow> head q = NULL \<and> as = []"
  by (cases as) (auto simp: queue_at_def)

lemma queue_at_single: "queue_at h q as [] \<Longrightarrow> queue_at h' q' (as @ [a]) [c] \<Longrightarrow> head q' = a"
  by (simp add: queue_at_def [of h'])

lemma queue_at_Cons:
  assumes "queue_at h q as (c # cs)"
  obtains it bs where "as = head q # bs" "head q \<noteq> NULL" "items h (head q) = Some it" "contents it = c"
    "chain (items h) (next_item it) bs cs"
  using assms by (cases as) (auto simp: queue_at_def)

lemma queue_at_items_only:
  "queue_at h q as cs \<Longrightarrow> items_only S h h' \<Longrightarrow> S \<inter> set as = {} \<Longrightarrow> queue_at h' q as cs"
  unfolding queue_at_def items_only_def by (metis chain_cong disjoint_iff)

lemma heap_ok_free: "heap_ok h \<Longrightarrow> heap_ok (h\<lparr>items := (items h)(a := None), avail := n\<rparr>)"
  by (auto simp: heap_ok_def live_def dom_def)

text \<open>Taking the first item out, by \<open>pop\<close> or by a delete of the head.\<close>

lemma queue_at_tail:
  assumes q: "queue_at h q (a # as) (c # cs)" and it: "items h a = Some it"
    and tl: "as \<noteq> [] \<Longrightarrow> tail q' = tail q" and hd: "head q' = next_item it"
  shows "queue_at (h\<lparr>items := (items h)(a := None), avail := n\<rparr>) q' as cs"
proof -
  have "chain (items h) (next_item it) as cs" "distinct (a # as)"
    using q it by (auto simp: queue_at_def)
  moreover have "chain ((items h)(a := None)) (next_item it) as cs = chain (items h) (next_item it) as cs"
    using calculation(2) by (intro chain_cong) auto
  ultimately show ?thesis
    using q tl hd by (auto simp: queue_at_def)
qed

lemma conbee_queue_pop_empty: "head q = NULL \<Longrightarrow> conbee_queue_pop h q = Inr (NULL, h, q)"
  by (simp add: conbee_queue_pop_def)

lemma conbee_queue_pop_ok:
  assumes h: "roomy h" "heap_ok h" and q: "queue_at h q (a # as) (c # cs)"
  obtains h' q' where "conbee_queue_pop h q = Inr (c, h', q')" "queue_at h' q' as cs"
    and "heap_ok h'" "items_only {a} h h'" "brk h' = brk h" "avail h' = Suc (avail h)"
proof -
  obtain it where it: "head q = a" "a \<noteq> NULL" "items h a = Some it" "contents it = c"
    using q by (auto simp: queue_at_def)
  let ?h' = "h\<lparr>items := (items h)(a := None), avail := Suc (avail h)\<rparr>"
  let ?q' = "if next_item it = NULL then q\<lparr>head := NULL, tail := NULL\<rparr> else q\<lparr>head := next_item it\<rparr>"
  have "conbee_queue_pop h q = Inr (c, ?h', ?q')"
    using h it by (simp add: conbee_queue_pop_def free_item_def Let_def)
  moreover have "queue_at ?h' ?q' as cs"
  proof (rule queue_at_tail [OF q it(3)])
    assume "as \<noteq> []"
    moreover have "chain (items h) (next_item it) as cs" using q it by (auto simp: queue_at_def)
    ultimately have "next_item it \<noteq> NULL" using chain_head by blast
    then show "tail ?q' = tail q" by simp
  qed simp
  ultimately show ?thesis
    by (rule that) (use h in \<open>simp_all add: heap_ok_free items_only_def\<close>)
qed

text \<open>The items after a push and after a pop: one more, one less.\<close>

lemma conbee_queue_push_items:
  assumes "queue_at h q as cs" "queue_at h' q' (as @ [b]) cs'" "items_only (insert b (set as)) h h'"
  shows "dom (items h') = insert b (dom (items h))"
proof (rule set_eqI)
  fix x
  show "x \<in> dom (items h') \<longleftrightarrow> x \<in> insert b (dom (items h))"
    using queue_at_live(2) [OF assms(1), of x] queue_at_live(2) [OF assms(2), of x] assms(3)
    by (cases "x \<in> insert b (set as)") (auto simp: items_only_def)
qed

lemma conbee_queue_pop_items:
  assumes "roomy h" "heap_ok h" "queue_at h q (a # as) (c # cs)" "conbee_queue_pop h q = Inr (c', h', q')"
  shows "dom (items h') = dom (items h) - {a}"
proof -
  obtain it where it: "head q = a" "a \<noteq> NULL" "items h a = Some it" "contents it = c"
    using assms(3) by (auto simp: queue_at_def)
  then have "h' = h\<lparr>items := (items h)(a := None), avail := Suc (avail h)\<rparr>"
    using assms by (simp add: conbee_queue_pop_def free_item_def Let_def)
  then show ?thesis by simp
qed

lemma conbee_queue_delete_head_ok:
  assumes h: "roomy h" "heap_ok h" and q: "queue_at h q (a # as) (c # cs)"
    and it: "items h a = Some it" "previous_item it = NULL"
  shows "conbee_queue_delete h q a =
           Inr (h\<lparr>items := (items h)(a := None), avail := Suc (avail h)\<rparr>, q\<lparr>head := next_item it\<rparr>)"
    and "queue_at (h\<lparr>items := (items h)(a := None), avail := Suc (avail h)\<rparr>)
           (q\<lparr>head := next_item it\<rparr>) as cs"
proof -
  have "a \<noteq> NULL" using q by (auto simp: queue_at_def)
  then show "conbee_queue_delete h q a =
      Inr (h\<lparr>items := (items h)(a := None), avail := Suc (avail h)\<rparr>, q\<lparr>head := next_item it\<rparr>)"
    using h it by (simp add: conbee_queue_delete_def free_item_def)
qed (rule queue_at_tail [OF q it(1)], simp_all)

text \<open>
  Deleting an item whose \<open>previous\<close> has been freed (or was never an item): the write goes to a dead
  block.
\<close>

lemma conbee_queue_delete_stale:
  assumes "roomy h" "a \<noteq> NULL" "items h a = Some it"
    and "previous_item it \<noteq> NULL" "items h (previous_item it) = None"
  shows "conbee_queue_delete h q a = Inl UseAfterFree"
  using assms by (simp add: conbee_queue_delete_def set_next_def set_item_field_def item_field_def)

subsection \<open>The queue as an interface\<close>

text \<open>
  A first-in first-out queue with room for a number of further items. \<open>none\<close> is what \<open>pop\<close> returns
  when there is nothing.
\<close>

locale fifo_queue =
  fixes push :: "'q \<Rightarrow> 'a \<Rightarrow> ub + 'q"
    and pop :: "'q \<Rightarrow> ub + 'a \<times> 'q"
    and none :: 'a
    and repr :: "'q \<Rightarrow> 'a list \<Rightarrow> bool"
    and room :: "'q \<Rightarrow> nat"
  assumes push_repr: "repr q xs \<Longrightarrow> 0 < room q \<Longrightarrow>
      \<exists>q'. push q x = Inr q' \<and> repr q' (xs @ [x]) \<and> Suc (room q') = room q"
    and pop_nil: "repr q [] \<Longrightarrow> pop q = Inr (none, q)"
    and pop_cons: "repr q (x # xs) \<Longrightarrow>
      \<exists>q'. pop q = Inr (x, q') \<and> repr q' xs \<and> room q' = Suc (room q)"

datatype 'a queue_op = Push 'a | Pop

fun run_queue ::
  "('q \<Rightarrow> 'a \<Rightarrow> ub + 'q) \<Rightarrow> ('q \<Rightarrow> ub + 'a \<times> 'q) \<Rightarrow> 'a queue_op list \<Rightarrow> 'q \<Rightarrow> ub + 'a list \<times> 'q" where
  "run_queue push pop [] q = Inr ([], q)"
| "run_queue push pop (Push x # ops) q = bindE (push q x) (\<lambda>q. run_queue push pop ops q)"
| "run_queue push pop (Pop # ops) q =
     bindE (pop q) (\<lambda>(x, q). bindE (run_queue push pop ops q) (\<lambda>(outs, q). Inr (x # outs, q)))"

text \<open>The same operations on a list: what comes out, and what is left.\<close>

fun run_list :: "'a \<Rightarrow> 'a queue_op list \<Rightarrow> 'a list \<Rightarrow> 'a list \<times> 'a list" where
  "run_list none [] xs = ([], xs)"
| "run_list none (Push x # ops) xs = run_list none ops (xs @ [x])"
| "run_list none (Pop # ops) [] = (let (outs, ys) = run_list none ops [] in (none # outs, ys))"
| "run_list none (Pop # ops) (x # xs) = (let (outs, ys) = run_list none ops xs in (x # outs, ys))"

fun pushes :: "'a queue_op list \<Rightarrow> nat" where
  "pushes [] = 0"
| "pushes (Push x # ops) = Suc (pushes ops)"
| "pushes (Pop # ops) = pushes ops"

context fifo_queue begin

lemma run_refines_list:
  "repr q xs \<Longrightarrow> pushes ops \<le> room q \<Longrightarrow>
   \<exists>q'. run_queue push pop ops q = Inr (fst (run_list none ops xs), q') \<and>
        repr q' (snd (run_list none ops xs))"
proof (induction ops arbitrary: q xs)
  case Nil
  then show ?case by simp
next
  case (Cons op ops)
  show ?case
  proof (cases op)
    case (Push x)
    then obtain q' where "push q x = Inr q'" "repr q' (xs @ [x])" "Suc (room q') = room q"
      using Cons.prems push_repr [of q xs x] by auto
    with Push Cons show ?thesis by auto
  next
    case Pop
    show ?thesis
    proof (cases xs)
      case Nil
      obtain q' where "run_queue push pop ops q = Inr (fst (run_list none ops []), q')"
          "repr q' (snd (run_list none ops []))"
        using Cons Nil Pop by fastforce
      then show ?thesis
        using Cons.prems Nil Pop pop_nil [of q] by (auto split: prod.splits)
    next
      case xs: (Cons x ys)
      obtain q1 where q1: "pop q = Inr (x, q1)" "repr q1 ys" "room q1 = Suc (room q)"
        using Cons.prems xs pop_cons by blast
      obtain q' where "run_queue push pop ops q1 = Inr (fst (run_list none ops ys), q')"
          "repr q' (snd (run_list none ops ys))"
        using Cons.IH [OF q1(2)] Cons.prems Pop q1(3) by fastforce
      then show ?thesis
        using xs Pop q1 by (auto split: prod.splits)
    qed
  qed
qed

end

interpretation cq: fifo_queue
  "case_prod conbee_queue_push" "case_prod conbee_queue_pop" NULL
  "\<lambda>(h, q) cs. roomy h \<and> heap_ok h \<and> (\<exists>as. queue_at h q as cs)" "\<lambda>(h, q). avail h"
proof (unfold_locales, goal_cases)
  case (1 q xs x)
  obtain h r where q: "q = (h, r)" by (cases q)
  with 1 obtain as where as: "queue_at h r as xs" "roomy h" "heap_ok h" "0 < avail h" by auto
  obtain h' r' where "conbee_queue_push h r x = Inr (h', r')" "queue_at h' r' (as @ [brk h]) (xs @ [x])"
    "heap_ok h'" "items_only (insert (brk h) (set as)) h h'" "avail h' = avail h - 1"
    using conbee_queue_push_ok [OF as(2,4,3,1)] by metis
  then show ?case using as q items_only_roomy by fastforce
next
  case (2 q)
  then show ?case by (auto simp: conbee_queue_pop_empty)
next
  case (3 q x xs)
  obtain h r where q: "q = (h, r)" by (cases q)
  with 3 obtain as where as: "queue_at h r as (x # xs)" "roomy h" "heap_ok h" by auto
  then obtain b bs where b: "as = b # bs" by (auto elim: queue_at_Cons)
  obtain h' r' where "conbee_queue_pop h r = Inr (x, h', r')" "queue_at h' r' bs xs"
    "heap_ok h'" "items_only {b} h h'" "avail h' = Suc (avail h)"
    using conbee_queue_pop_ok as b by metis
  then show ?case using as q items_only_roomy by fastforce
qed

subsection \<open>Both directions of the links\<close>

lemma linked_previous:
  "linked m prev p (zs @ b # a # ys) \<Longrightarrow> \<exists>ia. m a = Some ia \<and> previous_item ia = b"
  by (induction zs arbitrary: prev p) auto

lemma linked_snoc:
  assumes "linked m prev p (as @ [l])" "distinct (as @ [l])" "n \<notin> set (as @ [l])" "n \<noteq> NULL"
    and "m l = Some it" "next_item it' = n" "previous_item it' = previous_item it"
    and "previous_item nit = l" "next_item nit = NULL"
  shows "linked (m(l \<mapsto> it', n \<mapsto> nit)) prev p (as @ [l, n])"
  using assms by (induction as arbitrary: prev p) auto

lemma chain_bypass:
  assumes "chain m p (zs @ b # a # ys) cs" "distinct (zs @ b # a # ys)"
    and "m b = Some ib" "m a = Some ia"
  shows "chain (m(b \<mapsto> ib\<lparr>next_item := next_item ia\<rparr>, a := None)) p (zs @ b # ys)
           (take (Suc (length zs)) cs @ drop (Suc (Suc (length zs))) cs)"
  using assms
proof (induction zs arbitrary: p cs)
  case Nil
  then obtain c d cs' where cs: "cs = c # d # cs'" by (cases cs; cases "tl cs") auto
  define m' where "m' = m(b \<mapsto> ib\<lparr>next_item := next_item ia\<rparr>, a := None)"
  have "chain m' (next_item ia) ys cs' = chain m (next_item ia) ys cs'"
    using Nil by (intro chain_cong) (auto simp: m'_def)
  moreover have "m' b = Some (ib\<lparr>next_item := next_item ia\<rparr>)"
    using Nil by (simp add: m'_def)
  ultimately have "chain m' p (b # ys) (c # cs')"
    using Nil cs by auto
  moreover have "take (Suc (length ([] :: addr list))) cs @ drop (Suc (Suc (length ([] :: addr list)))) cs = c # cs'"
    using cs by simp
  ultimately show ?case by (simp only: m'_def append_Nil)
next
  case (Cons z zs)
  then obtain c cs' where "cs = c # cs'" by (cases cs) auto
  with Cons show ?case by auto
qed

lemma conbee_queue_push_linked_from:
  assumes h: "roomy h" "0 < avail h" "heap_ok h" and q: "queue_at h q as cs" "linked (items h) prev (head q) as" and "as \<noteq> []"
    and push: "conbee_queue_push h q c = Inr (h', q')"
  shows "linked (items h') prev (head q') (as @ [brk h])"
proof -
  have hd: "head q \<noteq> NULL" using assms(6) queue_at_NULL [OF q(1)] by simp
  obtain bs l where as: "as = bs @ [l]" using assms(6) by (metis rev_exhaust)
  then have l: "tail q = l" using q by (simp add: queue_at_def)
  obtain it where it: "items h l = Some it"
    using queue_at_live(2) [OF q(1), of l] as by auto
  then have "conbee_queue_push h q c = Inr (h', q') \<Longrightarrow>
      items h' = (items h)(l \<mapsto> it\<lparr>next_item := brk h\<rparr>,
        brk h \<mapsto> \<lparr>contents = c, next_item = NULL, previous_item = l\<rparr>) \<and> head q' = head q"
    using conbee_queue_push_append [OF h hd] l by auto
  then show ?thesis
    using push q it queue_at_fresh [OF q(1) h(3)] heap_ok_brk [OF h(3)] linked_snoc
    by (simp add: as queue_at_def)
qed

lemma conbee_queue_push_linked:
  assumes h: "roomy h" "0 < avail h" "heap_ok h" and q: "queue_at h q as cs" "linked_at h q as"
    and push: "conbee_queue_push h q c = Inr (h', q')"
  shows "linked_at h' q' (as @ [brk h])"
proof (cases "as = []")
  case True
  then have "head q = NULL" using q(1) queue_at_NULL by simp
  then show ?thesis
    using True push conbee_queue_push_empty [OF h] heap_ok_brk [OF h(3)] by (auto simp: linked_at_def)
next
  case False
  then show ?thesis
    using conbee_queue_push_linked_from [OF h q(1) _ _ push] q(2) by (simp add: linked_at_def)
qed

lemma linked_prefix: "linked m prev p (as @ bs) \<Longrightarrow> a \<in> set as \<Longrightarrow> \<exists>it. m a = Some it \<and> a \<noteq> NULL"
  by (induction as arbitrary: prev p) auto

text \<open>Deleting an item that is not the first: its predecessor is linked past it.\<close>

lemma conbee_queue_delete_inner:
  assumes h: "roomy h" and q: "queue_at h q (zs @ b # a # ys) cs" "linked_at h q (zs @ b # a # ys)"
  obtains ia ib where "items h a = Some ia" "items h b = Some ib"
    and "conbee_queue_delete h q a =
       Inr (h\<lparr>items := (items h)(b \<mapsto> ib\<lparr>next_item := next_item ia\<rparr>, a := None), avail := Suc (avail h)\<rparr>, q)"
    and "chain ((items h)(b \<mapsto> ib\<lparr>next_item := next_item ia\<rparr>, a := None)) (head q) (zs @ b # ys)
           (take (Suc (length zs)) cs @ drop (Suc (Suc (length zs))) cs)"
proof -
  have dist: "distinct (zs @ b # a # ys)" and ch: "chain (items h) (head q) (zs @ b # a # ys) cs"
    using q(1) by (simp_all add: queue_at_def)
  obtain ia where ia: "items h a = Some ia" "previous_item ia = b"
    using linked_previous q(2) unfolding linked_at_def by blast
  obtain ib where ib: "items h b = Some ib" and nn: "a \<noteq> NULL" "b \<noteq> NULL"
    using queue_at_live [OF q(1), of b] queue_at_live [OF q(1), of a] by auto
  have "conbee_queue_delete h q a =
      Inr (h\<lparr>items := (items h)(b \<mapsto> ib\<lparr>next_item := next_item ia\<rparr>, a := None), avail := Suc (avail h)\<rparr>, q)"
    using h ia ib nn dist by (simp add: conbee_queue_delete_def free_item_def)
  then show ?thesis
    using that ia(1) ib chain_bypass [OF ch dist ib ia(1)] by blast
qed

text \<open>A queue of two frames, as two pushes build it: a concrete instance for what follows.\<close>

definition two_pushes :: "ub + heap \<times> conbee_queue_root" where
  "two_pushes = bindE (conbee_queue_push (init_heap 5 24) conbee_queue_init 70)
                  (\<lambda>(h, q). conbee_queue_push h q 80)"

lemma two_pushes_ok:
  obtains h q where "two_pushes = Inr (h, q)" "roomy h" "heap_ok h" "0 < avail h"
    "queue_at h q [1, 2] [70, 80]" "linked_at h q [1, 2]"
proof -
  let ?h = "init_heap 5 24" and ?q = "conbee_queue_init"
  have h: "roomy ?h" "0 < avail ?h" "heap_ok ?h"
    by (simp_all add: roomy_def sizeof_ptr_def)
  have q: "queue_at ?h ?q [] []" "linked_at ?h ?q []"
    by (simp_all add: conbee_queue_init_def linked_at_def)
  obtain h1 q1 where 1: "conbee_queue_push ?h ?q 70 = Inr (h1, q1)" "queue_at h1 q1 ([] @ [brk ?h]) ([] @ [70])"
      "heap_ok h1" "items_only (insert (brk ?h) (set [])) ?h h1" "brk h1 = Suc (brk ?h)" "avail h1 = avail ?h - 1"
    by (rule conbee_queue_push_ok [OF h q(1), of 70])
  have l1: "linked_at h1 q1 ([] @ [brk ?h])"
    by (rule conbee_queue_push_linked [OF h q 1(1)])
  have h1: "roomy h1" "0 < avail h1" "heap_ok h1"
    using 1 h items_only_roomy by auto
  obtain h2 q2 where 2: "conbee_queue_push h1 q1 80 = Inr (h2, q2)"
      "queue_at h2 q2 (([] @ [brk ?h]) @ [brk h1]) (([] @ [70]) @ [80])"
      "heap_ok h2" "items_only (insert (brk h1) (set ([] @ [brk ?h]))) h1 h2"
      "brk h2 = Suc (brk h1)" "avail h2 = avail h1 - 1"
    by (rule conbee_queue_push_ok [OF h1 1(2), of 80])
  have "linked_at h2 q2 (([] @ [brk ?h]) @ [brk h1])"
    by (rule conbee_queue_push_linked [OF h1 1(2) l1 2(1)])
  moreover have "roomy h2" using h1 2(4) items_only_roomy by blast
  ultimately show ?thesis
    using that [of h2 q2] 1 2 by (simp add: two_pushes_def numeral_2_eq_2)
qed

subsection \<open>Properties\<close>

text \<open>
  C8: any sequence of pushes and pops on a newly initialised queue, with memory for the pushes,
  behaves as the same sequence on a list: pushes append, pops take from the front and give NULL when
  the list is empty; the queue left on the heap is the list left, and no step is undefined.
\<close>

theorem queue_refines_fifo:
  assumes "roomy h" "heap_ok h" "pushes ops \<le> avail h"
  shows "\<exists>h' q' as.
     run_queue (case_prod conbee_queue_push) (case_prod conbee_queue_pop) ops (h, conbee_queue_init) =
       Inr (fst (run_list NULL ops []), (h', q')) \<and>
     queue_at h' q' as (snd (run_list NULL ops []))"
proof -
  have "roomy h \<and> heap_ok h \<and> (\<exists>as. queue_at h conbee_queue_init as [])"
    using assms by (simp add: conbee_queue_init_def)
  with cq.run_refines_list [of "(h, conbee_queue_init)" "[]" ops] assms(3)
  show ?thesis by auto
qed

theorem queue_refines_fifo_witness:
  "\<exists>h' q' as.
     run_queue (case_prod conbee_queue_push) (case_prod conbee_queue_pop)
       [Pop, Push 70, Push 80, Pop, Push 90, Pop] (init_heap 3 24, conbee_queue_init) =
       Inr ([NULL, 70, 80], (h', q')) \<and> queue_at h' q' as [90]"
proof -
  let ?ops = "[Pop, Push 70, Push 80, Pop, Push 90, Pop] :: addr queue_op list"
  have "roomy (init_heap 3 24)" "pushes ?ops \<le> avail (init_heap 3 24)"
    by (simp_all add: roomy_def sizeof_ptr_def)
  moreover have "fst (run_list NULL ?ops []) = [NULL, 70, 80]" "snd (run_list NULL ?ops []) = [90]"
    by simp_all
  ultimately show ?thesis
    using queue_refines_fifo [OF _ heap_ok_init, of 3 24 ?ops] by (simp only: )
qed

text \<open>
  \<open>malloc(sizeof(item))\<close> asks for the size of a pointer, not of an item. Where the allocator
  returns no more than the three fields need, every push writes outside its block; where it rounds
  up to 24 bytes, no push on a queue in order does.
\<close>

lemma push_needs_rounding_allocator:
  assumes "heap_ok h" "0 < avail h" "queue_at h q as cs"
  shows "conbee_queue_push h q c = Inl OutOfBounds \<longleftrightarrow> min_chunk h < 3 * sizeof_ptr"
proof (cases "roomy h")
  case True
  then obtain r where "conbee_queue_push h q c = Inr r"
    using conbee_queue_push_ok [OF True assms(2,1,3)] by metis
  then show ?thesis using True by (simp add: roomy_def)
next
  case False
  then have chunk: "min_chunk h < 24" by (simp add: roomy_def sizeof_ptr_def)
  have "conbee_queue_push h q c = Inl OutOfBounds"
    using chunk assms(2) heap_ok_brk [OF assms(1)]
    by (auto simp: conbee_queue_push_def malloc_avail set_contents_def set_next_def set_previous_def
        set_item_field_def item_field_def item_block_size_def sizeof_ptr_def)
  then show ?thesis using chunk by (simp add: sizeof_ptr_def)
qed

text \<open>
  Deleting any item of a queue whose links are all in order returns, frees the item, and leaves
  exactly the other items, in order, along the \<open>next\<close> pointers.
\<close>

lemma delete_removes_item:
  assumes "roomy h" "heap_ok h" "queue_at h q (xs @ a # ys) cs" "linked_at h q (xs @ a # ys)"
  shows "\<exists>h' q'. conbee_queue_delete h q a = Inr (h', q') \<and> items h' a = None \<and>
           chain (items h') (head q') (xs @ ys) (take (length xs) cs @ drop (Suc (length xs)) cs)"
proof (cases xs rule: rev_cases)
  case Nil
  with assms(3,4) obtain c cs' it where "cs = c # cs'" "items h a = Some it" "previous_item it = NULL"
    by (cases cs) (auto simp: queue_at_def linked_at_def)
  with conbee_queue_delete_head_ok [OF assms(1,2), of q a ys c cs' it] assms(3) Nil show ?thesis
    by (simp add: queue_at_def)
next
  case (snoc zs b)
  from conbee_queue_delete_inner [OF assms(1), of q zs b a ys cs] assms(3,4) snoc show ?thesis
    by fastforce
qed

text \<open>
  Deleting the two frames at the front one after the other, in the order in which they were
  pushed, is a use after free: \<open>conbee_queue_delete\<close> leaves the new first item's \<open>previous\<close> pointing
  at the block it has just freed.
\<close>

lemma second_delete_uses_freed_item:
  assumes "roomy h" "heap_ok h" "queue_at h q (a # b # as) cs" "linked_at h q (a # b # as)"
  shows "\<exists>h' q'. conbee_queue_delete h q a = Inr (h', q') \<and> queue_at h' q' (b # as) (tl cs) \<and>
           head q' = b \<and> conbee_queue_delete h' q' b = Inl UseAfterFree"
proof -
  obtain c cs' where cs: "cs = c # cs'" using assms(3) by (cases cs) (auto simp: queue_at_def)
  have dist: "a \<noteq> b" using assms(3) by (simp add: queue_at_def)
  obtain ia ib where it: "items h a = Some ia" "previous_item ia = NULL" "next_item ia = b"
      "items h b = Some ib" "previous_item ib = a" "a \<noteq> NULL" "b \<noteq> NULL"
    using assms(4) by (auto simp: linked_at_def)
  let ?h' = "h\<lparr>items := (items h)(a := None), avail := Suc (avail h)\<rparr>"
  let ?q' = "q\<lparr>head := b\<rparr>"
  have "conbee_queue_delete h q a = Inr (?h', ?q')" "queue_at ?h' ?q' (b # as) cs'"
    using conbee_queue_delete_head_ok [OF assms(1,2), of q a "b # as" c cs' ia] assms(3) cs it
    by simp_all
  moreover have "conbee_queue_delete ?h' ?q' b = Inl UseAfterFree"
    using it dist assms(1) by (intro conbee_queue_delete_stale [where it = ib]) simp_all
  ultimately show ?thesis by (simp add: cs)
qed

text \<open>
  After the last of several items has been deleted, \<open>tail\<close> still points at its freed block, and the
  next push writes there.
\<close>

lemma push_after_deleting_last:
  assumes "roomy h" "heap_ok h" "queue_at h q (zs @ [b, a]) cs" "linked_at h q (zs @ [b, a])"
  shows "\<exists>h' q'. conbee_queue_delete h q a = Inr (h', q') \<and> tail q' = a \<and>
           conbee_queue_push h' q' c = Inl UseAfterFree"
proof -
  have tl: "tail q = a" and dist: "a \<noteq> b" and hd: "head q \<noteq> NULL"
    using assms(3) queue_at_NULL [OF assms(3)] by (auto simp: queue_at_def)
  obtain ia ib where it: "items h a = Some ia" and
    del: "conbee_queue_delete h q a =
       Inr (h\<lparr>items := (items h)(b \<mapsto> ib\<lparr>next_item := next_item ia\<rparr>, a := None), avail := Suc (avail h)\<rparr>, q)"
    using conbee_queue_delete_inner [OF assms(1,3,4)] by blast
  have "a \<noteq> NULL" "a \<noteq> brk h" "0 < brk h"
    using heap_ok_live(3) [OF assms(2) it] by auto
  then show ?thesis
    using del tl hd assms(1)
    by (simp add: conbee_queue_push_def malloc_avail set_next_def [of _ a] set_item_field_def item_field_def)
qed

end
