(* ===== verification/Frame.thy ===== *)
theory Frame
  imports Memory
begin

text \<open>
  Frames: the protocol constants of \<open>include/conbee.h\<close>, and the functions of \<open>src/conbee.c\<close> that build
  request frames, free frames, test the status of a response and take values out of one. Frames
  and payloads live on the heap of \<open>Memory\<close>.
\<close>

subsection \<open>Constants\<close>

definition STATUS_SUCCESS :: u8 where [conbee_const]: "STATUS_SUCCESS = 0x00"
definition STATUS_FAILURE :: u8 where [conbee_const]: "STATUS_FAILURE = 0x01"
definition STATUS_BUSY :: u8 where [conbee_const]: "STATUS_BUSY = 0x02"
definition STATUS_TIMEOUT :: u8 where [conbee_const]: "STATUS_TIMEOUT = 0x03"
definition STATUS_UNSUPPORTED :: u8 where [conbee_const]: "STATUS_UNSUPPORTED = 0x04"
definition STATUS_ERROR :: u8 where [conbee_const]: "STATUS_ERROR = 0x05"
definition STATUS_NO_NETWORK :: u8 where [conbee_const]: "STATUS_NO_NETWORK = 0x06"
definition STATUS_INVALID_VALUE :: u8 where [conbee_const]: "STATUS_INVALID_VALUE = 0x07"

definition NETWORK_OFFLINE :: u8 where [conbee_const]: "NETWORK_OFFLINE = 0x00"
definition NETWORK_JOINING :: u8 where [conbee_const]: "NETWORK_JOINING = 0x01"
definition NETWORK_CONNECTED :: u8 where [conbee_const]: "NETWORK_CONNECTED = 0x02"
definition NETWORK_LEAVING :: u8 where [conbee_const]: "NETWORK_LEAVING = 0x03"

definition COMMAND_DEVICE_STATE :: u8 where [conbee_const]: "COMMAND_DEVICE_STATE = 0x07"
definition COMMAND_CHANGE_NETWORK_STATE :: u8 where [conbee_const]: "COMMAND_CHANGE_NETWORK_STATE = 0x08"
definition COMMAND_READ_PARAMETER :: u8 where [conbee_const]: "COMMAND_READ_PARAMETER = 0x0A"
definition COMMAND_WRITE_PARAMETER :: u8 where [conbee_const]: "COMMAND_WRITE_PARAMETER = 0x0B"
definition COMMAND_DEVICE_STATE_CHANGED :: u8 where [conbee_const]: "COMMAND_DEVICE_STATE_CHANGED = 0x0E"
definition COMMAND_VERSION :: u8 where [conbee_const]: "COMMAND_VERSION = 0x0D"
definition COMMAND_APS_DATA_INDICATION :: u8 where [conbee_const]: "COMMAND_APS_DATA_INDICATION = 0x17"
definition COMMAND_ANY :: u8 where [conbee_const]: "COMMAND_ANY = 0xFF"

definition PARAM_MAC_ADDRESS :: u8 where [conbee_const]: "PARAM_MAC_ADDRESS = 0x01"
definition PARAM_NWK_PANID :: u8 where [conbee_const]: "PARAM_NWK_PANID = 0x05"
definition PARAM_NWK_ADDRESS :: u8 where [conbee_const]: "PARAM_NWK_ADDRESS = 0x07"
definition PARAM_NWK_EXT_PANID :: u8 where [conbee_const]: "PARAM_NWK_EXT_PANID = 0x08"
definition PARAM_APS_COORDINATOR :: u8 where [conbee_const]: "PARAM_APS_COORDINATOR = 0x09"
definition PARAM_CHANNEL_MASK :: u8 where [conbee_const]: "PARAM_CHANNEL_MASK = 0x0A"
definition PARAM_APS_EXT_PANID :: u8 where [conbee_const]: "PARAM_APS_EXT_PANID = 0x0B"
definition PARAM_TRUST_CENTER_ADDRESS :: u8 where [conbee_const]: "PARAM_TRUST_CENTER_ADDRESS = 0x0E"
definition PARAM_SECURITY_MODE :: u8 where [conbee_const]: "PARAM_SECURITY_MODE = 0x10"

subsection \<open>Making and freeing frames\<close>

definition conbee_init_frame :: "heap \<Rightarrow> ub + addr \<times> heap" where
  "conbee_init_frame h =
     (let (frame, h) = malloc h
      in if frame = NULL then Inl NullDeref
         else Inr (frame, h\<lparr>frames := (frames h)(frame \<mapsto>
                \<lparr>command = 0, sequence_number = 0, status = 0, frame_length = 0,
                 payload_length = 0, payload = NULL\<rparr>)\<rparr>))"

definition conbee_free_frame :: "heap \<Rightarrow> addr \<Rightarrow> ub + heap" where
  "conbee_free_frame h frame =
     (if frame = NULL then Inr h
      else bindE (deref (frames h) frame) (\<lambda>fr.
           bindE (if payload fr \<noteq> NULL
                  then bindE (update_frame h frame (\<lambda>f. f\<lparr>payload_length := 0\<rparr>))
                         (\<lambda>h. free_bytes h (payload fr))
                  else Inr h) (\<lambda>h.
           free_frame_block h frame)))"

text \<open>\<open>frame->payload = malloc(n)\<close> and the \<open>n\<close> byte writes that follow.\<close>

definition set_payload :: "heap \<Rightarrow> addr \<Rightarrow> u8 list \<Rightarrow> ub + heap" where
  "set_payload h frame bs =
     bindE (malloc_bytes h bs) (\<lambda>(p, h). update_frame h frame (\<lambda>f. f\<lparr>payload := p\<rparr>))"

subsection \<open>Requests\<close>

definition conbee_read_firmware_request :: "heap \<Rightarrow> ub + addr \<times> heap" where
  "conbee_read_firmware_request h =
     bindE (conbee_init_frame h) (\<lambda>(frame, h).
     bindE (update_frame h frame (\<lambda>f. f\<lparr>command := COMMAND_VERSION, status := 0,
              sequence_number := 0, frame_length := 5\<rparr>)) (\<lambda>h.
     Inr (frame, h)))"

definition conbee_read_parameter_request :: "heap \<Rightarrow> u8 \<Rightarrow> ub + addr \<times> heap" where
  "conbee_read_parameter_request h parameter =
     bindE (conbee_init_frame h) (\<lambda>(frame, h).
     bindE (update_frame h frame (\<lambda>f. f\<lparr>command := COMMAND_READ_PARAMETER, status := 0,
              sequence_number := 0, frame_length := 8, payload_length := 1\<rparr>)) (\<lambda>h.
     bindE (set_payload h frame [parameter]) (\<lambda>h.
     Inr (frame, h))))"

text \<open>\<open>value\<close> is the memory at the caller's pointer.\<close>

definition conbee_write_parameter_request :: "heap \<Rightarrow> u8 \<Rightarrow> u8 list \<Rightarrow> u8 \<Rightarrow> ub + addr \<times> heap" where
  "conbee_write_parameter_request h parameter val value_size =
     bindE (conbee_init_frame h) (\<lambda>(frame, h).
     bindE (update_frame h frame (\<lambda>f. f\<lparr>command := COMMAND_WRITE_PARAMETER, sequence_number := 0,
              status := 0, frame_length := 8 + ucast value_size,
              payload_length := 1 + ucast value_size\<rparr>)) (\<lambda>h.
     bindE (buf_read val 0 (unat value_size)) (\<lambda>bs.
     bindE (set_payload h frame (parameter # bs)) (\<lambda>h.
     Inr (frame, h)))))"

definition conbee_write_parameter_request_uint8 :: "heap \<Rightarrow> u8 \<Rightarrow> u8 \<Rightarrow> ub + addr \<times> heap" where
  "conbee_write_parameter_request_uint8 h parameter val =
     conbee_write_parameter_request h parameter (le_bytes 1 val) 1"

definition conbee_write_parameter_request_uint16 :: "heap \<Rightarrow> u8 \<Rightarrow> u16 \<Rightarrow> ub + addr \<times> heap" where
  "conbee_write_parameter_request_uint16 h parameter val =
     conbee_write_parameter_request h parameter (le_bytes 2 val) 2"

definition conbee_write_parameter_request_uint32 :: "heap \<Rightarrow> u8 \<Rightarrow> u32 \<Rightarrow> ub + addr \<times> heap" where
  "conbee_write_parameter_request_uint32 h parameter val =
     conbee_write_parameter_request h parameter (le_bytes 4 val) 4"

definition conbee_write_parameter_request_uint64 :: "heap \<Rightarrow> u8 \<Rightarrow> u64 \<Rightarrow> ub + addr \<times> heap" where
  "conbee_write_parameter_request_uint64 h parameter val =
     conbee_write_parameter_request h parameter (le_bytes 8 val) 8"

definition conbee_device_status_request :: "heap \<Rightarrow> ub + addr \<times> heap" where
  "conbee_device_status_request h =
     bindE (conbee_init_frame h) (\<lambda>(frame, h).
     bindE (update_frame h frame (\<lambda>f. f\<lparr>command := COMMAND_DEVICE_STATE, sequence_number := 0,
              status := 0, frame_length := 8, payload_length := 3\<rparr>)) (\<lambda>h.
     bindE (set_payload h frame [0, 0, 0]) (\<lambda>h.
     Inr (frame, h))))"

definition conbee_device_network_join_create_request :: "heap \<Rightarrow> ub + addr \<times> heap" where
  "conbee_device_network_join_create_request h =
     bindE (conbee_init_frame h) (\<lambda>(frame, h).
     bindE (update_frame h frame (\<lambda>f. f\<lparr>command := COMMAND_CHANGE_NETWORK_STATE,
              sequence_number := 0, status := 0, frame_length := 6, payload_length := 1\<rparr>)) (\<lambda>h.
     bindE (set_payload h frame [NETWORK_CONNECTED]) (\<lambda>h.
     Inr (frame, h))))"

definition conbee_device_network_leave_request :: "heap \<Rightarrow> ub + addr \<times> heap" where
  "conbee_device_network_leave_request h =
     bindE (conbee_init_frame h) (\<lambda>(frame, h).
     bindE (update_frame h frame (\<lambda>f. f\<lparr>command := COMMAND_CHANGE_NETWORK_STATE,
              sequence_number := 0, status := 0, frame_length := 6, payload_length := 1\<rparr>)) (\<lambda>h.
     bindE (set_payload h frame [NETWORK_OFFLINE]) (\<lambda>h.
     Inr (frame, h))))"

definition conbee_device_get_aps_data_request :: "heap \<Rightarrow> ub + addr \<times> heap" where
  "conbee_device_get_aps_data_request h =
     bindE (conbee_init_frame h) (\<lambda>(frame, h).
     let flags = ((0 OR 0x01) OR 0x02) OR 0x04 in
     bindE (update_frame h frame (\<lambda>f. f\<lparr>command := COMMAND_APS_DATA_INDICATION,
              sequence_number := 0, status := 0, frame_length := 8, payload_length := 1\<rparr>)) (\<lambda>h.
     bindE (set_payload h frame [flags]) (\<lambda>h.
     Inr (frame, h))))"

subsection \<open>Responses\<close>

definition status_is :: "u8 \<Rightarrow> heap \<Rightarrow> addr \<Rightarrow> ub + u8" where
  "status_is st h frame =
     bindE (deref (frames h) frame) (\<lambda>fr. Inr (if status fr = st then 1 else 0))"

definition conbee_frame_success :: "heap \<Rightarrow> addr \<Rightarrow> ub + u8" where
  "conbee_frame_success = status_is STATUS_SUCCESS"
definition conbee_frame_failure :: "heap \<Rightarrow> addr \<Rightarrow> ub + u8" where
  "conbee_frame_failure = status_is STATUS_FAILURE"
definition conbee_frame_busy :: "heap \<Rightarrow> addr \<Rightarrow> ub + u8" where
  "conbee_frame_busy = status_is STATUS_BUSY"
definition conbee_frame_timeout :: "heap \<Rightarrow> addr \<Rightarrow> ub + u8" where
  "conbee_frame_timeout = status_is STATUS_TIMEOUT"
definition conbee_frame_unsupported :: "heap \<Rightarrow> addr \<Rightarrow> ub + u8" where
  "conbee_frame_unsupported = status_is STATUS_UNSUPPORTED"
definition conbee_frame_error :: "heap \<Rightarrow> addr \<Rightarrow> ub + u8" where
  "conbee_frame_error = status_is STATUS_ERROR"
definition conbee_frame_nonetwork :: "heap \<Rightarrow> addr \<Rightarrow> ub + u8" where
  "conbee_frame_nonetwork = status_is STATUS_NO_NETWORK"
definition conbee_frame_invalidvalue :: "heap \<Rightarrow> addr \<Rightarrow> ub + u8" where
  "conbee_frame_invalidvalue = status_is STATUS_INVALID_VALUE"

text \<open>
  The readers of a parameter response return a code and, through a pointer, a value; \<open>data\<close> is what
  the pointer's target holds before. \<open>payload_length - 3\<close> is an \<open>int\<close> that is compared with a
  \<open>size_t\<close>, so it is converted to 64 unsigned bits.
\<close>

definition read_parameter_response :: "nat \<Rightarrow> heap \<Rightarrow> addr \<Rightarrow> 'a::len word \<Rightarrow> ub + int \<times> 'a word" where
  "read_parameter_response nbytes h frame data =
     bindE (deref (frames h) frame) (\<lambda>fr.
       if (word_of_int (int (unat (payload_length fr)) - 3) :: u64) \<noteq> word_of_nat nbytes
       then Inr (-1, data)
       else bindE (read_bytes h (payload fr) 3 nbytes) (\<lambda>bs. Inr (0, le_word bs)))"

definition conbee_read_parameter_response_uint64 :: "heap \<Rightarrow> addr \<Rightarrow> u64 \<Rightarrow> ub + int \<times> u64" where
  "conbee_read_parameter_response_uint64 = read_parameter_response 8"
definition conbee_read_parameter_response_uint32 :: "heap \<Rightarrow> addr \<Rightarrow> u32 \<Rightarrow> ub + int \<times> u32" where
  "conbee_read_parameter_response_uint32 = read_parameter_response 4"
definition conbee_read_parameter_response_uint16 :: "heap \<Rightarrow> addr \<Rightarrow> u16 \<Rightarrow> ub + int \<times> u16" where
  "conbee_read_parameter_response_uint16 = read_parameter_response 2"
definition conbee_read_parameter_response_uint8 :: "heap \<Rightarrow> addr \<Rightarrow> u8 \<Rightarrow> ub + int \<times> u8" where
  "conbee_read_parameter_response_uint8 = read_parameter_response 1"

record conbee_version =
  major :: u8
  minor :: u8
  platform :: u8
  reserved :: u8

text \<open>\<open>ntohl\<close> reverses the bytes on a little-endian host.\<close>

definition ntohl :: "u32 \<Rightarrow> u32" where
  "ntohl w = le_word (rev (le_bytes 4 w))"

definition version_of_bytes :: "u8 list \<Rightarrow> conbee_version" where
  "version_of_bytes bs = \<lparr>major = bs ! 0, minor = bs ! 1, platform = bs ! 2, reserved = bs ! 3\<rparr>"

definition conbee_get_version :: "heap \<Rightarrow> addr \<Rightarrow> conbee_version \<Rightarrow> ub + int \<times> conbee_version" where
  "conbee_get_version h frame version =
     bindE (deref (frames h) frame) (\<lambda>fr.
       if command fr \<noteq> COMMAND_VERSION \<and> status fr \<noteq> STATUS_SUCCESS \<and> frame_length fr \<noteq> 9
       then Inr (-1, version)
       else bindE (read_bytes h (payload fr) 0 4) (\<lambda>bs.
         let help = ntohl (le_word bs)
         in Inr (0, version_of_bytes (le_bytes 4 help))))"

record conbee_device_state =
  network_state :: u8
  apsde_data_confirm :: u8
  apsde_data_indication :: u8
  configuration_changed :: u8
  apsde_data_request_free_slots :: u8

definition conbee_device_state_response ::
  "heap \<Rightarrow> addr \<Rightarrow> conbee_device_state \<Rightarrow> ub + int \<times> conbee_device_state" where
  "conbee_device_state_response h frame state =
     bindE (deref (frames h) frame) (\<lambda>fr.
       let pos = (if command fr = COMMAND_DEVICE_STATE then Some 1
                  else if command fr = COMMAND_DEVICE_STATE_CHANGED then Some 0
                  else if command fr = COMMAND_APS_DATA_INDICATION then Some 3
                  else None)
       in case pos of
            None \<Rightarrow> Inr (-1, state)
          | Some i \<Rightarrow> bindE (read_bytes h (payload fr) i 1) (\<lambda>bs.
              let stateByte = hd bs in
              Inr (0, \<lparr>network_state = stateByte AND 0x03,
                       apsde_data_confirm = stateByte AND 0x04,
                       apsde_data_indication = stateByte AND 0x08,
                       configuration_changed = stateByte AND 0x10,
                       apsde_data_request_free_slots = stateByte AND 0x20\<rparr>)))"

subsection \<open>Frames on the heap\<close>

text \<open>
  \<open>frame_is h a fr bs\<close>: at \<open>a\<close> there is the frame \<open>fr\<close>, whose payload buffer holds exactly \<open>bs\<close>; a null
  payload holds nothing.
\<close>

definition frame_is :: "heap \<Rightarrow> addr \<Rightarrow> conbee_frame \<Rightarrow> u8 list \<Rightarrow> bool" where
  "frame_is h a fr bs \<longleftrightarrow> a \<noteq> NULL \<and> frames h a = Some fr \<and>
     (if payload fr = NULL then bs = [] else blocks h (payload fr) = Some bs)"

lemma frame_is_cong:
  "frames h' a = frames h a \<Longrightarrow> blocks h' = blocks h \<Longrightarrow> frame_is h' a fr bs = frame_is h a fr bs"
  by (simp add: frame_is_def)

text \<open>The heap after a frame with its payload has been allocated, at the next two addresses.\<close>

definition with_frame :: "heap \<Rightarrow> conbee_frame \<Rightarrow> u8 list \<Rightarrow> heap" where
  "with_frame h fr bs =
     h\<lparr>brk := Suc (Suc (brk h)), avail := avail h - 2,
       frames := (frames h)(brk h \<mapsto> fr\<lparr>payload := Suc (brk h)\<rparr>),
       blocks := (blocks h)(Suc (brk h) \<mapsto> bs)\<rparr>"

lemma with_frame_simps [simp]:
  "items (with_frame h fr bs) = items h" "avail (with_frame h fr bs) = avail h - 2"
  "brk (with_frame h fr bs) = Suc (Suc (brk h))" "min_chunk (with_frame h fr bs) = min_chunk h"
  by (simp_all add: with_frame_def)

lemma with_frame_ok: "heap_ok h \<Longrightarrow> heap_ok (with_frame h fr bs)"
  by (rule heap_okI [of h]) (auto simp: with_frame_def live_def dest: heap_ok_brk split: if_splits)

lemma with_frame_is: "heap_ok h \<Longrightarrow> frame_is (with_frame h fr bs) (brk h) (fr\<lparr>payload := Suc (brk h)\<rparr>) bs"
  by (simp add: frame_is_def with_frame_def heap_ok_brk)

lemma set_payload_ok:
  assumes "0 < avail h" "heap_ok h" "frame \<noteq> NULL" "frames h frame = Some fr"
  shows "set_payload h frame bs =
     Inr (h\<lparr>brk := Suc (brk h), avail := avail h - 1, blocks := (blocks h)(brk h \<mapsto> bs),
            frames := (frames h)(frame \<mapsto> fr\<lparr>payload := brk h\<rparr>)\<rparr>)"
  using assms heap_ok_brk [OF assms(2)]
  by (simp add: set_payload_def malloc_bytes_def malloc_avail update_frame_def)

lemma conbee_init_frame_ok:
  assumes "0 < avail h" "heap_ok h"
  shows "conbee_init_frame h =
     Inr (brk h, h\<lparr>brk := Suc (brk h), avail := avail h - 1, frames := (frames h)(brk h \<mapsto>
            \<lparr>command = 0, sequence_number = 0, status = 0, frame_length = 0, payload_length = 0,
             payload = NULL\<rparr>)\<rparr>)"
  using assms heap_ok_brk [OF assms(2)] by (simp add: conbee_init_frame_def malloc_avail)

lemma heap_ok_after_init: "heap_ok h \<Longrightarrow>
   heap_ok (h\<lparr>brk := Suc (brk h), avail := n, frames := (frames h)(brk h \<mapsto> fr)\<rparr>)"
  by (rule heap_okI [of h]) (auto simp: live_def dest: heap_ok_brk split: if_splits)

text \<open>A request that has a payload: initialise, fill in the header, attach the payload.\<close>

lemma build_request_ok:
  assumes h: "2 \<le> avail h" "heap_ok h"
  shows "bindE (conbee_init_frame h) (\<lambda>(frame, h).
           bindE (update_frame h frame f) (\<lambda>h.
           bindE (set_payload h frame bs) (\<lambda>h. Inr (frame, h)))) =
         Inr (brk h, with_frame h (f \<lparr>command = 0, sequence_number = 0, status = 0, frame_length = 0,
                payload_length = 0, payload = NULL\<rparr>) bs)"
proof -
  let ?fr = "f \<lparr>command = 0, sequence_number = 0, status = 0, frame_length = 0,
                payload_length = 0, payload = NULL\<rparr>"
  let ?h1 = "h\<lparr>brk := Suc (brk h), avail := avail h - 1, frames := (frames h)(brk h \<mapsto> ?fr)\<rparr>"
  have "heap_ok ?h1" by (rule heap_ok_after_init [OF h(2)])
  then have "set_payload ?h1 (brk h) bs = Inr (with_frame h ?fr bs)"
    using h heap_ok_brk [OF h(2)] by (simp add: set_payload_ok with_frame_def)
  then show ?thesis
    using h heap_ok_brk [OF h(2)] by (simp add: conbee_init_frame_ok update_frame_def)
qed

text \<open>The header every request starts from.\<close>

definition request_frame :: "u8 \<Rightarrow> u16 \<Rightarrow> u16 \<Rightarrow> conbee_frame" where
  "request_frame cmd len plen =
     \<lparr>command = cmd, sequence_number = 0, status = 0, frame_length = len, payload_length = plen,
      payload = NULL\<rparr>"

lemma conbee_read_parameter_request_ok:
  "2 \<le> avail h \<Longrightarrow> heap_ok h \<Longrightarrow> conbee_read_parameter_request h p =
     Inr (brk h, with_frame h (request_frame COMMAND_READ_PARAMETER 8 1) [p])"
  by (simp add: conbee_read_parameter_request_def build_request_ok request_frame_def)

lemma conbee_device_status_request_ok:
  "2 \<le> avail h \<Longrightarrow> heap_ok h \<Longrightarrow> conbee_device_status_request h =
     Inr (brk h, with_frame h (request_frame COMMAND_DEVICE_STATE 8 3) [0, 0, 0])"
  by (simp add: conbee_device_status_request_def build_request_ok request_frame_def)

lemma conbee_device_network_join_create_request_ok:
  "2 \<le> avail h \<Longrightarrow> heap_ok h \<Longrightarrow> conbee_device_network_join_create_request h =
     Inr (brk h, with_frame h (request_frame COMMAND_CHANGE_NETWORK_STATE 6 1) [NETWORK_CONNECTED])"
  by (simp add: conbee_device_network_join_create_request_def build_request_ok request_frame_def)

lemma conbee_device_network_leave_request_ok:
  "2 \<le> avail h \<Longrightarrow> heap_ok h \<Longrightarrow> conbee_device_network_leave_request h =
     Inr (brk h, with_frame h (request_frame COMMAND_CHANGE_NETWORK_STATE 6 1) [NETWORK_OFFLINE])"
  by (simp add: conbee_device_network_leave_request_def build_request_ok request_frame_def)

lemma conbee_device_get_aps_data_request_ok:
  "2 \<le> avail h \<Longrightarrow> heap_ok h \<Longrightarrow> conbee_device_get_aps_data_request h =
     Inr (brk h, with_frame h (request_frame COMMAND_APS_DATA_INDICATION 8 1) [0x07])"
  by (simp add: conbee_device_get_aps_data_request_def build_request_ok request_frame_def)

lemma conbee_write_parameter_request_ok:
  assumes "2 \<le> avail h" "heap_ok h" "unat n \<le> length val"
  shows "conbee_write_parameter_request h p val n =
     Inr (brk h, with_frame h (request_frame COMMAND_WRITE_PARAMETER (8 + ucast n) (1 + ucast n))
                   (p # take (unat n) val))"
  using assms by (simp add: conbee_write_parameter_request_def buf_read_ok build_request_ok request_frame_def)

lemma conbee_read_firmware_request_ok:
  "0 < avail h \<Longrightarrow> heap_ok h \<Longrightarrow> conbee_read_firmware_request h =
     Inr (brk h, h\<lparr>brk := Suc (brk h), avail := avail h - 1,
                   frames := (frames h)(brk h \<mapsto> request_frame COMMAND_VERSION 5 0)\<rparr>)"
  using heap_ok_brk [of h]
  by (simp add: conbee_read_firmware_request_def conbee_init_frame_ok update_frame_def request_frame_def)

text \<open>Freeing a frame gives both of its blocks back.\<close>

definition without_frame :: "heap \<Rightarrow> addr \<Rightarrow> addr \<Rightarrow> heap" where
  "without_frame h a p =
     h\<lparr>frames := (frames h)(a := None),
       blocks := (if p = NULL then blocks h else (blocks h)(p := None)),
       avail := avail h + (if p = NULL then 1 else 2)\<rparr>"

lemma conbee_free_frame_ok:
  "frame_is h a fr bs \<Longrightarrow> conbee_free_frame h a = Inr (without_frame h a (payload fr))"
  by (auto simp: frame_is_def conbee_free_frame_def update_frame_def free_bytes_def
      free_frame_block_def without_frame_def split: if_splits)

lemma without_frame_ok: "heap_ok h \<Longrightarrow> heap_ok (without_frame h a p)"
  by (rule heap_okI [of h]) (auto simp: without_frame_def live_def split: if_splits)

lemma without_frame_simps [simp]:
  "items (without_frame h a p) = items h" "brk (without_frame h a p) = brk h"
  "min_chunk (without_frame h a p) = min_chunk h"
  "frames (without_frame h a p) = (frames h)(a := None)"
  "avail (without_frame h a p) = avail h + (if p = NULL then 1 else 2)"
  by (simp_all add: without_frame_def)

lemma without_with_frame:
  "heap_ok h \<Longrightarrow> 2 \<le> avail h \<Longrightarrow>
   without_frame (with_frame h fr bs) (brk h) (Suc (brk h)) = h\<lparr>brk := Suc (Suc (brk h))\<rparr>"
  using heap_ok_fresh [of h "brk h"] heap_ok_fresh [of h "Suc (brk h)"]
  by (simp add: without_frame_def with_frame_def fun_upd_idem)

subsection \<open>Reading responses\<close>

lemma status_is_ok: "frame_is h a fr bs \<Longrightarrow> status_is st h a = Inr (if status fr = st then 1 else 0)"
  by (simp add: status_is_def frame_is_def)

lemma word64_diff3:
  "n < 65536 \<Longrightarrow> k < 65536 \<Longrightarrow> (word_of_nat n - 3 :: u64) = word_of_nat k \<longleftrightarrow> n = k + 3"
proof -
  assume "n < 65536" "k < 65536"
  then have "(word_of_nat n :: u64) = word_of_nat (k + 3) \<longleftrightarrow> n = k + 3"
    by (simp add: word_of_nat_eq_iff take_bit_nat_eq_self del: of_nat_add)
  then show ?thesis by (simp add: diff_eq_eq)
qed

lemma payload_size_check:
  "k < 65536 \<Longrightarrow> (word_of_nat (unat (pl :: u16)) - 3 :: u64) = word_of_nat k \<longleftrightarrow> unat pl = k + 3"
  by (rule word64_diff3 [OF unat_lt16])

lemma read_parameter_response_ok:
  assumes "frame_is h a fr (x # y # z # bs)" "unat (payload_length fr) = length bs + 3"
  shows "read_parameter_response (length bs) h a d = Inr (0, le_word bs)"
proof -
  have "length bs < 65536" using assms(2) unat_lt16 [of "payload_length fr"] by simp
  moreover have "read_bytes h (payload fr) 3 (length bs) = Inr bs"
    using assms(1) by (simp add: frame_is_def read_bytes_ok split: if_splits)
  ultimately show ?thesis
    using assms by (simp add: read_parameter_response_def frame_is_def payload_size_check del: of_nat_unat)
qed

lemma read_parameter_response_wrong_size:
  assumes "frame_is h a fr bs" "unat (payload_length fr) \<noteq> n + 3" "n < 65536"
  shows "read_parameter_response n h a d = Inr (-1, d)"
  using assms
  by (simp add: read_parameter_response_def frame_is_def payload_size_check del: of_nat_unat)

lemma ntohl_le_word: "length bs = 4 \<Longrightarrow> le_bytes 4 (ntohl (le_word bs)) = rev bs"
  using le_bytes_le_word [where 'a = 32, of bs] le_bytes_le_word [where 'a = 32, of "rev bs"]
  by (simp add: ntohl_def)

subsection \<open>Properties\<close>

text \<open>
  \<open>conbee_get_version\<close> refuses a frame only if its command is not the version command and its status
  is not success and its length is not 9, all three at once. Any other frame with four payload bytes
  is taken for a version, decoded with its last byte first.
\<close>

lemma get_version_result:
  assumes "frame_is h a fr bs" "4 \<le> length bs"
  shows "conbee_get_version h a v =
     (if command fr \<noteq> COMMAND_VERSION \<and> status fr \<noteq> STATUS_SUCCESS \<and> frame_length fr \<noteq> 9 then Inr (-1, v)
      else Inr (0, \<lparr>major = bs ! 3, minor = bs ! 2, platform = bs ! 1, reserved = bs ! 0\<rparr>))"
proof -
  have "payload fr \<noteq> NULL \<and> blocks h (payload fr) = Some bs"
    using assms by (auto simp: frame_is_def split: if_splits)
  then have "read_bytes h (payload fr) 0 4 = Inr (take 4 bs)"
    using assms(2) by (simp add: read_bytes_ok)
  moreover have "version_of_bytes (rev (take 4 bs)) =
      \<lparr>major = bs ! 3, minor = bs ! 2, platform = bs ! 1, reserved = bs ! 0\<rparr>"
    using assms(2) by (simp add: version_of_bytes_def rev_nth)
  ultimately show ?thesis
    using assms by (simp add: conbee_get_version_def frame_is_def ntohl_le_word)
qed

text \<open>
  The state byte is taken from the second payload byte of a device state response, the first of a
  state change and the fourth of an APS indication; its six bits are split over the five fields
  without loss, and a frame with any other command is refused with -1.
\<close>

lemma device_state_response_result:
  assumes "frame_is h a fr bs" "4 \<le> length bs"
    and "pos = (if command fr = 0x07 then 1 else if command fr = 0x0E then 0 else 3)"
  shows "(if command fr \<in> {0x07, 0x0E, 0x17}
          then \<exists>st'. conbee_device_state_response h a st = Inr (0, st') \<and>
             network_state st' OR apsde_data_confirm st' OR apsde_data_indication st' OR
             configuration_changed st' OR apsde_data_request_free_slots st' = bs ! pos AND 0x3F \<and>
             network_state st' \<le> 3
          else conbee_device_state_response h a st = Inr (-1, st))"
proof -
  have "payload fr \<noteq> NULL \<and> blocks h (payload fr) = Some bs"
    using assms(1,2) by (auto simp: frame_is_def split: if_splits)
  then have rd: "i < 4 \<Longrightarrow> bindE (read_bytes h (payload fr) i (Suc 0)) f = f [bs ! i]" for i and f :: "u8 list \<Rightarrow> ub + int \<times> conbee_device_state"
    using assms(2) by (simp add: read_bytes_ok take_one_drop)
  have split: "(x AND 3) OR (x AND 4) OR (x AND 8) OR (x AND 16) OR (x AND 32) = x AND 63" for x :: u8
    by (simp flip: bit.conj_disj_distrib)
  have low: "x AND 3 \<le> 3" for x :: u8
    by (rule word_and_le1)
  show ?thesis
    using assms(1,3) by (auto simp: conbee_device_state_response_def frame_is_def conbee_const rd split low Let_def)
qed

text \<open>
  Building a request and freeing it leaves the heap as it was, up to the addresses handed out:
  neither block leaks.
\<close>

lemma request_then_free_leaks_nothing:
  assumes "2 \<le> avail h" "heap_ok h" "unat n \<le> length val"
  shows "bindE (conbee_write_parameter_request h p val n) (\<lambda>(frame, h). conbee_free_frame h frame) =
     Inr (h\<lparr>brk := Suc (Suc (brk h))\<rparr>)"
  using conbee_free_frame_ok [OF with_frame_is [OF assms(2)]] assms
  by (simp add: conbee_write_parameter_request_ok without_with_frame)

end
