(* ===== verification/Device.thy ===== *)
theory Device
  imports Queue Slip
begin

text \<open>
  The device handle \<open>struct conbee_device\<close>, the part of the operating system it uses (the tty, the
  pipe, the open file descriptors) and the functions of \<open>src/conbee.c\<close> that connect it and move single
  bytes. The two byte functions are interpretations of the line that \<open>Slip\<close> asks for.
\<close>

subsection \<open>State\<close>

definition TTY_DISCONNECTED :: u8 where [conbee_const]: "TTY_DISCONNECTED = 0x00"
definition TTY_CONNECTED :: u8 where [conbee_const]: "TTY_CONNECTED = 0x01"

text \<open>
  \<open>struct conbee_device\<close>. The mutexes, the condition variable and the thread handle have no data of
  their own; the two function pointers always hold \<open>conbee_write_byte\<close> and \<open>conbee_read_byte\<close>. The
  field \<open>sequence_number\<close> of the device is \<open>next_sequence\<close> here.
\<close>

record conbee_device =
  tty :: "u8 list"
  fd :: int
  tty_status :: u8
  send_queue :: conbee_queue_root
  receive_queue :: conbee_queue_root
  pipe_send_queue :: "int \<times> int"
  worker_running :: u8
  worker_stop :: u8
  next_sequence :: u8

text \<open>What the next \<open>read\<close> of one byte from the tty does: deliver it, report end of file, or fail.\<close>

datatype read_event = Data u8 | Eof | IoErr

text \<open>
  The process and its surroundings: heap, device, the reads the tty will answer (no more reads
  left: the next one blocks), the bytes written to it, the outcomes of the next writes (\<open>True\<close> for
  a failure; beyond the list they succeed), the bytes in the pipe, the open descriptors, and
  whether the worker thread has been created.
\<close>

record world =
  mem :: heap
  dev :: conbee_device
  tty_in :: "read_event list"
  tty_out :: "u8 list"
  write_faults :: "bool list"
  pipe_data :: "u8 list"
  open_fds :: "int set"
  worker_created :: bool

definition sys_write :: "world \<Rightarrow> u8 \<Rightarrow> int \<times> world" where
  "sys_write w c =
     (case write_faults w of
        [] \<Rightarrow> (1, w\<lparr>tty_out := tty_out w @ [c]\<rparr>)
      | fault # faults \<Rightarrow>
          if fault then (-1, w\<lparr>write_faults := faults\<rparr>)
          else (1, w\<lparr>tty_out := tty_out w @ [c], write_faults := faults\<rparr>))"

definition sys_read :: "world \<Rightarrow> u8 \<Rightarrow> (int \<times> u8 \<times> world) option" where
  "sys_read w c =
     (case tty_in w of
        [] \<Rightarrow> None
      | Data b # es \<Rightarrow> Some (1, b, w\<lparr>tty_in := es\<rparr>)
      | Eof # es \<Rightarrow> Some (0, c, w\<lparr>tty_in := es\<rparr>)
      | IoErr # es \<Rightarrow> Some (-1, c, w\<lparr>tty_in := es\<rparr>))"

subsection \<open>Single bytes\<close>

definition conbee_write_byte :: "world \<Rightarrow> u8 \<Rightarrow> int \<times> world" where
  "conbee_write_byte w c =
     (if tty_status (dev w) = TTY_DISCONNECTED then (-2, w)
      else (let (err, w) = sys_write w c in if err < 0 then (-1, w) else (0, w)))"

text \<open>The second component is \<open>*c\<close> after the call.\<close>

definition conbee_read_byte :: "world \<Rightarrow> u8 \<Rightarrow> (int \<times> u8 \<times> world) option" where
  "conbee_read_byte w c =
     (if tty_status (dev w) = TTY_DISCONNECTED then Some (-2, c, w)
      else Option.bind (sys_read w c) (\<lambda>(err, c, w). if err < 0 then Some (-1, c, w) else Some (0, c, w)))"

definition connected :: "world \<Rightarrow> bool" where
  "connected w \<longleftrightarrow> tty_status (dev w) \<noteq> TTY_DISCONNECTED"

definition sends_ok :: "world \<Rightarrow> bool" where
  "sends_ok w \<longleftrightarrow> connected w \<and> write_faults w = []"

definition tty_emit :: "world \<Rightarrow> u8 list \<Rightarrow> world" where
  "tty_emit w bs = w\<lparr>tty_out := tty_out w @ bs\<rparr>"

definition tty_feed :: "u8 list \<Rightarrow> world \<Rightarrow> world" where
  "tty_feed bs w = w\<lparr>tty_in := map Data bs @ tty_in w\<rparr>"

lemma connected_upd [simp]:
  "connected (w\<lparr>tty_in := a\<rparr>) = connected w" "connected (w\<lparr>tty_out := b\<rparr>) = connected w"
  "connected (w\<lparr>mem := h\<rparr>) = connected w" "connected (w\<lparr>pipe_data := p\<rparr>) = connected w"
  "connected (tty_emit w bs) = connected w" "connected (tty_feed bs w) = connected w"
  by (simp_all add: connected_def tty_emit_def tty_feed_def)

lemma sends_ok_upd [simp]:
  "sends_ok (w\<lparr>tty_in := a\<rparr>) = sends_ok w" "sends_ok (w\<lparr>tty_out := b\<rparr>) = sends_ok w"
  "sends_ok (w\<lparr>mem := h\<rparr>) = sends_ok w" "sends_ok (w\<lparr>pipe_data := p\<rparr>) = sends_ok w"
  "sends_ok (tty_emit w bs) = sends_ok w" "sends_ok (tty_feed bs w) = sends_ok w"
  by (simp_all add: sends_ok_def tty_emit_def tty_feed_def)

interpretation line: slip_channel conbee_write_byte tty_emit sends_ok conbee_read_byte tty_feed connected
proof
  fix w b assume "sends_ok w"
  then show "conbee_write_byte w b = (0, tty_emit w [b])"
    by (simp add: conbee_write_byte_def sends_ok_def connected_def sys_write_def tty_emit_def)
next
  fix w b bs c assume "connected w"
  then show "conbee_read_byte (tty_feed (b # bs) w) c = Some (0, b, tty_feed bs w)"
    by (simp add: conbee_read_byte_def connected_def sys_read_def tty_feed_def)
qed (simp_all add: tty_emit_def)

text \<open>A connected device on a heap with room for \<open>n\<close> blocks, nothing going on.\<close>

definition idle_world :: "nat \<Rightarrow> world" where
  "idle_world n =
     \<lparr>mem = init_heap n 24,
      dev = \<lparr>tty = [], fd = 3, tty_status = TTY_CONNECTED, send_queue = conbee_queue_init,
             receive_queue = conbee_queue_init, pipe_send_queue = (4, 5), worker_running = 1,
             worker_stop = 0, next_sequence = 0\<rparr>,
      tty_in = [], tty_out = [], write_faults = [], pipe_data = [], open_fds = {3, 4, 5},
      worker_created = True\<rparr>"

lemma idle_world_simps [simp]:
  "connected (idle_world n)" "sends_ok (idle_world n)" "mem (idle_world n) = init_heap n 24"
  "tty_in (idle_world n) = []" "tty_out (idle_world n) = []"
  by (simp_all add: idle_world_def connected_def sends_ok_def conbee_const)

text \<open>A world with one blank frame at address 1, to receive into.\<close>

definition receiving_world :: "nat \<Rightarrow> world" where
  "receiving_world n = (idle_world n)\<lparr>mem := (init_heap n 24)\<lparr>brk := 2,
     frames := [1 \<mapsto> \<lparr>command = 0, sequence_number = 0, status = 0, frame_length = 0, payload_length = 0,
                    payload = NULL\<rparr>]\<rparr>\<rparr>"

lemma receiving_world_simps [simp]:
  "connected (receiving_world n)" "sends_ok (receiving_world n)" "heap_ok (mem (receiving_world n))"
  "avail (mem (receiving_world n)) = n" "brk (mem (receiving_world n)) = 2"
  "frames (mem (receiving_world n)) (Suc 0) =
     Some \<lparr>command = 0, sequence_number = 0, status = 0, frame_length = 0, payload_length = 0, payload = NULL\<rparr>"
  by (simp_all add: receiving_world_def heap_ok_def live_def init_heap_def)

text \<open>A packet whose end has not arrived keeps the receiver waiting.\<close>

lemma slip_receive_unfinished:
  assumes "connected w" "END \<notin> set bs" "unat len \<le> length buffer"
  shows "slip_receive_loop conbee_read_byte (w\<lparr>tty_in := map Data bs\<rparr>) c buffer len received = None"
  using assms(2,3)
proof (induction bs arbitrary: c buffer received rule: length_induct)
  case (1 bs)
  have read: "conbee_read_byte (w\<lparr>tty_in := map Data (b # xs)\<rparr>) c = Some (0, b, w\<lparr>tty_in := map Data xs\<rparr>)" for b xs c
    using assms(1) by (simp add: conbee_read_byte_def connected_def sys_read_def)
  have blocks: "conbee_read_byte (w\<lparr>tty_in := map Data []\<rparr>) c = None" for c
    using assms(1) by (simp add: conbee_read_byte_def connected_def sys_read_def)
  have step: "(case slip_store buffer len received b of Inl e \<Rightarrow> Some (Inl e)
        | Inr (buffer, received) \<Rightarrow>
            slip_receive_loop conbee_read_byte (w\<lparr>tty_in := map Data xs\<rparr>) b buffer len received) = None"
    if "length xs < length bs" "END \<notin> set xs" for xs b
    using slip_store_room [OF 1(3), of received b] 1(1,3) that by fastforce
  show ?case
  proof (cases bs)
    case Nil
    then show ?thesis using blocks by (subst slip_receive_loop.simps) simp
  next
    case (Cons b xs)
    then have b: "b \<noteq> END" "END \<notin> set xs" using 1(2) by auto
    show ?thesis
    proof (cases "b = ESC")
      case True
      show ?thesis
      proof (cases xs)
        case Nil
        then show ?thesis using Cons True read [of ESC "[]"] blocks by (subst slip_receive_loop.simps) simp
      next
        case (Cons x ys)
        then show ?thesis
          using \<open>bs = b # xs\<close> True b step [of ys "slip_unescape x"] read [of ESC "x # ys"] read [of x ys]
          by (subst slip_receive_loop.simps) simp
      qed
    next
      case False
      then show ?thesis using Cons b step [of xs b] read by (subst slip_receive_loop.simps) simp
    qed
  qed
qed

subsection \<open>Properties of the framed line\<close>

text \<open>
  C12: a packet that \<open>slip_transmit_packet\<close> writes to a working tty is read back whole by
  \<open>slip_receive_packet\<close> on the device at the other end, whatever bytes it contains and whatever
  follows on the line, as long as it is not empty and fits the buffer.
\<close>

theorem slip_line_roundtrip:
  assumes "sends_ok w" "connected v"
    and "0 < unat n" "unat n \<le> length packet"
    and "unat n \<le> unat len" "unat len \<le> length buffer" "unat len < 2147483648"
  shows "\<exists>wire. slip_transmit_packet conbee_write_byte w packet n = Inr (0, tty_emit w wire) \<and>
           slip_receive_packet conbee_read_byte (tty_feed (wire @ rest) v) buffer len =
           Some (Inr (int (unat n), take (unat n) packet @ drop (unat n) buffer, tty_feed rest v))"
  using assms by (rule line.slip_transfer)

theorem slip_line_roundtrip_witness:
  "\<exists>wire. slip_transmit_packet conbee_write_byte (idle_world 0) [0xC0, 0xDB, 5] 3 = Inr (0, tty_emit (idle_world 0) wire) \<and>
     slip_receive_packet conbee_read_byte (tty_feed (wire @ [0xC0]) (idle_world 1)) [9, 9, 9, 9] 4 =
     Some (Inr (int (unat (3 :: u32)), take (unat (3 :: u32)) [0xC0, 0xDB, 5] @ drop (unat (3 :: u32)) [9, 9, 9, 9],
       tty_feed [0xC0] (idle_world 1)))"
  by (rule slip_line_roundtrip) simp_all

text \<open>
  A packet longer than the receive buffer is cut, silently: the routine returns the buffer size,
  the buffer holds the packet's first bytes and nothing is written outside it.
\<close>

lemma slip_receive_truncates:
  assumes "connected w" "0 < unat len" "unat len < 2147483648" "unat len \<le> length buffer"
    and "unat len \<le> length packet"
  shows "slip_receive_packet conbee_read_byte (tty_feed (slip_encode packet @ rest) w) buffer len =
         Some (Inr (int (unat len), take (unat len) packet @ drop (unat len) buffer, tty_feed rest w))"
proof -
  have "packet \<noteq> []" using assms by auto
  then show ?thesis
    using line.slip_receive_packet_decodes [OF assms(1,4,2,3)] assms(5)
    by (simp add: stored_from_0 min_absorb1)
qed

text \<open>
  A failed or empty read is never noticed: to the receiver it is the last byte read once more.
\<close>

lemma slip_failed_read_repeats_byte:
  assumes "connected w" "e \<in> {Eof, IoErr}"
  shows "slip_receive_loop conbee_read_byte (w\<lparr>tty_in := e # es\<rparr>) c buffer len received =
         slip_receive_loop conbee_read_byte (w\<lparr>tty_in := Data c # es\<rparr>) c buffer len received"
proof (rule slip_receive_ignores_code)
  show "conbee_read_byte (w\<lparr>tty_in := e # es\<rparr>) c = Some (if e = Eof then 0 else -1, c, w\<lparr>tty_in := es\<rparr>)"
    using assms by (auto simp: conbee_read_byte_def connected_def sys_read_def)
  show "conbee_read_byte (w\<lparr>tty_in := Data c # es\<rparr>) c = Some (0, c, w\<lparr>tty_in := es\<rparr>)"
    using assms by (auto simp: conbee_read_byte_def connected_def sys_read_def)
qed

text \<open>
  On a disconnected device every read fails at once, and as the receiver does not notice it,
  \<open>slip_receive_packet\<close> never returns.
\<close>

lemma slip_receive_disconnected_hangs:
  assumes "\<not> connected w" "unat len \<le> length buffer"
  shows "slip_receive_packet conbee_read_byte w buffer len = None"
  unfolding slip_receive_packet_def
proof (rule slip_receive_dead_source [where dead = "\<lambda>w. \<not> connected w"])
  fix d c assume "\<not> connected d"
  then show "\<exists>r d'. conbee_read_byte d c = Some (r, c, d') \<and> \<not> connected d'"
    by (simp add: conbee_read_byte_def connected_def)
qed (use assms in \<open>simp_all add: conbee_const\<close>)

end
