(* ===== verification/Frame_IO.thy ===== *)
theory Frame_IO
  imports Device Frame Crc16
begin

text \<open>
  \<open>conbee_write_frame\<close> and \<open>conbee_read_frame\<close> of \<open>src/conbee.c\<close>: a frame laid out in a stack buffer,
  checksummed and sent as one SLIP packet, and back. The stack buffers are not initialised by the
  code, so what they hold on entry is an argument (\<open>stack\<close>).
\<close>

subsection \<open>The code\<close>

definition conbee_write_frame :: "u8 list \<Rightarrow> world \<Rightarrow> addr \<Rightarrow> ub + int \<times> world" where
  "conbee_write_frame stack w frame =
     (if tty_status (dev w) = TTY_DISCONNECTED then Inr (-2, w)
      else bindE (update_frame (mem w) frame (\<lambda>f. f\<lparr>status := 0\<rparr>)) (\<lambda>h.
           bindE (deref (frames h) frame) (\<lambda>fr.
           bindE (buf_write stack 0 [command fr, sequence_number fr, status fr]) (\<lambda>buffer.
           bindE (buf_write buffer 3 (le_bytes 2 (frame_length fr))) (\<lambda>buffer.
           bindE (if payload_length fr > 0
                  then bindE (buf_write buffer 5 (le_bytes 2 (payload_length fr))) (\<lambda>buffer.
                       bindE (read_bytes h (payload fr) 0 (unat (payload_length fr))) (\<lambda>bs.
                       buf_write buffer 7 bs))
                  else Inr buffer) (\<lambda>buffer.
           bindE (crc16 buffer (ucast (frame_length fr))) (\<lambda>crc.
           bindE (buf_write buffer (unat (frame_length fr)) (le_bytes 2 crc)) (\<lambda>buffer.
           bindE (slip_transmit_packet conbee_write_byte (w\<lparr>mem := h\<rparr>) buffer (ucast (frame_length fr) + 2))
             (\<lambda>(err, w). Inr (0, w))))))))))"

text \<open>
  The part of \<open>conbee_read_frame\<close> after the packet has been received; \<open>err\<close> is its length. The
  length given to \<open>crc16\<close> is \<open>err - sizeof(crc)\<close>, computed as \<open>size_t\<close> and cut to 32 bits; the payload
  length is cut to 16. First the copy of a checked packet into the frame, then the check.
\<close>

definition conbee_fill_frame :: "int \<Rightarrow> u8 list \<Rightarrow> world \<Rightarrow> addr \<Rightarrow> ub + int \<times> world" where
  "conbee_fill_frame err buffer w frame =
     bindE (buf_read buffer 0 5) (\<lambda>hdr.
     bindE (update_frame (mem w) frame (\<lambda>f. f\<lparr>command := hdr ! 0, sequence_number := hdr ! 1,
              status := hdr ! 2, frame_length := le_word (drop 3 hdr)\<rparr>)) (\<lambda>h.
     if err > 5
     then let plen = word_of_int (err - 5 - 2) :: u16
          in bindE (update_frame h frame (\<lambda>f. f\<lparr>payload_length := plen\<rparr>)) (\<lambda>h.
             bindE (buf_read buffer 5 (unat plen)) (\<lambda>bs.
             bindE (set_payload h frame bs) (\<lambda>h.
             Inr (err, w\<lparr>mem := h\<rparr>))))
     else Inr (err, w\<lparr>mem := h\<rparr>)))"

definition conbee_parse_packet :: "int \<Rightarrow> u8 list \<Rightarrow> world \<Rightarrow> addr \<Rightarrow> ub + int \<times> world" where
  "conbee_parse_packet err buffer w frame =
     (if err > 0
      then bindE (crc16 buffer (word_of_int (err - 2))) (\<lambda>crc.
           bindE (if err < 2 then Inl OutOfBounds else buf_read buffer (nat (err - 2)) 2) (\<lambda>crc2.
           if crc \<noteq> le_word crc2 then Inr (-2, w)
           else conbee_fill_frame err buffer w frame))
      else Inr (err, w))"

definition conbee_read_frame :: "u8 list \<Rightarrow> world \<Rightarrow> addr \<Rightarrow> (ub + int \<times> world) option" where
  "conbee_read_frame stack w frame =
     (if tty_status (dev w) = TTY_DISCONNECTED then Some (Inr (-2, w))
      else map_option (\<lambda>r. bindE r (\<lambda>(err, buffer, w). conbee_parse_packet err buffer w frame))
             (slip_receive_packet conbee_read_byte w stack 1500))"

subsection \<open>What goes over the line\<close>

text \<open>The bytes of a frame as the code lays them out, and a packet: those bytes and their checksum.\<close>

definition frame_bytes :: "conbee_frame \<Rightarrow> u8 list \<Rightarrow> u8 list" where
  "frame_bytes fr bs =
     [command fr, sequence_number fr, 0] @ le_bytes 2 (frame_length fr) @
     (if payload_length fr = 0 then [] else le_bytes 2 (payload_length fr) @ bs)"

definition packet_of :: "u8 list \<Rightarrow> u8 list" where
  "packet_of bs = bs @ le_bytes 2 (checksum bs)"

lemma length_packet_of [simp]: "length (packet_of bs) = length bs + 2"
  by (simp add: packet_of_def)

lemma packet_of_not_Nil [simp]: "packet_of bs \<noteq> []"
  using length_packet_of [of bs] by fastforce

text \<open>
  What \<open>conbee_write_frame\<close> sends: as many bytes as the frame's \<open>length\<close> field says, from the buffer
  that has the frame's bytes in front and whatever the stack held behind.
\<close>

definition sent_bytes :: "u8 list \<Rightarrow> conbee_frame \<Rightarrow> u8 list \<Rightarrow> u8 list" where
  "sent_bytes stack fr bs =
     take (unat (frame_length fr)) (frame_bytes fr bs @ drop (length (frame_bytes fr bs)) stack)"

lemma fill_buffer:
  assumes "length stack = 1000" "length bs \<le> 993"
  shows "bindE (buf_write stack 0 [command fr, sequence_number fr, 0]) (\<lambda>buffer.
         bindE (buf_write buffer 3 (le_bytes 2 (frame_length fr))) (\<lambda>buffer.
         bindE (if payload_length fr > 0
                then bindE (buf_write buffer 5 (le_bytes 2 (payload_length fr))) (\<lambda>buffer.
                     bindE (Inr bs) (\<lambda>bs. buf_write buffer 7 bs))
                else Inr buffer) f)) =
       f (frame_bytes fr bs @ drop (length (frame_bytes fr bs)) stack)"
proof -
  let ?hdr = "[command fr, sequence_number fr, 0]"
  let ?hdr5 = "?hdr @ le_bytes 2 (frame_length fr)"
  let ?hdr7 = "?hdr5 @ le_bytes 2 (payload_length fr)"
  have "buf_write stack 0 ?hdr = Inr (?hdr @ drop 3 stack)"
    using assms by (simp add: buf_write_first numeral_3_eq_3)
  moreover have "buf_write (?hdr @ drop 3 stack) 3 (le_bytes 2 (frame_length fr)) = Inr (?hdr5 @ drop 5 stack)"
    using assms buf_write_next [of 3 ?hdr "le_bytes 2 (frame_length fr)" stack] by simp
  moreover have "buf_write (?hdr5 @ drop 5 stack) 5 (le_bytes 2 (payload_length fr)) = Inr (?hdr7 @ drop 7 stack)"
    using assms buf_write_next [of 5 ?hdr5 "le_bytes 2 (payload_length fr)" stack] by simp
  moreover have "buf_write (?hdr7 @ drop 7 stack) 7 bs = Inr ((?hdr7 @ bs) @ drop (7 + length bs) stack)"
    using assms by (intro buf_write_next) simp_all
  ultimately show ?thesis
    by (simp only: bindE.simps split: if_split)
      (simp add: frame_bytes_def word_gt_0 add.commute numeral_eq_Suc)
qed

lemma read_payload:
  assumes "frame_is h a fr bs" "unat (payload_length fr) = length bs" "payload_length fr > 0"
    and "blocks h' = blocks h"
  shows "read_bytes h' (payload fr) 0 (unat (payload_length fr)) = Inr bs"
proof -
  have "bs \<noteq> []" using assms(2,3) by (auto simp: word_less_nat_alt)
  then show ?thesis
    using assms by (auto simp: frame_is_def read_bytes_ok split: if_splits)
qed

lemma conbee_write_frame_sends:
  assumes w: "sends_ok w" and stack: "length stack = 1000"
    and fr: "frame_is (mem w) a fr bs" "unat (payload_length fr) = length bs"
    and fits: "length bs \<le> 993" "unat (frame_length fr) \<le> 998"
  shows "conbee_write_frame stack w a =
     Inr (0, tty_emit (w\<lparr>mem := (mem w)\<lparr>frames := (frames (mem w))(a \<mapsto> fr\<lparr>status := 0\<rparr>)\<rparr>\<rparr>)
               (slip_encode (packet_of (sent_bytes stack fr bs))))"
proof -
  let ?fr = "fr\<lparr>status := 0\<rparr>"
  let ?h = "(mem w)\<lparr>frames := (frames (mem w))(a \<mapsto> ?fr)\<rparr>"
  let ?buf = "frame_bytes fr bs @ drop (length (frame_bytes fr bs)) stack"
  let ?n = "unat (frame_length fr)"
  let ?crc = "le_bytes 2 (checksum (take ?n ?buf))"
  have len: "length ?buf = 1000"
    using stack fits by (auto simp: frame_bytes_def)
  have upd: "update_frame (mem w) a (\<lambda>f. f\<lparr>status := 0\<rparr>) = Inr ?h" "a \<noteq> NULL"
    using fr(1) by (simp_all add: frame_is_def update_frame_def)
  have crc: "crc16 ?buf (ucast (frame_length fr)) = Inr (checksum (take ?n ?buf))"
    using len fits by (subst crc16_ok) simp_all
  have put: "buf_write ?buf ?n ?crc = Inr (take ?n ?buf @ ?crc @ drop (?n + 2) ?buf)"
    using len fits by (simp add: buf_write_ok)
  have "take (?n + 2) (take ?n ?buf @ ?crc @ drop (?n + 2) ?buf) = packet_of (sent_bytes stack fr bs)"
    using len fits by (simp add: packet_of_def sent_bytes_def)
  then have send: "slip_transmit_packet conbee_write_byte (w\<lparr>mem := ?h\<rparr>)
        (take ?n ?buf @ ?crc @ drop (?n + 2) ?buf) (ucast (frame_length fr) + 2) =
      Inr (0, tty_emit (w\<lparr>mem := ?h\<rparr>) (slip_encode (packet_of (sent_bytes stack fr bs))))"
    using w len fits
    by (subst line.slip_transmit_packet_emits) (simp_all add: unat_length_plus_2)
  have bs: "payload_length fr > 0 \<Longrightarrow> read_bytes ?h (payload fr) 0 (unat (payload_length fr)) = Inr bs"
    using read_payload [OF fr] by simp
  have "conbee_write_frame stack w a = bindE (crc16 ?buf (ucast (frame_length fr))) (\<lambda>crc.
           bindE (buf_write ?buf (unat (frame_length fr)) (le_bytes 2 crc)) (\<lambda>buffer.
           bindE (slip_transmit_packet conbee_write_byte (w\<lparr>mem := ?h\<rparr>) buffer (ucast (frame_length fr) + 2))
             (\<lambda>(err, w). Inr (0, w))))"
    using w fill_buffer [OF stack fits(1), of fr]
    by (simp add: conbee_write_frame_def sends_ok_def connected_def upd bs cong: if_cong)
  then show ?thesis
    by (simp only: crc put send bindE.simps prod.case)
qed

subsection \<open>What is made of a packet\<close>

lemma conbee_read_frame_packet:
  assumes "connected w" "pkt \<noteq> []" "length pkt \<le> 1500" "length stack = 1500"
  shows "conbee_read_frame stack (tty_feed (slip_encode pkt @ rest) w) a =
         Some (conbee_parse_packet (int (length pkt)) (pkt @ drop (length pkt) stack) (tty_feed rest w) a)"
proof -
  have "slip_receive_packet conbee_read_byte (tty_feed (slip_encode pkt @ rest) w) stack 1500 =
        Some (Inr (int (length pkt), pkt @ drop (length pkt) stack, tty_feed rest w))"
    using assms line.slip_receive_packet_decodes [of w 1500 stack pkt rest]
    by (simp add: stored_from_0 min_absorb2)
  moreover have "tty_status (dev (tty_feed (slip_encode pkt @ rest) w)) \<noteq> TTY_DISCONNECTED"
    using assms(1) by (simp add: connected_def tty_feed_def)
  ultimately show ?thesis by (simp add: conbee_read_frame_def)
qed

text \<open>The checksum test, for a packet of at least two bytes.\<close>

lemma conbee_parse_packet_crc:
  assumes "2 \<le> length pkt" "length pkt \<le> 1500"
  shows "conbee_parse_packet (int (length pkt)) (pkt @ rest) w a =
         (if le_word (drop (length pkt - 2) pkt) \<noteq> checksum (take (length pkt - 2) pkt) then Inr (-2, w)
          else conbee_fill_frame (int (length pkt)) (pkt @ rest) w a)"
proof -
  obtain k where k: "length pkt = k + 2" using assms(1) by (metis add.commute le_Suc_ex)
  have n: "int (length pkt) - 2 = int k" "length pkt - 2 = k" "nat (int k) = k"
    "0 < int (length pkt)" "\<not> int (length pkt) < 2"
    using k by simp_all
  have "crc16 (pkt @ rest) (word_of_int (int k)) = Inr (checksum (take k pkt))"
    using assms(2) k by (simp add: crc16_ok unat_of_nat32)
  moreover have "buf_read (pkt @ rest) k 2 = Inr (drop k pkt)"
    using k by (simp add: buf_read_def)
  ultimately show ?thesis
    by (simp only: conbee_parse_packet_def n bindE.simps if_True if_False) auto
qed

lemma conbee_parse_packet_bad_crc:
  assumes "2 \<le> length pkt" "length pkt \<le> 1500"
    and "le_word (drop (length pkt - 2) pkt) \<noteq> checksum (take (length pkt - 2) pkt)"
  shows "conbee_parse_packet (int (length pkt)) (pkt @ rest) w a = Inr (-2, w)"
  using assms by (simp add: conbee_parse_packet_crc)

text \<open>The frame a packet with at least a complete header is made into, and the heap that holds it.\<close>

definition parsed_frame :: "addr \<Rightarrow> u8 list \<Rightarrow> conbee_frame" where
  "parsed_frame p body =
     \<lparr>command = body ! 0, sequence_number = body ! 1, status = body ! 2,
      frame_length = le_word (take 2 (drop 3 body)),
      payload_length = word_of_nat (length body - 5), payload = p\<rparr>"

definition parsed_heap :: "heap \<Rightarrow> addr \<Rightarrow> u8 list \<Rightarrow> heap" where
  "parsed_heap h a body =
     h\<lparr>brk := Suc (brk h), avail := avail h - 1, blocks := (blocks h)(brk h \<mapsto> drop 5 body),
       frames := (frames h)(a \<mapsto> parsed_frame (brk h) body)\<rparr>"

lemma conbee_parse_packet_ok:
  assumes body: "5 \<le> length body" "length body \<le> 1498"
    and h: "0 < avail (mem w)" "heap_ok (mem w)" "frames (mem w) a = Some fr"
  shows "conbee_parse_packet (int (length body + 2)) (packet_of body @ rest) w a =
         Inr (int (length body + 2), w\<lparr>mem := parsed_heap (mem w) a body\<rparr>)"
proof -
  have a: "a \<noteq> NULL" "a < brk (mem w)" using heap_ok_live(1) [OF h(2,3)] by simp_all
  have len: "int (length body + 2) - 5 - 2 = int (length body - 5)" "int (length body + 2) > 5"
    using body(1) by simp_all
  have hdr: "buf_read (packet_of body @ rest) 0 5 = Inr (take 5 body)"
    using body by (simp add: buf_read_def packet_of_def)
  have rd: "buf_read (packet_of body @ rest) 5 (length body - 5) = Inr (drop 5 body)"
    using body by (simp add: buf_read_def packet_of_def)
  have plen: "unat (word_of_int (int (length body - 5)) :: u16) = length body - 5"
    unfolding of_int_of_nat_eq by (rule unat_of_nat16) (use body in simp)
  have "heap_ok ((mem w)\<lparr>frames := (frames (mem w))(a \<mapsto> f)\<rparr>)" for f
    using h(2) a by (auto simp: heap_ok_def live_def)
  then have pay: "set_payload ((mem w)\<lparr>frames := (frames (mem w))(a \<mapsto> f)\<rparr>) a bs =
      Inr ((mem w)\<lparr>brk := Suc (brk (mem w)), avail := avail (mem w) - 1,
             blocks := (blocks (mem w))(brk (mem w) \<mapsto> bs),
             frames := (frames (mem w))(a \<mapsto> f\<lparr>payload := brk (mem w)\<rparr>)\<rparr>)" for f bs
    using h a by (simp add: set_payload_ok)
  have "conbee_parse_packet (int (length body + 2)) (packet_of body @ rest) w a =
      conbee_fill_frame (int (length body + 2)) (packet_of body @ rest) w a"
    using conbee_parse_packet_crc [of "packet_of body" rest w a] body by (simp add: packet_of_def)
  also have "\<dots> = Inr (int (length body + 2), w\<lparr>mem := parsed_heap (mem w) a body\<rparr>)"
    using a h(3) body
    by (simp only: conbee_fill_frame_def len plen Let_def hdr rd bindE.simps if_True)
      (cases fr, simp add: update_frame_def pay parsed_heap_def parsed_frame_def drop_take)
  finally show ?thesis .
qed

text \<open>Every packet length, checksum right or wrong: where the code leaves defined behaviour.\<close>

lemma conbee_parse_packet_single:
  "length buffer \<le> 1500 \<Longrightarrow> conbee_parse_packet 1 buffer w a = Inl OutOfBounds"
  by (simp add: conbee_parse_packet_def crc16_oob unsigned_minus_1_eq_mask mask_eq_exp_minus_1)

lemma conbee_fill_frame_short:
  assumes "length buffer = 1500" "a \<noteq> NULL" "frames (mem w) a = Some fr" "err \<le> 5"
  shows "conbee_fill_frame err buffer w a = Inr (err, w\<lparr>mem := (mem w)\<lparr>frames := (frames (mem w))(a \<mapsto>
           fr\<lparr>command := buffer ! 0, sequence_number := buffer ! 1, status := buffer ! 2,
              frame_length := le_word (take 2 (drop 3 buffer))\<rparr>)\<rparr>\<rparr>)"
  using assms by (simp add: conbee_fill_frame_def buf_read_def update_frame_def drop_take)

lemma conbee_fill_frame_six:
  assumes "length buffer = 1500" "a \<noteq> NULL" "frames (mem w) a = Some fr"
  shows "conbee_fill_frame 6 buffer w a = Inl OutOfBounds"
  using assms
  by (simp add: conbee_fill_frame_def buf_read_def update_frame_def Let_def
      unsigned_minus_1_eq_mask mask_eq_exp_minus_1)

lemma conbee_parse_packet_defined:
  assumes pkt: "2 \<le> length pkt" "length pkt \<noteq> 6" "length pkt + length rest = 1500"
    and h: "0 < avail (mem w)" "heap_ok (mem w)" "frames (mem w) a = Some fr"
  shows "\<exists>r. conbee_parse_packet (int (length pkt)) (pkt @ rest) w a = Inr r"
proof (cases "le_word (drop (length pkt - 2) pkt) = checksum (take (length pkt - 2) pkt)")
  case False
  then show ?thesis using conbee_parse_packet_bad_crc [of pkt rest w a] pkt by simp
next
  case True
  have a: "a \<noteq> NULL" using heap_ok_live(1) [OF h(2,3)] by simp
  show ?thesis
  proof (cases "length pkt \<le> 5")
    case short: True
    have "conbee_fill_frame (int (length pkt)) (pkt @ rest) w a = Inr
        (int (length pkt), w\<lparr>mem := (mem w)\<lparr>frames := (frames (mem w))(a \<mapsto>
           fr\<lparr>command := (pkt @ rest) ! 0, sequence_number := (pkt @ rest) ! 1, status := (pkt @ rest) ! 2,
              frame_length := le_word (take 2 (drop 3 (pkt @ rest)))\<rparr>)\<rparr>\<rparr>)"
      using conbee_fill_frame_short [of "pkt @ rest" a w fr] pkt short a h(3) by simp
    then show ?thesis using conbee_parse_packet_crc [of pkt rest w a] pkt True by simp
  next
    case False
    let ?body = "take (length pkt - 2) pkt"
    have "le_bytes 2 (checksum ?body) = drop (length pkt - 2) pkt"
      using True pkt le_bytes_le_word [where 'a = 16, of "drop (length pkt - 2) pkt"] by simp
    then have "packet_of ?body = pkt" by (simp add: packet_of_def)
    then show ?thesis
      using conbee_parse_packet_ok [of ?body w a fr rest] h pkt False by auto
  qed
qed

subsection \<open>The requests of the library\<close>

text \<open>The constructors of \<open>src/conbee.c\<close>, so that a statement can range over them.\<close>

datatype request =
    ReadFirmware
  | ReadParameter u8
  | WriteParameter u8 "u8 list"
  | DeviceStatus
  | NetworkJoin
  | NetworkLeave
  | GetApsData

fun build_request :: "request \<Rightarrow> heap \<Rightarrow> ub + addr \<times> heap" where
  "build_request ReadFirmware h = conbee_read_firmware_request h"
| "build_request (ReadParameter p) h = conbee_read_parameter_request h p"
| "build_request (WriteParameter p val) h = conbee_write_parameter_request h p val (word_of_nat (length val))"
| "build_request DeviceStatus h = conbee_device_status_request h"
| "build_request NetworkJoin h = conbee_device_network_join_create_request h"
| "build_request NetworkLeave h = conbee_device_network_leave_request h"
| "build_request GetApsData h = conbee_device_get_aps_data_request h"

fun request_fits :: "request \<Rightarrow> bool" where
  "request_fits (WriteParameter p val) \<longleftrightarrow> length val < 256"
| "request_fits _ \<longleftrightarrow> True"

text \<open>The bytes each of them puts on the line with sequence number \<open>s\<close>, ahead of the checksum.\<close>

fun request_body :: "request \<Rightarrow> u8 \<Rightarrow> u8 list" where
  "request_body ReadFirmware s = [0x0D, s, 0, 5, 0]"
| "request_body (ReadParameter p) s = [0x0A, s, 0, 8, 0, 1, 0, p]"
| "request_body (WriteParameter p val) s =
     [0x0B, s, 0] @ le_bytes 2 (word_of_nat (8 + length val) :: u16) @
     le_bytes 2 (word_of_nat (1 + length val) :: u16) @ p # val"
| "request_body DeviceStatus s = [0x07, s, 0, 8, 0, 3, 0, 0]"
| "request_body NetworkJoin s = [0x08, s, 0, 6, 0, 1]"
| "request_body NetworkLeave s = [0x08, s, 0, 6, 0, 1]"
| "request_body GetApsData s = [0x17, s, 0, 8, 0, 1, 0, 7]"

text \<open>Building a request, stamping it and writing it, as the transport does.\<close>

definition send_request :: "u8 list \<Rightarrow> world \<Rightarrow> request \<Rightarrow> u8 \<Rightarrow> ub + int \<times> world" where
  "send_request stack w req s =
     bindE (build_request req (mem w)) (\<lambda>(frame, h).
     bindE (update_frame h frame (\<lambda>f. f\<lparr>sequence_number := s\<rparr>)) (\<lambda>h.
     conbee_write_frame stack (w\<lparr>mem := h\<rparr>) frame))"

text \<open>A built request is the next block of the heap, with the payload behind it.\<close>

lemma sent_bytes_exact:
  "length (frame_bytes fr bs) = unat (frame_length fr) \<Longrightarrow> sent_bytes stack fr bs = frame_bytes fr bs"
  by (simp add: sent_bytes_def)

lemma sent_bytes_cut:
  "unat (frame_length fr) \<le> length (frame_bytes fr bs) \<Longrightarrow>
   sent_bytes stack fr bs = take (unat (frame_length fr)) (frame_bytes fr bs)"
  by (simp add: sent_bytes_def)

fun request_payload :: "request \<Rightarrow> u8 list" where
  "request_payload ReadFirmware = []"
| "request_payload (ReadParameter p) = [p]"
| "request_payload (WriteParameter p val) = p # val"
| "request_payload DeviceStatus = [0, 0, 0]"
| "request_payload NetworkJoin = [NETWORK_CONNECTED]"
| "request_payload NetworkLeave = [NETWORK_OFFLINE]"
| "request_payload GetApsData = [0x07]"

fun request_header :: "request \<Rightarrow> conbee_frame" where
  "request_header ReadFirmware = request_frame COMMAND_VERSION 5 0"
| "request_header (ReadParameter p) = request_frame COMMAND_READ_PARAMETER 8 1"
| "request_header (WriteParameter p val) =
     request_frame COMMAND_WRITE_PARAMETER (word_of_nat (8 + length val)) (word_of_nat (1 + length val))"
| "request_header DeviceStatus = request_frame COMMAND_DEVICE_STATE 8 3"
| "request_header NetworkJoin = request_frame COMMAND_CHANGE_NETWORK_STATE 6 1"
| "request_header NetworkLeave = request_frame COMMAND_CHANGE_NETWORK_STATE 6 1"
| "request_header GetApsData = request_frame COMMAND_APS_DATA_INDICATION 8 1"

lemma request_header_payload: "payload (request_header req) = NULL"
  by (cases req) (simp_all add: request_frame_def)

lemma request_header_seq: "sequence_number (request_header req) = 0"
  by (cases req) (simp_all add: request_frame_def)

lemma request_payload_length:
  "request_fits req \<Longrightarrow> unat (payload_length (request_header req)) = length (request_payload req)"
  by (cases req) (simp_all add: request_frame_def unat_of_nat16 del: of_nat_Suc of_nat_add)

lemma request_frame_length:
  "request_fits req \<Longrightarrow> unat (frame_length (request_header req)) \<le> 998"
  by (cases req) (simp_all add: request_frame_def unat_of_nat16 del: of_nat_Suc of_nat_add)

lemma request_payload_small: "request_fits req \<Longrightarrow> length (request_payload req) \<le> 993"
  by (cases req) simp_all

definition request_pointer :: "request \<Rightarrow> heap \<Rightarrow> addr" where
  "request_pointer req h = (if req = ReadFirmware then NULL else Suc (brk h))"

definition request_heap :: "request \<Rightarrow> heap \<Rightarrow> heap" where
  "request_heap req h =
     (if req = ReadFirmware
      then h\<lparr>brk := Suc (brk h), avail := avail h - 1, frames := (frames h)(brk h \<mapsto> request_header req)\<rparr>
      else with_frame h (request_header req) (request_payload req))"

lemma build_request_eq:
  assumes "2 \<le> avail h" "heap_ok h" "request_fits req"
  shows "build_request req h = Inr (brk h, request_heap req h)"
proof (cases req)
  case (WriteParameter p val)
  then have "unat (word_of_nat (length val) :: u8) = length val"
    using assms(3) by (simp add: unsigned_of_nat take_bit_nat_eq_self)
  moreover from this have "ucast (word_of_nat (length val) :: u8) = (word_of_nat (length val) :: u16)"
    using assms(3) WriteParameter by (simp add: unsigned_of_nat take_bit_nat_eq_self)
  ultimately show ?thesis
    using assms WriteParameter
    by (simp add: conbee_write_parameter_request_ok request_heap_def del: of_nat_unat)
qed (use assms in \<open>simp_all add: conbee_read_firmware_request_ok conbee_read_parameter_request_ok
      conbee_device_status_request_ok conbee_device_network_join_create_request_ok
      conbee_device_network_leave_request_ok conbee_device_get_aps_data_request_ok request_heap_def\<close>)

lemma request_heap_is:
  "heap_ok h \<Longrightarrow>
   frame_is (request_heap req h) (brk h) ((request_header req)\<lparr>payload := request_pointer req h\<rparr>) (request_payload req)"
  using with_frame_is [of h "request_header req" "request_payload req"] heap_ok_brk [of h]
  by (auto simp: request_heap_def request_pointer_def frame_is_def request_frame_def)

lemma request_heap_ok: "heap_ok h \<Longrightarrow> heap_ok (request_heap req h)"
  by (simp add: request_heap_def with_frame_ok heap_ok_after_init)

lemma request_sent_bytes:
  "request_fits req \<Longrightarrow>
   sent_bytes stack ((request_header req)\<lparr>payload := p, sequence_number := s\<rparr>) (request_payload req) =
   request_body req s"
proof (cases req)
  case (WriteParameter p' val)
  assume "request_fits req"
  then have "length val < 256" using WriteParameter by simp
  then have len: "unat (word_of_nat (8 + length val) :: u16) = 8 + length val"
    and pos: "(word_of_nat (1 + length val) :: u16) \<noteq> 0"
    using unat_of_nat16 [of "1 + length val"]
    by (simp_all add: unat_of_nat16 word_unat_eq_iff del: of_nat_Suc of_nat_add)
  let ?fr = "(request_header req)\<lparr>payload := p, sequence_number := s\<rparr>"
  have "frame_bytes ?fr (request_payload req) = request_body req s"
    using pos by (simp add: WriteParameter frame_bytes_def request_frame_def conbee_const del: of_nat_Suc of_nat_add)
  moreover have "sent_bytes stack ?fr (request_payload req) = frame_bytes ?fr (request_payload req)"
    by (rule sent_bytes_exact)
      (use len pos in \<open>simp add: WriteParameter frame_bytes_def request_frame_def del: of_nat_Suc of_nat_add\<close>)
  ultimately show ?thesis by simp
qed (simp_all add: sent_bytes_def frame_bytes_def request_frame_def conbee_const le_bytes_def upt_rec)

lemma frame_is_update:
  "frame_is h a fr bs \<Longrightarrow> payload (f fr) = payload fr \<Longrightarrow>
   update_frame h a f = Inr (h\<lparr>frames := (frames h)(a \<mapsto> f fr)\<rparr>) \<and>
   frame_is (h\<lparr>frames := (frames h)(a \<mapsto> f fr)\<rparr>) a (f fr) bs"
  by (simp add: frame_is_def update_frame_def)

end
