(* ===== verification/Exchange.thy ===== *)
theory Exchange
  imports Frame_IO
begin

text \<open>
  Properties of frames on the line: what the library's requests look like there, what comes out of a
  frame at the other end, and what \<open>conbee_read_frame\<close> does with damaged and short packets.
\<close>

subsection \<open>Sending\<close>

lemma send_request_ok:
  assumes "sends_ok w" "length stack = 1000" "2 \<le> avail (mem w)" "heap_ok (mem w)" "request_fits req"
  obtains h' where "send_request stack w req s =
      Inr (0, tty_emit (w\<lparr>mem := h'\<rparr>) (slip_encode (packet_of (request_body req s))))"
    and "frame_is h' (brk (mem w))
      ((request_header req)\<lparr>payload := request_pointer req (mem w), sequence_number := s\<rparr>) (request_payload req)"
proof -
  let ?h = "mem w" and ?a = "brk (mem w)"
  let ?fr = "(request_header req)\<lparr>payload := request_pointer req (mem w), sequence_number := s\<rparr>"
  let ?h1 = "(request_heap req ?h)\<lparr>frames := (frames (request_heap req ?h))(?a \<mapsto> ?fr)\<rparr>"
  have fr0: "frame_is (request_heap req ?h) ?a ((request_header req)\<lparr>payload := request_pointer req ?h\<rparr>) (request_payload req)"
    by (rule request_heap_is [OF assms(4)])
  have upd: "update_frame (request_heap req ?h) ?a (\<lambda>f. f\<lparr>sequence_number := s\<rparr>) = Inr ?h1"
    and fr1: "frame_is ?h1 ?a ?fr (request_payload req)"
    using frame_is_update [OF fr0, of "\<lambda>f. f\<lparr>sequence_number := s\<rparr>"] by simp_all
  have st: "?fr\<lparr>status := 0\<rparr> = ?fr"
    by (cases req) (simp_all add: request_frame_def)
  let ?h2 = "?h1\<lparr>frames := (frames ?h1)(?a \<mapsto> ?fr\<lparr>status := 0\<rparr>)\<rparr>"
  have "conbee_write_frame stack (w\<lparr>mem := ?h1\<rparr>) ?a =
      Inr (0, tty_emit (w\<lparr>mem := ?h2\<rparr>) (slip_encode (packet_of (sent_bytes stack ?fr (request_payload req)))))"
    using conbee_write_frame_sends [of "w\<lparr>mem := ?h1\<rparr>" stack ?a ?fr "request_payload req"]
      assms fr1 request_payload_length [of req] request_frame_length [of req] request_payload_small [of req]
    by simp
  then have "send_request stack w req s =
      Inr (0, tty_emit (w\<lparr>mem := ?h2\<rparr>) (slip_encode (packet_of (request_body req s))))"
    using assms upd by (simp add: send_request_def build_request_eq request_sent_bytes)
  moreover have "frame_is ?h2 ?a ?fr (request_payload req)"
    using frame_is_update [OF fr1, of "\<lambda>f. f\<lparr>status := 0\<rparr>"] unfolding st by simp
  ultimately show ?thesis by (rule that)
qed

text \<open>
  C10: every request of the library goes out as one SLIP packet that holds exactly the bytes of
  \<open>request_body\<close> and their checksum. Nothing of the uninitialised stack buffer reaches the line, the
  call reports success, and the frame's block still holds the request, so that it can be freed.
\<close>

theorem request_on_the_wire:
  assumes "sends_ok w" "length stack = 1000" "2 \<le> avail (mem w)" "heap_ok (mem w)" "request_fits req"
  shows "\<exists>h' fr. send_request stack w req s =
           Inr (0, tty_emit (w\<lparr>mem := h'\<rparr>) (slip_encode (packet_of (request_body req s)))) \<and>
         frame_is h' (brk (mem w)) fr (request_payload req) \<and> sequence_number fr = s"
  by (rule send_request_ok [OF assms, of s]) (intro exI conjI, assumption+, simp)

theorem request_on_the_wire_witness:
  "\<exists>h' fr. send_request (replicate 1000 0xAA) (idle_world 10) (ReadParameter 0x0E) 0xC0 =
       Inr (0, tty_emit ((idle_world 10)\<lparr>mem := h'\<rparr>)
         [0xC0, 0x0A, 0xDB, 0xDC, 0, 8, 0, 1, 0, 0x0E, 0x1F, 0xFF, 0xC0]) \<and>
     frame_is h' 1 fr [0x0E] \<and> sequence_number fr = 0xC0"
proof -
  have wire: "slip_encode (packet_of (request_body (ReadParameter 0x0E) 0xC0)) =
      [0xC0, 0x0A, 0xDB, 0xDC, 0, 8, 0, 1, 0, 0x0E, 0x1F, 0xFF, 0xC0]"
    by (simp add: packet_of_def checksum_def slip_encode_def slip_escape_byte_def conbee_const
        le_bytes_def upt_rec)
  show ?thesis
    using request_on_the_wire [of "idle_world 10" "replicate 1000 0xAA" "ReadParameter 0x0E" "0xC0"]
    unfolding wire by simp
qed

lemma request_body_inject:
  assumes "request_fits req" "request_fits req'"
  shows "request_body req s = request_body req' s' \<longleftrightarrow>
     s = s' \<and> (req = req' \<or> {req, req'} \<subseteq> {NetworkJoin, NetworkLeave})"
  using assms by (cases req; cases req') (auto simp: le_bytes_def upt_rec)

lemma packet_of_inject [simp]: "packet_of xs = packet_of ys \<longleftrightarrow> xs = ys"
  by (auto simp: packet_of_def)

text \<open>
  C11: two requests look the same on the line only if they are the same request with the same
  sequence number - except that a request to join a network and a request to leave it never differ:
  both announce 6 bytes, which cuts the network state off.
\<close>

theorem requests_distinguishable:
  assumes "sends_ok w" "length stack = 1000" "2 \<le> avail (mem w)" "heap_ok (mem w)" "request_fits req"
    and "length stack' = 1000" "request_fits req'"
    and "send_request stack w req s = Inr (err, v)" "send_request stack' w req' s' = Inr (err', v')"
  shows "tty_out v = tty_out v' \<longleftrightarrow>
     s = s' \<and> (req = req' \<or> {req, req'} \<subseteq> {NetworkJoin, NetworkLeave})"
proof -
  have "tty_out v = tty_out w @ slip_encode (packet_of (request_body req s))"
    using assms by (auto elim!: send_request_ok [of w stack req s] simp: tty_emit_def)
  moreover have "tty_out v' = tty_out w @ slip_encode (packet_of (request_body req' s'))"
    using assms by (auto elim!: send_request_ok [of w stack' req' s'] simp: tty_emit_def)
  ultimately show ?thesis
    using assms by (simp add: request_body_inject)
qed

theorem requests_distinguishable_witness:
  "\<exists>v v'. send_request (replicate 1000 0) (idle_world 10) NetworkJoin 7 = Inr (0, v) \<and>
     send_request (replicate 1000 1) (idle_world 10) NetworkLeave 7 = Inr (0, v') \<and> tty_out v = tty_out v'"
proof -
  obtain v where v: "send_request (replicate 1000 0) (idle_world 10) NetworkJoin 7 = Inr (0, v)"
    by (rule send_request_ok [of "idle_world 10" "replicate 1000 0" NetworkJoin 7]) simp_all
  obtain v' where v': "send_request (replicate 1000 1) (idle_world 10) NetworkLeave 7 = Inr (0, v')"
    by (rule send_request_ok [of "idle_world 10" "replicate 1000 1" NetworkLeave 7]) simp_all
  have "tty_out v = tty_out v'"
    using requests_distinguishable [OF _ _ _ _ _ _ _ v v'] by simp
  then show ?thesis using v v' by blast
qed

subsection \<open>Receiving\<close>

lemma frame_bytes_length:
  "unat (payload_length fr) = length bs \<Longrightarrow>
   length (frame_bytes fr bs) = (if bs = [] then 5 else 7 + length bs)"
  by (auto simp: frame_bytes_def word_unat_eq_iff)

text \<open>A frame whose length field says how many bytes it has.\<close>

definition consistent :: "conbee_frame \<Rightarrow> u8 list \<Rightarrow> bool" where
  "consistent fr bs \<longleftrightarrow> unat (payload_length fr) = length bs \<and> length bs \<le> 991 \<and>
     unat (frame_length fr) = length (frame_bytes fr bs)"

lemma consistent_length: "consistent fr bs \<Longrightarrow> 5 \<le> length (frame_bytes fr bs) \<and> length (frame_bytes fr bs) \<le> 998"
  by (auto simp: consistent_def frame_bytes_length)

lemma conbee_write_frame_consistent:
  assumes "sends_ok w" "length stack = 1000" "frame_is (mem w) a fr bs" "consistent fr bs"
  shows "conbee_write_frame stack w a =
     Inr (0, tty_emit (w\<lparr>mem := (mem w)\<lparr>frames := (frames (mem w))(a \<mapsto> fr\<lparr>status := 0\<rparr>)\<rparr>\<rparr>)
               (slip_encode (packet_of (frame_bytes fr bs))))"
  using conbee_write_frame_sends [OF assms(1,2,3)] consistent_length [OF assms(4)] assms(4)
  by (simp add: consistent_def sent_bytes_exact)

lemma conbee_read_frame_ok:
  assumes "connected w" "length stack = 1500" "5 \<le> length body" "length body \<le> 1498"
    and "0 < avail (mem w)" "heap_ok (mem w)" "frames (mem w) a = Some fr"
  shows "conbee_read_frame stack (tty_feed (slip_encode (packet_of body) @ rest) w) a =
     Some (Inr (int (length body + 2), (tty_feed rest w)\<lparr>mem := parsed_heap (mem w) a body\<rparr>))"
proof -
  have "packet_of body \<noteq> []" "length (packet_of body) \<le> 1500"
    using assms(3,4) by (auto simp: packet_of_def)
  then show ?thesis
    using conbee_read_frame_packet [OF assms(1) _ _ assms(2)] 
      conbee_parse_packet_ok [of body "tty_feed rest w" a fr] assms
    by (simp add: tty_feed_def)
qed

lemma parsed_heap_is:
  assumes "heap_ok h" "frames h a = Some fr"
  shows "frame_is (parsed_heap h a body) a (parsed_frame (brk h) body) (drop 5 body)"
  using assms heap_ok_live(1) [OF assms] heap_ok_brk [OF assms(1)]
  by (simp add: frame_is_def parsed_heap_def parsed_frame_def)

lemma parsed_frame_bytes:
  assumes "consistent fr bs"
  shows "parsed_frame p (frame_bytes fr bs) =
     fr\<lparr>status := 0, payload_length := frame_length fr - 5, payload := p\<rparr>"
    and "drop 5 (frame_bytes fr bs) = (if bs = [] then [] else le_bytes 2 (payload_length fr) @ bs)"
proof -
  have len: "length (frame_bytes fr bs) = unat (frame_length fr)" "5 \<le> unat (frame_length fr)"
    using assms consistent_length [OF assms] by (simp_all add: consistent_def)
  have "word_of_nat (unat (frame_length fr) - 5) = (word_of_nat (unat (frame_length fr)) - word_of_nat 5 :: u16)"
    by (rule of_nat_diff [OF len(2)])
  then have "word_of_nat (length (frame_bytes fr bs) - 5) = frame_length fr - 5"
    unfolding len(1) by simp
  moreover have "frame_bytes fr bs ! 0 = command fr" "frame_bytes fr bs ! 1 = sequence_number fr"
    "frame_bytes fr bs ! 2 = 0" "take 2 (drop 3 (frame_bytes fr bs)) = le_bytes 2 (frame_length fr)"
    by (simp_all add: frame_bytes_def numeral_2_eq_2 numeral_3_eq_3)
  ultimately show "parsed_frame p (frame_bytes fr bs) =
     fr\<lparr>status := 0, payload_length := frame_length fr - 5, payload := p\<rparr>"
    by (cases fr) (simp add: parsed_frame_def)
  have "payload_length fr = 0 \<longleftrightarrow> bs = []"
    using assms by (auto simp: consistent_def word_unat_eq_iff)
  then show "drop 5 (frame_bytes fr bs) = (if bs = [] then [] else le_bytes 2 (payload_length fr) @ bs)"
    by (simp add: frame_bytes_def)
qed

text \<open>
  C7: a frame whose length fields say what it holds (\<open>consistent\<close>: \<open>payload_length\<close> is the size of the payload, at most 991, and
  \<open>length\<close> that of the header and the payload as they are laid out): what one end writes with \<open>conbee_write_frame\<close>,
  \<open>conbee_read_frame\<close> on the other end turns back into
  the same command, sequence number and length, with status 0, whatever the bytes are and whatever the
  two stack buffers hold. The payload arrives with its own two-byte length in front, and the received
  \<open>payload_length\<close> counts these two bytes. The requests to join and to leave a network are no such frames: they go out
  cut off. On success \<open>conbee_read_frame\<close> returns the size of the packet, \<open>length\<close> and two bytes of checksum, not the 0 its
  comment promises.
\<close>

theorem frame_roundtrip:
  assumes "sends_ok w" "length stack = 1000" "frame_is (mem w) a fr bs" "consistent fr bs"
    and "connected v" "length stack' = 1500" "0 < avail (mem v)" "heap_ok (mem v)" "frames (mem v) b = Some old"
  shows "\<exists>wire h h'. conbee_write_frame stack w a = Inr (0, tty_emit (w\<lparr>mem := h\<rparr>) wire) \<and>
     conbee_read_frame stack' (tty_feed (wire @ rest) v) b =
       Some (Inr (int (unat (frame_length fr)) + 2, (tty_feed rest v)\<lparr>mem := h'\<rparr>)) \<and>
     frame_is h' b (fr\<lparr>status := 0, payload_length := frame_length fr - 5, payload := brk (mem v)\<rparr>)
       (if bs = [] then [] else le_bytes 2 (payload_length fr) @ bs)"
proof (intro exI conjI)
  let ?body = "frame_bytes fr bs"
  show "conbee_write_frame stack w a =
     Inr (0, tty_emit (w\<lparr>mem := (mem w)\<lparr>frames := (frames (mem w))(a \<mapsto> fr\<lparr>status := 0\<rparr>)\<rparr>\<rparr>)
               (slip_encode (packet_of ?body)))"
    by (rule conbee_write_frame_consistent [OF assms(1-4)])
  have "length ?body = unat (frame_length fr)" using assms(4) by (simp add: consistent_def)
  then show "conbee_read_frame stack' (tty_feed (slip_encode (packet_of ?body) @ rest) v) b =
       Some (Inr (int (unat (frame_length fr)) + 2, (tty_feed rest v)\<lparr>mem := parsed_heap (mem v) b ?body\<rparr>))"
    using conbee_read_frame_ok [OF assms(5,6) _ _ assms(7,8,9), of ?body rest] consistent_length [OF assms(4)]
    by (simp del: of_nat_unat)
  show "frame_is (parsed_heap (mem v) b ?body) b
       (fr\<lparr>status := 0, payload_length := frame_length fr - 5, payload := brk (mem v)\<rparr>)
       (if bs = [] then [] else le_bytes 2 (payload_length fr) @ bs)"
    using parsed_heap_is [OF assms(8,9), of ?body] parsed_frame_bytes [OF assms(4)] by simp
qed

lemma receiving_world_blank:
  "frame_is (mem (receiving_world n)) 1
     \<lparr>command = 0, sequence_number = 0, status = 0, frame_length = 0, payload_length = 0, payload = NULL\<rparr> []"
  by (simp add: frame_is_def)

theorem frame_roundtrip_witness:
  "\<exists>wire h h'. conbee_write_frame (replicate 1000 1) ((idle_world 10)\<lparr>mem :=
        with_frame (init_heap 10 24) (request_frame 0x0A 8 1) [0xC0]\<rparr>) 1 = 
      Inr (0, tty_emit ((idle_world 10)\<lparr>mem := h\<rparr>) wire) \<and>
     conbee_read_frame (replicate 1500 2) (tty_feed (wire @ [0xC0]) (receiving_world 10)) 1 =
       Some (Inr (10, (tty_feed [0xC0] (receiving_world 10))\<lparr>mem := h'\<rparr>)) \<and>
     frame_is h' 1 \<lparr>command = 0x0A, sequence_number = 0, status = 0, frame_length = 8, payload_length = 3,
       payload = 2\<rparr> [1, 0, 0xC0]"
proof -
  let ?h = "with_frame (init_heap 10 24) (request_frame 0x0A 8 1) [0xC0]"
  let ?fr = "(request_frame 0x0A 8 1)\<lparr>payload := 2\<rparr>"
  have fr: "frame_is ?h 1 ?fr [0xC0]"
    using with_frame_is [of "init_heap 10 24" "request_frame 0x0A 8 1" "[0xC0]"] by (simp add: numeral_2_eq_2)
  have "consistent ?fr [0xC0]"
    by (simp add: consistent_def request_frame_def frame_bytes_def)
  from frame_roundtrip [of "(idle_world 10)\<lparr>mem := ?h\<rparr>" "replicate 1000 1" 1 ?fr "[0xC0]"
      "receiving_world 10" "replicate 1500 2" 1 _ "[0xC0]", OF _ _ _ this] fr
  show ?thesis
    by (simp add: request_frame_def le_bytes_def upt_rec)
qed

text \<open>
  C13: a parameter value survives the trip at every width: written with the write request for \<open>n\<close>
  bytes, sent, received as a frame by the other end, it is what the reader for \<open>n\<close> bytes returns, and
  the readers for every other width refuse the frame with -1 and leave their target alone. The call that reads the frame
  returns the \<open>n + 10\<close> bytes of the packet, where its comment promises 0.
\<close>

theorem parameter_value_roundtrip:
  fixes x :: "'a::len word" and d :: "'a word" and e :: "'b::len word"
  assumes "(n, LENGTH('a)) \<in> {(1, 8), (2, 16), (4, 32), (8, 64)}"
    and "sends_ok w" "length stack = 1000" "2 \<le> avail (mem w)" "heap_ok (mem w)"
    and "connected v" "length stack' = 1500" "0 < avail (mem v)" "heap_ok (mem v)" "frames (mem v) b = Some old"
    and "m \<noteq> n" "m < 65536"
  shows "\<exists>h wire h'. send_request stack w (WriteParameter p (le_bytes n x)) s =
       Inr (0, tty_emit (w\<lparr>mem := h\<rparr>) wire) \<and>
     conbee_read_frame stack' (tty_feed (wire @ rest) v) b =
       Some (Inr (int n + 10, (tty_feed rest v)\<lparr>mem := h'\<rparr>)) \<and>
     read_parameter_response n h' b d = Inr (0, x) \<and> read_parameter_response m h' b e = Inr (-1, e)"
proof -
  let ?req = "WriteParameter p (le_bytes n x)"
  let ?body = "request_body ?req s"
  let ?h' = "parsed_heap (mem v) b ?body"
  have n: "n \<le> 8" "LENGTH('a) \<le> 8 * n" using assms(1) by auto
  obtain h where send: "send_request stack w ?req s =
      Inr (0, tty_emit (w\<lparr>mem := h\<rparr>) (slip_encode (packet_of ?body)))"
    by (rule send_request_ok [OF assms(2-5), of ?req s]) (use n in simp_all)
  have len: "length ?body = n + 8" by simp
  have read: "conbee_read_frame stack' (tty_feed (slip_encode (packet_of ?body) @ rest) v) b =
      Some (Inr (int n + 10, (tty_feed rest v)\<lparr>mem := ?h'\<rparr>))"
    using conbee_read_frame_ok [OF assms(6,7) _ _ assms(8,9,10), of ?body rest] n len by simp
  have fr: "frame_is ?h' b (parsed_frame (brk (mem v)) ?body) (drop 5 ?body)"
    by (rule parsed_heap_is [OF assms(9,10)])
  moreover have "unat (payload_length (parsed_frame (brk (mem v)) ?body)) = n + 3"
    using n unat_of_nat16 [of "length ?body - 5"]
    unfolding len by (simp add: parsed_frame_def)
  moreover obtain y z where "drop 5 ?body = y # z # p # le_bytes n x"
    by (simp add: le_bytes_def upt_rec)
  ultimately have "read_parameter_response n ?h' b d = Inr (0, x)"
    "read_parameter_response m ?h' b e = Inr (-1, e)"
    using read_parameter_response_ok [of ?h' b _ y z p "le_bytes n x" d] n assms(11,12)
      read_parameter_response_wrong_size [of ?h' b _ "drop 5 ?body" m e]
    by (simp_all add: le_word_le_bytes)
  with send read show ?thesis by blast
qed

theorem parameter_value_roundtrip_witness:
  "\<exists>h wire h'. send_request (replicate 1000 0) (idle_world 10) (WriteParameter 0x0E (le_bytes 8 (0xDB00C0 :: u64))) 3 =
       Inr (0, tty_emit ((idle_world 10)\<lparr>mem := h\<rparr>) wire) \<and>
     conbee_read_frame (replicate 1500 0) (tty_feed (wire @ []) (receiving_world 10)) 1 =
       Some (Inr (int 8 + 10, (tty_feed [] (receiving_world 10))\<lparr>mem := h'\<rparr>)) \<and>
     read_parameter_response 8 h' 1 (0 :: u64) = Inr (0, 0xDB00C0) \<and>
     read_parameter_response 4 h' 1 (0 :: u32) = Inr (-1, 0)"
  by (rule parameter_value_roundtrip) simp_all

subsection \<open>Damaged and short packets\<close>

lemma packet_of_iff:
  assumes "2 \<le> length pkt"
  shows "le_word (drop (length pkt - 2) pkt) = checksum (take (length pkt - 2) pkt) \<longleftrightarrow>
     (\<exists>body. pkt = packet_of body)"
proof
  assume *: "le_word (drop (length pkt - 2) pkt) = checksum (take (length pkt - 2) pkt)"
  have "le_bytes 2 (checksum (take (length pkt - 2) pkt)) = drop (length pkt - 2) pkt"
    using * assms le_bytes_le_word [where 'a = 16, of "drop (length pkt - 2) pkt"] by simp
  then have "pkt = packet_of (take (length pkt - 2) pkt)" by (simp add: packet_of_def)
  then show "\<exists>body. pkt = packet_of body" ..
qed (auto simp: packet_of_def)

lemma conbee_parse_packet_checked:
  assumes "length (packet_of body) + length rest = 1500"
  shows "conbee_parse_packet (int (length body + 2)) (packet_of body @ rest) w a =
         conbee_fill_frame (int (length body + 2)) (packet_of body @ rest) w a"
  using conbee_parse_packet_crc [of "packet_of body" rest w a] assms by (simp add: packet_of_def)

text \<open>
  C36: which packets make \<open>conbee_read_frame\<close> leave its buffer: exactly those of one byte (the length
  for the checksum wraps around) and those of six bytes with the right checksum (the payload length
  wraps around). On every other packet, with the checksum right or wrong, the call is defined.
\<close>

theorem read_frame_undefined_iff:
  assumes "connected w" "length stack = 1500" "pkt \<noteq> []" "length pkt \<le> 1500"
    and "0 < avail (mem w)" "heap_ok (mem w)" "frames (mem w) a = Some fr"
  shows "\<exists>r. conbee_read_frame stack (tty_feed (slip_encode pkt @ rest) w) a = Some r \<and>
     (if length pkt = 1 \<or> length pkt = 6 \<and> (\<exists>body. pkt = packet_of body) then r = Inl OutOfBounds
      else \<exists>err v. r = Inr (err, v))"
proof -
  let ?buf = "pkt @ drop (length pkt) stack" and ?w = "tty_feed rest w"
  have len: "length pkt + length (drop (length pkt) stack) = 1500" using assms by simp
  have mem: "mem ?w = mem w" by (simp add: tty_feed_def)
  have a: "a \<noteq> NULL" using heap_ok_live(1) [OF assms(6,7)] by simp
  consider "length pkt = 1" | (short) "2 \<le> length pkt" "length pkt \<noteq> 6" | (six) "length pkt = 6"
    using assms(3) by (cases "length pkt" rule: nat.exhaust) (fastforce, linarith)
  then have "if length pkt = 1 \<or> length pkt = 6 \<and> (\<exists>body. pkt = packet_of body)
      then conbee_parse_packet (int (length pkt)) ?buf ?w a = Inl OutOfBounds
      else \<exists>err v. conbee_parse_packet (int (length pkt)) ?buf ?w a = Inr (err, v)"
  proof cases
    case 1
    then show ?thesis using len by (simp add: conbee_parse_packet_single)
  next
    case short
    then show ?thesis
      using conbee_parse_packet_defined [of pkt "drop (length pkt) stack" ?w a fr] len assms(5-7) mem by simp
  next
    case six
    show ?thesis
    proof (cases "\<exists>body. pkt = packet_of body")
      case True
      then obtain body where body: "pkt = packet_of body" by blast
      then have "length body = 4" using six by simp
      then have "conbee_parse_packet (int (length pkt)) ?buf ?w a = Inl OutOfBounds"
        using conbee_parse_packet_checked [of body _ ?w a] body len conbee_fill_frame_six [of ?buf a ?w fr] a mem assms(7)
        by simp
      then show ?thesis using True six by simp
    next
      case False
      then show ?thesis
        using conbee_parse_packet_bad_crc [of pkt _ ?w a] packet_of_iff [of pkt] six by simp
    qed
  qed
  then show ?thesis using conbee_read_frame_packet [OF assms(1,3,4,2)] by simp
qed

text \<open>
  C37: a packet with a single damaged byte, anywhere in the bytes or in the checksum, is refused with
  -2; nothing is allocated and the frame given by the caller is as it was. By the comment of \<open>conbee_read_frame\<close> -2 means
  that the device is not connected and -1 is the code of errors; the device is connected here, and the caller cannot
  tell the two apart.
\<close>

theorem single_damaged_byte_refused:
  assumes "connected w" "length stack = 1500" "length body \<le> 1498"
    and "i < length body + 2" "b \<noteq> packet_of body ! i"
  shows "conbee_read_frame stack (tty_feed (slip_encode ((packet_of body)[i := b]) @ rest) w) a =
     Some (Inr (-2, tty_feed rest w))"
proof -
  let ?pkt = "(packet_of body)[i := b]"
  have "\<not> (\<exists>body'. ?pkt = packet_of body')"
  proof
    assume "\<exists>body'. ?pkt = packet_of body'"
    then obtain body' where pkt: "?pkt = packet_of body'" ..
    then have len: "length body' = length body"
      by (metis add_right_cancel length_list_update length_packet_of)
    show False
    proof (cases "i < length body")
      case True
      then have "?pkt = body[i := b] @ le_bytes 2 (checksum body)"
        by (simp add: packet_of_def list_update_append)
      then have "body' = body[i := b]" "checksum body' = checksum body"
        using pkt len by (simp_all add: packet_of_def)
      then have "checksum (take i body @ [b] @ drop (Suc i) body) =
          checksum (take i body @ [body ! i] @ drop (Suc i) body)"
        using True by (simp add: upd_conv_take_nth_drop id_take_nth_drop [symmetric])
      then show False
        using assms(5) True by (simp add: checksum_replace packet_of_def nth_append del: append.simps)
    next
      case False
      then have "?pkt = body @ (le_bytes 2 (checksum body))[i - length body := b]"
        by (simp add: packet_of_def list_update_append)
      then have "body' = body" using pkt len by (simp add: packet_of_def)
      then have "packet_of body ! i = b" using pkt assms(4) by (metis length_packet_of nth_list_update_eq)
      then show False using assms(5) by simp
    qed
  qed
  then have "le_word (drop (length ?pkt - 2) ?pkt) \<noteq> checksum (take (length ?pkt - 2) ?pkt)"
    using packet_of_iff [of ?pkt] by simp
  then have "conbee_parse_packet (int (length ?pkt)) (?pkt @ drop (length ?pkt) stack) (tty_feed rest w) a =
      Inr (-2, tty_feed rest w)"
    using assms(3) by (intro conbee_parse_packet_bad_crc) simp_all
  moreover have "?pkt \<noteq> []" "length ?pkt \<le> 1500"
    using assms(3) by (simp_all add: packet_of_def flip: length_0_conv)
  ultimately show ?thesis
    using conbee_read_frame_packet [OF assms(1) _ _ assms(2), of ?pkt rest a] by simp
qed

theorem read_frame_undefined_iff_witness:
  "\<exists>r. conbee_read_frame (replicate 1500 0) (tty_feed (slip_encode (packet_of [8, 1, 0, 6]) @ []) (receiving_world 3)) 1 =
     Some r \<and> r = Inl OutOfBounds"
proof -
  have "\<exists>body. packet_of [8, 1, 0, 6] = packet_of body" by blast
  moreover have "length (packet_of [8, 1, 0, 6]) = 6" "packet_of [8, 1, 0, 6] \<noteq> []"
    by (simp_all add: packet_of_def)
  ultimately show ?thesis
    using read_frame_undefined_iff [of "receiving_world 3" "replicate 1500 0" "packet_of [8, 1, 0, 6]" 1 _ "[]"]
    by simp
qed

theorem single_damaged_byte_refused_witness:
  "conbee_read_frame (replicate 1500 0) (tty_feed (slip_encode ((packet_of [7, 1, 0, 7, 0])[2 := 1]) @ [0xC0]) (idle_world 3)) 1 =
     Some (Inr (-2, tty_feed [0xC0] (idle_world 3)))"
  by (rule single_damaged_byte_refused) (simp_all add: packet_of_def)

text \<open>
  The checksum does not protect the order of the bytes: a packet whose bytes have been permuted in
  any way under an unchanged checksum is accepted as the frame of the permuted bytes.
\<close>

lemma reordered_bytes_accepted:
  assumes "connected w" "length stack = 1500" "5 \<le> length body" "length body \<le> 1498"
    and "0 < avail (mem w)" "heap_ok (mem w)" "frames (mem w) a = Some fr" "mset body' = mset body"
  shows "conbee_read_frame stack (tty_feed (slip_encode (body' @ le_bytes 2 (checksum body)) @ rest) w) a =
     Some (Inr (int (length body + 2), (tty_feed rest w)\<lparr>mem := parsed_heap (mem w) a body'\<rparr>))"
proof -
  have "length body' = length body" using assms(8) by (rule mset_eq_length)
  moreover have "checksum body' = checksum body"
    using byte_sum_perm [OF assms(8)] by (simp add: checksum_def)
  ultimately show ?thesis
    using conbee_read_frame_ok [OF assms(1,2) _ _ assms(5,6,7), of body' rest] assms(3,4)
    by (simp add: packet_of_def)
qed

text \<open>
  A packet with a right checksum and fewer bytes than a header is accepted, and fields it does not
  carry are taken from what the stack buffer happened to hold: the upper byte of the length always is.
\<close>

lemma short_packet_reads_stack:
  assumes "connected w" "length stack = 1500" "length body \<le> 2"
    and "heap_ok (mem w)" "frames (mem w) a = Some fr"
  shows "\<exists>v fr'. conbee_read_frame stack (tty_feed (slip_encode (packet_of body) @ rest) w) a =
       Some (Inr (int (length body) + 2, v)) \<and>
     frames (mem v) a = Some fr' \<and> drop_bit 8 (frame_length fr') = ucast (stack ! 4) \<and> payload fr' = payload fr"
proof -
  let ?pkt = "packet_of body" and ?w = "tty_feed rest w"
  let ?buf = "?pkt @ drop (length ?pkt) stack"
  let ?fr = "fr\<lparr>command := ?buf ! 0, sequence_number := ?buf ! 1, status := ?buf ! 2,
              frame_length := le_word (take 2 (drop 3 ?buf))\<rparr>"
  have a: "a \<noteq> NULL" using heap_ok_live(1) [OF assms(4,5)] by simp
  have buf: "length ?buf = 1500" using assms(2,3) by simp
  have pkt: "?pkt \<noteq> []" "length ?pkt \<le> 1500" using assms(3) by simp_all
  have "conbee_parse_packet (int (length ?pkt)) ?buf ?w a =
      Inr (int (length ?pkt), ?w\<lparr>mem := (mem ?w)\<lparr>frames := (frames (mem ?w))(a \<mapsto> ?fr)\<rparr>\<rparr>)"
    using conbee_parse_packet_checked [of body "drop (length ?pkt) stack" ?w a] buf
      conbee_fill_frame_short [OF buf a, of ?w fr "int (length body + 2)"] assms(3,5)
    by (simp add: tty_feed_def)
  then have read: "conbee_read_frame stack (tty_feed (slip_encode ?pkt @ rest) w) a =
      Some (Inr (int (length body) + 2, ?w\<lparr>mem := (mem ?w)\<lparr>frames := (frames (mem ?w))(a \<mapsto> ?fr)\<rparr>\<rparr>))"
    using conbee_read_frame_packet [OF assms(1) pkt assms(2), of rest a] by simp
  have high: "drop_bit 8 (frame_length ?fr) = ucast (stack ! 4)"
  proof -
    have "take 2 (drop 3 ?buf) = [?buf ! 3, ?buf ! 4]"
      by (rule take_two_drop) (use assms(2,3) in simp_all)
    moreover have "?buf ! 4 = stack ! 4" using assms(2,3) by (simp add: nth_append)
    moreover have "frame_length ?fr = le_word (take 2 (drop 3 ?buf))" by simp
    ultimately show ?thesis by (simp only: le_word_high)
  qed
  have "frames (mem (?w\<lparr>mem := (mem ?w)\<lparr>frames := (frames (mem ?w))(a \<mapsto> ?fr)\<rparr>\<rparr>)) a = Some ?fr"
    and "payload ?fr = payload fr" by simp_all
  with read high show ?thesis by blast
qed

end
