(* ===== verification/Connect.thy ===== *)
theory Connect
  imports Device
begin

text \<open>
  \<open>conbee_connect\<close> and \<open>conbee_close\<close> of \<open>src/conbee.c\<close>. What the system calls answer is an argument; the
  model keeps which descriptors are open. What the other threads do while \<open>conbee_close\<close> waits for the
  worker is an argument too, and the locale \<open>stopping_worker\<close> says what it must do for the wait to end.
\<close>

subsection \<open>Connecting\<close>

text \<open>
  The answers of \<open>open\<close>, \<open>tcgetattr\<close>, \<open>cfsetospeed\<close>, \<open>cfsetispeed\<close>, \<open>tcsetattr\<close>, \<open>pipe\<close> (with the two
  descriptors it stores) and \<open>pthread_create\<close>.
\<close>

record connect_env =
  open_result :: int
  tcgetattr_result :: int
  cfsetospeed_result :: int
  cfsetispeed_result :: int
  tcsetattr_result :: int
  pipe_result :: int
  pipe_fds :: "int \<times> int"
  thread_result :: int

definition close_fd :: "int \<Rightarrow> world \<Rightarrow> world" where
  "close_fd n w = w\<lparr>open_fds := open_fds w - {n}\<rparr>"

text \<open>The copy of the name into the 200 bytes of \<open>dev->tty\<close>; \<open>ttyname\<close> is the string without its NUL.\<close>

definition copy_ttyname :: "u8 list \<Rightarrow> u8 list \<Rightarrow> ub + u8 list" where
  "copy_ttyname buffer ttyname =
     (if length ttyname < 200 then buf_write buffer 0 ttyname
      else bindE (buf_write buffer 0 (take 199 ttyname)) (\<lambda>buffer. buf_write buffer 199 [0]))"

text \<open>Everything up to \<open>pthread_create\<close>, which is the last statement but one; the early returns give a negative code.\<close>

definition connect_start :: "connect_env \<Rightarrow> world \<Rightarrow> u8 list \<Rightarrow> ub + int \<times> world" where
  "connect_start env w ttyname =
     bindE (copy_ttyname (tty (dev w)) ttyname) (\<lambda>name.
     let n = open_result env;
         w = w\<lparr>dev := (dev w)\<lparr>tty := name, tty_status := TTY_DISCONNECTED, fd := n\<rparr>\<rparr>
     in if n < 0 then Inr (-1, w)
     else let w = w\<lparr>open_fds := insert n (open_fds w)\<rparr>
     in if tcgetattr_result env < 0 then Inr (-1, close_fd n w)
     else if cfsetospeed_result env < 0 then Inr (-1, close_fd n w)
     else if cfsetispeed_result env < 0 then Inr (-1, close_fd n w)
     else if tcsetattr_result env < 0 then Inr (-1, close_fd n w)
     else let w = w\<lparr>dev := (dev w)\<lparr>send_queue := conbee_queue_init, receive_queue := conbee_queue_init,
                               next_sequence := 0\<rparr>\<rparr>
     in if pipe_result env < 0 then Inr (-1, close_fd n w)
     else let w = w\<lparr>dev := (dev w)\<lparr>pipe_send_queue := pipe_fds env, worker_running := 0, worker_stop := 0\<rparr>,
                    pipe_data := [], open_fds := open_fds w \<union> {fst (pipe_fds env), snd (pipe_fds env)},
                    worker_created := (thread_result env = 0)\<rparr>
     in Inr (0, w))"

definition conbee_connect :: "connect_env \<Rightarrow> world \<Rightarrow> u8 list \<Rightarrow> ub + int \<times> world" where
  "conbee_connect env w ttyname =
     bindE (connect_start env w ttyname) (\<lambda>(err, w).
     if err < 0 then Inr (err, w) else Inr (0, w\<lparr>dev := (dev w)\<lparr>tty_status := TTY_CONNECTED\<rparr>\<rparr>))"

text \<open>Whether every call that \<open>conbee_connect\<close> tests succeeds; it does not test \<open>pthread_create\<close>.\<close>

definition all_calls_succeed :: "connect_env \<Rightarrow> bool" where
  "all_calls_succeed env \<longleftrightarrow> 0 \<le> open_result env \<and> 0 \<le> tcgetattr_result env \<and>
     0 \<le> cfsetospeed_result env \<and> 0 \<le> cfsetispeed_result env \<and> 0 \<le> tcsetattr_result env \<and>
     0 \<le> pipe_result env"

lemma copy_ttyname_ok:
  assumes "length buffer = 200"
  shows "copy_ttyname buffer name =
     Inr (if length name < 200 then name @ drop (length name) buffer else take 199 name @ [0])"
proof (cases "length name < 200")
  case True
  then show ?thesis using assms by (simp add: copy_ttyname_def buf_write_first)
next
  case False
  then have "length (take 199 name) = 199" by simp
  then have "buf_write (take 199 name @ drop 199 buffer) 199 [0] = Inr ((take 199 name @ [0]) @ drop 200 buffer)"
    using assms buf_write_next [of 199 "take 199 name" "[0]" buffer] by simp
  then show ?thesis
    using False assms by (simp add: copy_ttyname_def buf_write_first)
qed

lemma conbee_connect_cases:
  assumes "length (tty (dev w)) = 200"
  obtains v where "conbee_connect env w name = Inr (if all_calls_succeed env then 0 else -1, v)"
    and "tty (dev v) = (if length name < 200 then name @ drop (length name) (tty (dev w)) else take 199 name @ [0])"
    and "connected v \<longleftrightarrow> all_calls_succeed env"
    and "open_fds v = (if all_calls_succeed env
           then insert (open_result env) (open_fds w) \<union> {fst (pipe_fds env), snd (pipe_fds env)}
           else if open_result env < 0 then open_fds w else open_fds w - {open_result env})"
    and "all_calls_succeed env \<Longrightarrow> fd (dev v) = open_result env \<and> pipe_send_queue (dev v) = pipe_fds env \<and>
           send_queue (dev v) = conbee_queue_init \<and> receive_queue (dev v) = conbee_queue_init \<and>
           next_sequence (dev v) = 0 \<and> worker_running (dev v) = 0 \<and> worker_stop (dev v) = 0 \<and>
           pipe_data v = [] \<and> worker_created v = (thread_result env = 0)"
    and "mem v = mem w" "tty_in v = tty_in w" "write_faults v = write_faults w"
  by (rule that [of "snd (projr (conbee_connect env w name))"])
    (use assms in \<open>auto simp: conbee_connect_def connect_start_def copy_ttyname_ok all_calls_succeed_def close_fd_def
      connected_def conbee_const Let_def\<close>)

text \<open>
  C39: \<open>conbee_connect\<close> returns 0 exactly when every call it tests succeeds, and the device is marked
  connected exactly then. A failed call, whichever it is, leaves no descriptor behind; success opens
  the tty and the two ends of the pipe, and both queues are empty and the sequence numbers start at 0.
\<close>

theorem connect_all_or_nothing:
  assumes "length (tty (dev w)) = 200" "open_result env \<notin> open_fds w"
  shows "\<exists>v. conbee_connect env w name = Inr (if all_calls_succeed env then 0 else -1, v) \<and>
     (connected v \<longleftrightarrow> all_calls_succeed env) \<and>
     open_fds v = (if all_calls_succeed env
       then open_fds w \<union> {open_result env, fst (pipe_fds env), snd (pipe_fds env)} else open_fds w) \<and>
     (\<not> all_calls_succeed env \<or> queue_at (mem v) (send_queue (dev v)) [] [] \<and>
        queue_at (mem v) (receive_queue (dev v)) [] [] \<and> next_sequence (dev v) = 0)"
proof -
  obtain v where v: "conbee_connect env w name = Inr (if all_calls_succeed env then 0 else -1, v)"
    "connected v \<longleftrightarrow> all_calls_succeed env"
    "open_fds v = (if all_calls_succeed env
           then insert (open_result env) (open_fds w) \<union> {fst (pipe_fds env), snd (pipe_fds env)}
           else if open_result env < 0 then open_fds w else open_fds w - {open_result env})"
    "all_calls_succeed env \<Longrightarrow> send_queue (dev v) = conbee_queue_init \<and>
       receive_queue (dev v) = conbee_queue_init \<and> next_sequence (dev v) = 0"
    by (rule conbee_connect_cases [OF assms(1), of env name]) auto
  show ?thesis
    using v assms(2) by (intro exI [of _ v]) (auto simp: conbee_queue_init_def)
qed

theorem connect_all_or_nothing_witness:
  "\<exists>v. conbee_connect \<lparr>open_result = 3, tcgetattr_result = 0, cfsetospeed_result = 0, cfsetispeed_result = 0,
        tcsetattr_result = -1, pipe_result = 0, pipe_fds = (4, 5), thread_result = 0\<rparr>
      ((idle_world 0)\<lparr>dev := (dev (idle_world 0))\<lparr>tty := replicate 200 0\<rparr>, open_fds := {0, 1, 2}\<rparr>) [47] = Inr (-1, v) \<and>
    \<not> connected v \<and> open_fds v = {0, 1, 2}"
  using connect_all_or_nothing [of
      "(idle_world 0)\<lparr>dev := (dev (idle_world 0))\<lparr>tty := replicate 200 0\<rparr>, open_fds := {0, 1, 2}\<rparr>"
      "\<lparr>open_result = 3, tcgetattr_result = 0, cfsetospeed_result = 0, cfsetispeed_result = 0,
        tcsetattr_result = -1, pipe_result = 0, pipe_fds = (4, 5), thread_result = 0\<rparr>" "[47]"]
  by (simp add: all_calls_succeed_def)

text \<open>The string a buffer holds, read as C reads it.\<close>

definition c_string :: "u8 list \<Rightarrow> u8 list" where
  "c_string = takeWhile (\<lambda>c. c \<noteq> 0)"

text \<open>
  The name kept in the device, read as a C string, is the name given only when the memory behind it
  was zero: a name shorter than the buffer is copied without its terminator, so what the memory held
  there before follows it; a longer one is cut to 199 characters and terminated.
\<close>

lemma connect_name_not_terminated:
  assumes "length (tty (dev w)) = 200" "0 \<notin> set name"
  shows "\<exists>v err. conbee_connect env w name = Inr (err, v) \<and>
     c_string (tty (dev v)) =
       (if length name < 200 then name @ c_string (drop (length name) (tty (dev w))) else take 199 name)"
proof -
  have "0 \<notin> set (take 199 name)" using assms(2) by (meson in_set_takeD)
  then have "c_string (take 199 name @ [0]) = take 199 name"
    by (subst c_string_def, subst takeWhile_append2) auto
  moreover have "c_string (name @ r) = name @ c_string r" for r
    using assms(2) unfolding c_string_def by (subst takeWhile_append2) auto
  ultimately show ?thesis
    by (rule_tac conbee_connect_cases [OF assms(1), of env name]) auto
qed

subsection \<open>Closing\<close>

text \<open>
  The wait for the worker: look at \<open>worker_running\<close> under the mutex until it is 0. \<open>others\<close> is what the
  worker and the stick do between two looks. The wait may go on forever.
\<close>

partial_function (option) close_wait :: "(world \<Rightarrow> world) \<Rightarrow> world \<Rightarrow> world option" where
  "close_wait others w = (if worker_running (dev w) = 0 then Some w else close_wait others (others w))"

text \<open>\<open>join\<close> is what \<open>pthread_join\<close> leaves: the thread is gone.\<close>

definition conbee_close :: "(world \<Rightarrow> world) \<Rightarrow> (world \<Rightarrow> world) \<Rightarrow> world \<Rightarrow> world option" where
  "conbee_close others join w =
     (let w = w\<lparr>dev := (dev w)\<lparr>worker_stop := 1\<rparr>\<rparr>
      in map_option (\<lambda>w. let w = close_fd (fd (dev (join w))) (join w)
                         in w\<lparr>dev := (dev w)\<lparr>tty_status := TTY_DISCONNECTED\<rparr>\<rparr>)
           (close_wait others w))"

text \<open>When nothing changes any more, the wait never ends.\<close>

lemma close_wait_stuck:
  assumes "others w = w" "worker_running (dev w) \<noteq> 0"
  shows "close_wait others w = None"
proof (rule ccontr)
  assume "close_wait others w \<noteq> None"
  then obtain r where "close_wait others w = Some r" by auto
  then have "\<not> (others w = w \<and> worker_running (dev w) \<noteq> 0)"
  proof (rule close_wait.raw_induct [where P = "\<lambda>oth w r. \<not> (oth w = w \<and> worker_running (dev w) \<noteq> 0)", rotated])
    fix wait :: "(world \<Rightarrow> world) \<Rightarrow> world \<Rightarrow> world option" and others :: "world \<Rightarrow> world" and w r :: world
    assume IH: "\<And>others w r. wait others w = Some r \<Longrightarrow> \<not> (others w = w \<and> worker_running (dev w) \<noteq> 0)"
      and eq: "(if worker_running (dev w) = 0 then Some w else wait others (others w)) = Some r"
    show "\<not> (others w = w \<and> worker_running (dev w) \<noteq> 0)"
      using eq IH [of others w r] by (auto split: if_splits)
  qed
  with assms show False by simp
qed

text \<open>
  What \<open>conbee_close\<close> relies on: once asked to stop, the worker does stop, and it opens and closes no
  descriptors and leaves the device's descriptors alone.
\<close>

locale stopping_worker =
  fixes others :: "world \<Rightarrow> world"
    and fair :: "world \<Rightarrow> bool"
  assumes stops: "fair w \<Longrightarrow> worker_stop (dev w) = 1 \<Longrightarrow> \<exists>n. worker_running (dev ((others ^^ n) w)) = 0"
    and keeps_fds: "open_fds (others w) = open_fds w"
    and keeps_fd: "fd (dev (others w)) = fd (dev w)"
begin

lemma keeps_fds_pow: "open_fds ((others ^^ n) w) = open_fds w"
  by (induction n) (simp_all add: keeps_fds)

lemma keeps_fd_pow: "fd (dev ((others ^^ n) w)) = fd (dev w)"
  by (induction n) (simp_all add: keeps_fd)

lemma close_wait_returns:
  assumes "worker_running (dev ((others ^^ n) w)) = 0"
  shows "\<exists>m. close_wait others w = Some ((others ^^ m) w) \<and> worker_running (dev ((others ^^ m) w)) = 0"
  using assms
proof (induction n arbitrary: w)
  case 0
  then show ?case by (intro exI [of _ 0]) (simp add: close_wait.simps)
next
  case (Suc n)
  show ?case
  proof (cases "worker_running (dev w) = 0")
    case True
    then show ?thesis by (intro exI [of _ 0]) (simp add: close_wait.simps)
  next
    case False
    have "worker_running (dev ((others ^^ n) (others w))) = 0"
      using Suc.prems by (simp add: funpow_swap1)
    then obtain m where "close_wait others (others w) = Some ((others ^^ m) (others w))"
      "worker_running (dev ((others ^^ m) (others w))) = 0"
      using Suc.IH by blast
    then show ?thesis
      using False by (intro exI [of _ "Suc m"]) (simp add: close_wait.simps [of _ w] funpow_swap1)
  qed
qed

lemma close_returns:
  assumes "fair (w\<lparr>dev := (dev w)\<lparr>worker_stop := 1\<rparr>\<rparr>)"
    and join: "\<And>v. open_fds (join v) = open_fds v" "\<And>v. fd (dev (join v)) = fd (dev v)"
  shows "\<exists>v. conbee_close others join w = Some v \<and> \<not> connected v \<and> open_fds v = open_fds w - {fd (dev w)}"
proof -
  let ?w = "w\<lparr>dev := (dev w)\<lparr>worker_stop := 1\<rparr>\<rparr>"
  obtain n where "worker_running (dev ((others ^^ n) ?w)) = 0" using stops [OF assms(1)] by auto
  from close_wait_returns [OF this] obtain m where "close_wait others ?w = Some ((others ^^ m) ?w)" by blast
  then show ?thesis
    using keeps_fds_pow [of m ?w] keeps_fd_pow [of m ?w]
    by (simp add: conbee_close_def close_fd_def connected_def join Let_def)
qed

end

end
