(* ===== verification/Transport.thy ===== *)
theory Transport
  imports Frame_IO
begin

text \<open>
  The transport of \<open>src/conbee.c\<close> as a caller sees it: \<open>conbee_enqueue_frame\<close> stamps a frame and leaves
  it to the worker, \<open>conbee_wait_for_frame\<close> takes a response out of the receive queue. Each critical
  section is a step of its own here; what the worker does while a caller sleeps in
  \<open>pthread_cond_wait\<close> is an argument.
\<close>

subsection \<open>The code\<close>

definition conbee_enqueue_frame :: "world \<Rightarrow> addr \<Rightarrow> ub + int \<times> world" where
  "conbee_enqueue_frame w frame =
     (let seqn = next_sequence (dev w);
          w = w\<lparr>dev := (dev w)\<lparr>next_sequence := seqn + 1\<rparr>\<rparr>
      in bindE (update_frame (mem w) frame (\<lambda>f. f\<lparr>sequence_number := seqn\<rparr>)) (\<lambda>h.
         bindE (conbee_queue_push h (send_queue (dev w)) frame) (\<lambda>(h, q).
         Inr (int (unat seqn),
              w\<lparr>mem := h, dev := (dev w)\<lparr>send_queue := q\<rparr>, pipe_data := pipe_data w @ [0, 0]\<rparr>))))"

text \<open>
  The inner loop of \<open>conbee_wait_for_frame\<close>. Its \<open>else\<close> branch does not move \<open>item\<close> on, so the same item
  is looked at again. The result is \<open>found\<close>, \<open>help_frame\<close> and the queue.
\<close>

definition wanted :: "u8 \<Rightarrow> u8 \<Rightarrow> conbee_frame \<Rightarrow> bool" where
  "wanted seqn cmd fr \<longleftrightarrow>
     (cmd = COMMAND_ANY \<and> sequence_number fr = seqn) \<or> (command fr = cmd \<and> sequence_number fr = seqn)"

partial_function (option) wait_scan ::
  "heap \<Rightarrow> conbee_queue_root \<Rightarrow> addr \<Rightarrow> u8 \<Rightarrow> u8 \<Rightarrow> (ub + bool \<times> addr \<times> heap \<times> conbee_queue_root) option" where
  "wait_scan h queue item seqn cmd =
     (if item = NULL then Some (Inr (False, NULL, h, queue))
      else case get_contents h item of
        Inl e \<Rightarrow> Some (Inl e)
      | Inr help_frame \<Rightarrow>
          (case deref (frames h) help_frame of
             Inl e \<Rightarrow> Some (Inl e)
           | Inr fr \<Rightarrow>
               if wanted seqn cmd fr
               then Some (bindE (conbee_queue_delete h queue item) (\<lambda>(h, queue). Inr (True, help_frame, h, queue)))
               else wait_scan h queue item seqn cmd))"

text \<open>\<open>cond_wait\<close> gives the world when the caller wakes up and has the mutex back, if it ever does.\<close>

partial_function (option) conbee_wait_for_frame ::
  "(world \<Rightarrow> (ub + world) option) \<Rightarrow> world \<Rightarrow> u8 \<Rightarrow> u8 \<Rightarrow> (ub + int \<times> addr \<times> world) option" where
  "conbee_wait_for_frame cond_wait w seqn cmd =
     Option.bind (wait_scan (mem w) (receive_queue (dev w)) (head (receive_queue (dev w))) seqn cmd) (\<lambda>r.
       case r of
         Inl e \<Rightarrow> Some (Inl e)
       | Inr (found, help_frame, h, q) \<Rightarrow>
           if found then Some (Inr (0, help_frame, w\<lparr>mem := h, dev := (dev w)\<lparr>receive_queue := q\<rparr>\<rparr>))
           else Option.bind (cond_wait w) (\<lambda>r.
                  case r of Inl e \<Rightarrow> Some (Inl e) | Inr w \<Rightarrow> conbee_wait_for_frame cond_wait w seqn cmd))"

subsection \<open>Enqueueing\<close>

text \<open>The two queues of a device, with the frames in them, on one heap.\<close>

definition queues :: "world \<Rightarrow> addr list \<Rightarrow> addr list \<Rightarrow> bool" where
  "queues w cs ds \<longleftrightarrow> roomy (mem w) \<and> heap_ok (mem w) \<and>
     (\<exists>as bs. queue_at (mem w) (send_queue (dev w)) as cs \<and> queue_at (mem w) (receive_queue (dev w)) bs ds \<and>
        set as \<inter> set bs = {})"

lemma heap_ok_update_frame: "heap_ok h \<Longrightarrow> frames h a = Some fr \<Longrightarrow> heap_ok (h\<lparr>frames := (frames h)(a \<mapsto> f)\<rparr>)"
  using heap_ok_live(1) [of h a fr] by (auto simp: heap_ok_def live_def)

lemma queue_at_frames [simp]:
  "queue_at (h\<lparr>frames := fs\<rparr>) q as cs = queue_at h q as cs" "queue_at (h\<lparr>blocks := bs\<rparr>) q as cs = queue_at h q as cs"
  "queue_at (h\<lparr>brk := b\<rparr>) q as cs = queue_at h q as cs" "queue_at (h\<lparr>avail := n\<rparr>) q as cs = queue_at h q as cs"
  by (simp_all add: queue_at_def)

lemma conbee_enqueue_frame_ok:
  assumes q: "queues w cs ds" and h: "0 < avail (mem w)" "frames (mem w) frame = Some fr"
  obtains h' q' where "conbee_enqueue_frame w frame = Inr (int (unat (next_sequence (dev w))),
      w\<lparr>mem := h', dev := (dev w)\<lparr>next_sequence := next_sequence (dev w) + 1, send_queue := q'\<rparr>,
        pipe_data := pipe_data w @ [0, 0]\<rparr>)"
    and "queues (w\<lparr>mem := h', dev := (dev w)\<lparr>next_sequence := next_sequence (dev w) + 1, send_queue := q'\<rparr>,
        pipe_data := pipe_data w @ [0, 0]\<rparr>) (cs @ [frame]) ds"
    and "frames h' = (frames (mem w))(frame \<mapsto> fr\<lparr>sequence_number := next_sequence (dev w)\<rparr>)"
    and "blocks h' = blocks (mem w)" "avail h' = avail (mem w) - 1"
    and "dom (items h') = insert (brk (mem w)) (dom (items (mem w)))" "cs = [] \<Longrightarrow> head q' = brk (mem w)"
proof -
  let ?s = "next_sequence (dev w)"
  let ?h = "(mem w)\<lparr>frames := (frames (mem w))(frame \<mapsto> fr\<lparr>sequence_number := ?s\<rparr>)\<rparr>"
  obtain as bs where as: "queue_at (mem w) (send_queue (dev w)) as cs" "queue_at (mem w) (receive_queue (dev w)) bs ds"
      "set as \<inter> set bs = {}" and ok: "roomy (mem w)" "heap_ok (mem w)"
    using q by (auto simp: queues_def)
  have frame: "frame \<noteq> NULL" using heap_ok_live(1) [OF ok(2) h(2)] by simp
  have ok1: "roomy ?h" "0 < avail ?h" "heap_ok ?h" "queue_at ?h (send_queue (dev w)) as cs"
    using ok h as heap_ok_update_frame by auto
  obtain h' q' where push: "conbee_queue_push ?h (send_queue (dev w)) frame = Inr (h', q')"
      "queue_at h' q' (as @ [brk ?h]) (cs @ [frame])" "heap_ok h'"
      "items_only (insert (brk ?h) (set as)) ?h h'" "brk h' = Suc (brk ?h)" "avail h' = avail ?h - 1"
    by (rule conbee_queue_push_ok [OF ok1, of frame])
  have "brk ?h \<notin> set bs" using queue_at_fresh [OF as(2) ok(2)] by simp
  then have bs: "queue_at h' (receive_queue (dev w)) bs ds" "set (as @ [brk ?h]) \<inter> set bs = {}"
    using queue_at_items_only [OF _ push(4), of "receive_queue (dev w)" bs ds] as by auto
  have "roomy h'" using items_only_roomy [OF push(4)] ok by simp
  have "queues (w\<lparr>mem := h', dev := (dev w)\<lparr>next_sequence := ?s + 1, send_queue := q'\<rparr>,
        pipe_data := pipe_data w @ [0, 0]\<rparr>) (cs @ [frame]) ds"
    unfolding queues_def using push(2,3) bs \<open>roomy h'\<close>
    by (intro conjI exI [of _ "as @ [brk ?h]"] exI [of _ bs]) simp_all
  moreover have "conbee_enqueue_frame w frame = Inr (int (unat ?s),
      w\<lparr>mem := h', dev := (dev w)\<lparr>next_sequence := ?s + 1, send_queue := q'\<rparr>, pipe_data := pipe_data w @ [0, 0]\<rparr>)"
    using push(1) frame h by (simp add: conbee_enqueue_frame_def update_frame_def Let_def)
  moreover have "frames h' = (frames (mem w))(frame \<mapsto> fr\<lparr>sequence_number := ?s\<rparr>)"
      "blocks h' = blocks (mem w)" "avail h' = avail (mem w) - 1"
    using push(4,6) by (simp_all add: items_only_def)
  moreover have "dom (items h') = insert (brk (mem w)) (dom (items (mem w)))"
    using conbee_queue_push_items [OF ok1(4) push(2,4)] by simp
  moreover have "cs = [] \<Longrightarrow> head q' = brk (mem w)" using queue_at_single [of "mem w" "send_queue (dev w)" as h' q'] as(1) push(2) by simp
  ultimately show ?thesis using that by blast
qed

fun enqueue_all :: "world \<Rightarrow> addr list \<Rightarrow> ub + int list \<times> world" where
  "enqueue_all w [] = Inr ([], w)"
| "enqueue_all w (f # fs) =
     bindE (conbee_enqueue_frame w f) (\<lambda>(s, w). bindE (enqueue_all w fs) (\<lambda>(ss, w). Inr (s # ss, w)))"

text \<open>
  Enqueueing frames one after the other never fails while memory lasts; the frames line up in the
  send queue in this order, behind those already there, one token of two bytes each is in the pipe,
  and the numbers returned count up from the device's counter modulo 256, so the first 256 requests
  have different numbers and the next one repeats the first.
\<close>

lemma enqueue_all_in_order:
  assumes "queues w cs ds" "length fs \<le> avail (mem w)" "set fs \<subseteq> dom (frames (mem w))"
  shows "\<exists>w'. enqueue_all w fs =
       Inr (map (\<lambda>i. (int (unat (next_sequence (dev w))) + int i) mod 256) [0..<length fs], w') \<and>
     queues w' (cs @ fs) ds \<and> pipe_data w' = pipe_data w @ replicate (2 * length fs) 0 \<and>
     tty_out w' = tty_out w"
  using assms
proof (induction fs arbitrary: w cs)
  case Nil
  then show ?case by simp
next
  case (Cons f fs)
  let ?s = "next_sequence (dev w)"
  obtain fr where fr: "frames (mem w) f = Some fr" using Cons.prems(3) by auto
  have av: "0 < avail (mem w)" using Cons.prems(2) by simp
  obtain h' q' where enq: "conbee_enqueue_frame w f = Inr (int (unat ?s),
      w\<lparr>mem := h', dev := (dev w)\<lparr>next_sequence := ?s + 1, send_queue := q'\<rparr>, pipe_data := pipe_data w @ [0, 0]\<rparr>)"
    "queues (w\<lparr>mem := h', dev := (dev w)\<lparr>next_sequence := ?s + 1, send_queue := q'\<rparr>,
        pipe_data := pipe_data w @ [0, 0]\<rparr>) (cs @ [f]) ds"
    "frames h' = (frames (mem w))(f \<mapsto> fr\<lparr>sequence_number := ?s\<rparr>)" "avail h' = avail (mem w) - 1"
    by (rule conbee_enqueue_frame_ok [OF Cons.prems(1) av fr]) blast
  have step: "int (unat (?s + 1)) = (int (unat ?s) + 1) mod 256"
    by (simp add: unat_word_ariths zmod_int add.commute)
  have lt: "int (unat ?s) < 256" using unat_lt8 [of ?s] by linarith
  have seqs: "map (\<lambda>i. (int (unat (?s + 1)) + int i) mod 256) [0..<length fs] =
      map (\<lambda>i. (int (unat ?s) + int i) mod 256) (map Suc [0..<length fs])"
    unfolding step by (simp add: mod_simps del: of_nat_unat) (simp add: ac_simps del: of_nat_unat)
  let ?w = "w\<lparr>mem := h', dev := (dev w)\<lparr>next_sequence := ?s + 1, send_queue := q'\<rparr>,
        pipe_data := pipe_data w @ [0, 0]\<rparr>"
  have "length fs \<le> avail (mem ?w)" "set fs \<subseteq> dom (frames (mem ?w))"
    using Cons.prems enq(3,4) by auto
  from Cons.IH [OF enq(2) this] obtain w' where w': "enqueue_all ?w fs =
      Inr (map (\<lambda>i. (int (unat (?s + 1)) + int i) mod 256) [0..<length fs], w')"
    "queues w' ((cs @ [f]) @ fs) ds" "pipe_data w' = pipe_data ?w @ replicate (2 * length fs) 0" "tty_out w' = tty_out ?w"
    by (auto simp del: of_nat_unat)
  have "[0..<length (f # fs)] = 0 # map Suc [0..<length fs]"
    by (simp add: map_Suc_upt upt_conv_Cons del: upt_Suc)
  then show ?case
    using enq(1) w' lt seqs by (intro exI [of _ w']) (simp del: of_nat_unat upt_Suc)
qed

subsection \<open>Waiting\<close>

lemma wait_scan_empty: "wait_scan h q NULL seqn cmd = Some (Inr (False, NULL, h, q))"
  by (simp add: wait_scan.simps)

lemma wait_scan_wanted:
  assumes "get_contents h item = Inr f" "item \<noteq> NULL" "frames h f = Some fr" "f \<noteq> NULL" "wanted seqn cmd fr"
  shows "wait_scan h q item seqn cmd =
     Some (bindE (conbee_queue_delete h q item) (\<lambda>(h, q). Inr (True, f, h, q)))"
  using assms by (simp add: wait_scan.simps)

text \<open>An item whose frame is not wanted is looked at for ever.\<close>

lemma wait_scan_spins:
  assumes "get_contents h item = Inr f" "item \<noteq> NULL" "frames h f = Some fr" "f \<noteq> NULL" "\<not> wanted seqn cmd fr"
  shows "wait_scan h q item seqn cmd = None"
proof (rule ccontr)
  assume "wait_scan h q item seqn cmd \<noteq> None"
  then obtain r where "wait_scan h q item seqn cmd = Some r" by auto
  then have "\<not> (item \<noteq> NULL \<and> (\<exists>f fr. get_contents h item = Inr f \<and> f \<noteq> NULL \<and> frames h f = Some fr \<and>
      \<not> wanted seqn cmd fr))"
  proof (rule wait_scan.raw_induct [rotated])
    fix scan :: "heap \<Rightarrow> conbee_queue_root \<Rightarrow> addr \<Rightarrow> u8 \<Rightarrow> u8 \<Rightarrow>
        (ub + bool \<times> addr \<times> heap \<times> conbee_queue_root) option"
      and h queue item seqn cmd y
    assume IH: "\<And>h queue item seqn cmd y. scan h queue item seqn cmd = Some y \<Longrightarrow>
        \<not> (item \<noteq> NULL \<and> (\<exists>f fr. get_contents h item = Inr f \<and> f \<noteq> NULL \<and> frames h f = Some fr \<and>
          \<not> wanted seqn cmd fr))"
      and eq: "(if item = NULL then Some (Inr (False, NULL, h, queue))
        else case get_contents h item of
          Inl e \<Rightarrow> Some (Inl e)
        | Inr help_frame \<Rightarrow>
            (case deref (frames h) help_frame of
               Inl e \<Rightarrow> Some (Inl e)
             | Inr fr \<Rightarrow>
                 if wanted seqn cmd fr
                 then Some (bindE (conbee_queue_delete h queue item) (\<lambda>(h, queue). Inr (True, help_frame, h, queue)))
                 else scan h queue item seqn cmd)) = Some y"
    show "\<not> (item \<noteq> NULL \<and> (\<exists>f fr. get_contents h item = Inr f \<and> f \<noteq> NULL \<and> frames h f = Some fr \<and>
        \<not> wanted seqn cmd fr))"
      using eq IH [of h queue item seqn cmd y] by (auto split: if_splits)
  qed
  with assms show False by simp
qed

lemma wait_finds_head:
  assumes h: "roomy (mem w)" "heap_ok (mem w)" and q: "queue_at (mem w) (receive_queue (dev w)) (a # as) (d # ds)"
    and it: "items (mem w) a = Some it" "previous_item it = NULL"
    and fr: "frames (mem w) d = Some fr" "wanted seqn cmd fr"
  shows "conbee_wait_for_frame cond_wait w seqn cmd = Some (Inr (0, d,
      w\<lparr>mem := (mem w)\<lparr>items := (items (mem w))(a := None), avail := Suc (avail (mem w))\<rparr>,
        dev := (dev w)\<lparr>receive_queue := (receive_queue (dev w))\<lparr>head := next_item it\<rparr>\<rparr>\<rparr>))"
proof -
  have a: "a \<noteq> NULL" "head (receive_queue (dev w)) = a" "contents it = d" using q it by (auto simp: queue_at_def)
  then have "get_contents (mem w) a = Inr d" using h it by simp
  moreover have "d \<noteq> NULL" using heap_ok_live(1) [OF h(2) fr(1)] by simp
  ultimately show ?thesis
    using wait_scan_wanted [of "mem w" a d fr seqn cmd "receive_queue (dev w)"] a fr
      conbee_queue_delete_head_ok(1) [OF h q it]
    by (simp add: conbee_wait_for_frame.simps)
qed

lemma wait_spins_on_head:
  assumes h: "roomy (mem w)" "heap_ok (mem w)" and q: "queue_at (mem w) (receive_queue (dev w)) (a # as) (d # ds)"
    and fr: "frames (mem w) d = Some fr" "\<not> wanted seqn cmd fr"
  shows "conbee_wait_for_frame cond_wait w seqn cmd = None"
proof -
  obtain it where it: "a \<noteq> NULL" "head (receive_queue (dev w)) = a" "items (mem w) a = Some it" "contents it = d"
    using q by (auto simp: queue_at_def)
  then have "get_contents (mem w) a = Inr d" using h by simp
  moreover have "d \<noteq> NULL" using heap_ok_live(1) [OF h(2) fr(1)] by simp
  ultimately have "wait_scan (mem w) (receive_queue (dev w)) (head (receive_queue (dev w))) seqn cmd = None"
    using wait_scan_spins [of "mem w" a d fr seqn cmd] it fr by simp
  then show ?thesis by (subst conbee_wait_for_frame.simps) simp
qed

lemma wait_sleeps:
  assumes "head (receive_queue (dev w)) = NULL"
  shows "conbee_wait_for_frame cond_wait w seqn cmd =
     Option.bind (cond_wait w) (\<lambda>r. case r of Inl e \<Rightarrow> Some (Inl e) | Inr w \<Rightarrow> conbee_wait_for_frame cond_wait w seqn cmd)"
  by (subst conbee_wait_for_frame.simps) (simp add: assms wait_scan_empty)

text \<open>
  What a caller relies on while it sleeps: when a packet is on its way (\<open>arriving w body\<close>), it wakes up
  in a world whose receive queue holds the frame of that packet, and only this one. This frame with its payload and its
  item and what \<open>kept w\<close>, \<open>kept_blocks w\<close> and \<open>kept_items w\<close> say are all there is on the heap then.
\<close>

text \<open>Nothing is left to do: the line and the pipe are empty, and the worker is as before.\<close>

definition settled :: "world \<Rightarrow> world \<Rightarrow> bool" where
  "settled w v \<longleftrightarrow> sends_ok v \<and> tty_in v = [] \<and> pipe_data v = [] \<and>
     next_sequence (dev v) = next_sequence (dev w) \<and>
     worker_running (dev v) = worker_running (dev w) \<and> worker_stop (dev v) = worker_stop (dev w)"

lemma settled_upd [simp]:
  "settled w (v\<lparr>mem := h\<rparr>) = settled w v"
  "settled w (v\<lparr>mem := h, dev := (dev v)\<lparr>receive_queue := q\<rparr>\<rparr>) = settled w v"
  by (simp_all add: settled_def sends_ok_def connected_def)

locale waking =
  fixes cond_wait :: "world \<Rightarrow> (ub + world) option"
    and arriving :: "world \<Rightarrow> u8 list \<Rightarrow> bool"
    and kept :: "world \<Rightarrow> addr set"
    and kept_blocks :: "world \<Rightarrow> addr set"
    and kept_items :: "world \<Rightarrow> addr set"
  assumes arrives: "arriving w body \<Longrightarrow>
      \<exists>w' a f p. cond_wait w = Some (Inr w') \<and> roomy (mem w') \<and> heap_ok (mem w') \<and>
        queue_at (mem w') (receive_queue (dev w')) [a] [f] \<and> linked_at (mem w') (receive_queue (dev w')) [a] \<and>
        frame_is (mem w') f (parsed_frame p body) (drop 5 body) \<and>
        f \<notin> kept w \<and> dom (frames (mem w')) = insert f (kept w) \<and>
        p \<noteq> NULL \<and> p \<notin> kept_blocks w \<and> dom (blocks (mem w')) = insert p (kept_blocks w) \<and>
        a \<notin> kept_items w \<and> dom (items (mem w')) = insert a (kept_items w) \<and> settled w w'"
begin

lemma wait_gets:
  assumes "arriving w body" "head (receive_queue (dev w)) = NULL"
    and "\<And>p. wanted seqn cmd (parsed_frame p body)"
  shows "\<exists>w' f p. conbee_wait_for_frame cond_wait w seqn cmd = Some (Inr (0, f, w')) \<and>
     frame_is (mem w') f (parsed_frame p body) (drop 5 body) \<and> heap_ok (mem w') \<and>
     queue_at (mem w') (receive_queue (dev w')) [] [] \<and> f \<notin> kept w \<and> dom (frames (mem w')) = insert f (kept w) \<and>
     p \<noteq> NULL \<and> p \<notin> kept_blocks w \<and> dom (blocks (mem w')) = insert p (kept_blocks w) \<and> dom (items (mem w')) = kept_items w \<and>
     settled w w'"
proof -
  obtain v a f p where v: "cond_wait w = Some (Inr v)" "roomy (mem v)" "heap_ok (mem v)"
    "queue_at (mem v) (receive_queue (dev v)) [a] [f]" "linked_at (mem v) (receive_queue (dev v)) [a]"
    "frame_is (mem v) f (parsed_frame p body) (drop 5 body)" "f \<notin> kept w" "dom (frames (mem v)) = insert f (kept w)"
    "p \<noteq> NULL" "p \<notin> kept_blocks w" "dom (blocks (mem v)) = insert p (kept_blocks w)"
    "a \<notin> kept_items w" "dom (items (mem v)) = insert a (kept_items w)" "settled w v"
    using arrives [OF assms(1)] by blast
  obtain it where it: "items (mem v) a = Some it" "previous_item it = NULL" "next_item it = NULL"
    using v(5) by (auto simp: linked_at_def)
  have fr: "frames (mem v) f = Some (parsed_frame p body)" using v(6) by (simp add: frame_is_def)
  let ?v = "v\<lparr>mem := (mem v)\<lparr>items := (items (mem v))(a := None), avail := Suc (avail (mem v))\<rparr>,
        dev := (dev v)\<lparr>receive_queue := (receive_queue (dev v))\<lparr>head := next_item it\<rparr>\<rparr>\<rparr>"
  have "conbee_wait_for_frame cond_wait w seqn cmd = Some (Inr (0, f, ?v))"
    using wait_sleeps [OF assms(2), of cond_wait seqn cmd] wait_finds_head [OF v(2-4) it(1,2) fr assms(3), of cond_wait] v(1)
    by simp
  moreover have "frame_is (mem ?v) f (parsed_frame p body) (drop 5 body)"
    using v(6) by (simp add: frame_is_def)
  moreover have "heap_ok (mem ?v)" using heap_ok_free [OF v(3)] by simp
  moreover have "queue_at (mem ?v) (receive_queue (dev ?v)) [] []" "dom (frames (mem ?v)) = insert f (kept w)"
    using it(3) v(8) by simp_all
  moreover have "dom (blocks (mem ?v)) = insert p (kept_blocks w)" "dom (items (mem ?v)) = kept_items w"
    using v(11-13) by simp_all
  moreover have "settled w ?v" using v(14) by simp
  ultimately show ?thesis using v(7,9,10) by blast
qed

lemma wait_misses:
  assumes "arriving w body" "head (receive_queue (dev w)) = NULL"
    and "\<And>p. \<not> wanted seqn cmd (parsed_frame p body)"
  shows "conbee_wait_for_frame cond_wait w seqn cmd = None"
proof -
  obtain v a f p where v: "cond_wait w = Some (Inr v)" "roomy (mem v)" "heap_ok (mem v)"
    "queue_at (mem v) (receive_queue (dev v)) [a] [f]" "frame_is (mem v) f (parsed_frame p body) (drop 5 body)"
    using arrives [OF assms(1)] by blast
  have fr: "frames (mem v) f = Some (parsed_frame p body)" using v(5) by (simp add: frame_is_def)
  show ?thesis
    using wait_sleeps [OF assms(2), of cond_wait seqn cmd] wait_spins_on_head [OF v(2-4) fr assms(3), of cond_wait] v(1)
    by simp
qed

end

text \<open>
  C17: with frames in the receive queue, only the first one decides. If it is the one asked for, it is
  taken out and returned with code 0. If it is not, the call never returns, whatever the other frames
  are and whatever would have woken the caller up: it looks at the first item for ever, holding the
  queue's mutex.
\<close>

theorem wait_takes_head_or_spins:
  assumes "roomy (mem w)" "heap_ok (mem w)" "queue_at (mem w) (receive_queue (dev w)) (a # as) (d # ds)"
    and "linked_at (mem w) (receive_queue (dev w)) (a # as)" "frames (mem w) d = Some fr"
  shows "if wanted seqn cmd fr
     then \<exists>w'. conbee_wait_for_frame cond_wait w seqn cmd = Some (Inr (0, d, w')) \<and>
            queue_at (mem w') (receive_queue (dev w')) as ds \<and> frames (mem w') = frames (mem w)
     else conbee_wait_for_frame cond_wait w seqn cmd = None"
proof (cases "wanted seqn cmd fr")
  case True
  obtain it where it: "items (mem w) a = Some it" "previous_item it = NULL"
    using assms(4) by (auto simp: linked_at_def)
  show ?thesis
    using wait_finds_head [OF assms(1-3) it assms(5) True, of cond_wait]
      conbee_queue_delete_head_ok(2) [OF assms(1-3) it] True by auto
next
  case False
  then show ?thesis using wait_spins_on_head [OF assms(1-3,5), of seqn cmd cond_wait] by simp
qed

text \<open>A device that has received two frames, with sequence numbers 8 and 9.\<close>

definition received_world :: world where
  "received_world = (idle_world 5)\<lparr>
     mem := (init_heap 5 24)\<lparr>brk := 5,
       frames := [1 \<mapsto> (request_frame COMMAND_VERSION 9 4)\<lparr>sequence_number := 8\<rparr>,
                  2 \<mapsto> (request_frame COMMAND_VERSION 9 4)\<lparr>sequence_number := 9\<rparr>],
       items := [3 \<mapsto> \<lparr>contents = 1, next_item = 4, previous_item = NULL\<rparr>,
                 4 \<mapsto> \<lparr>contents = 2, next_item = NULL, previous_item = 3\<rparr>]\<rparr>,
     dev := (dev (idle_world 5))\<lparr>receive_queue := \<lparr>head = 3, tail = 4\<rparr>\<rparr>\<rparr>"

lemma received_world_ok:
  "roomy (mem received_world)" "heap_ok (mem received_world)"
  "queue_at (mem received_world) (receive_queue (dev received_world)) [3, 4] [1, 2]"
  "linked_at (mem received_world) (receive_queue (dev received_world)) [3, 4]"
  "frames (mem received_world) 1 = Some ((request_frame COMMAND_VERSION 9 4)\<lparr>sequence_number := 8\<rparr>)"
  "frames (mem received_world) 2 = Some ((request_frame COMMAND_VERSION 9 4)\<lparr>sequence_number := 9\<rparr>)"
  by (auto simp: received_world_def idle_world_def roomy_def sizeof_ptr_def heap_ok_def live_def init_heap_def
      queue_at_def linked_at_def split: if_splits)

theorem wait_takes_head_or_spins_witness:
  "\<exists>w'. conbee_wait_for_frame (\<lambda>_. None) received_world 8 COMMAND_ANY = Some (Inr (0, 1, w')) \<and>
     queue_at (mem w') (receive_queue (dev w')) [4] [2] \<and> frames (mem w') = frames (mem received_world)"
  using wait_takes_head_or_spins [OF received_world_ok(1-5), of 8 COMMAND_ANY "\<lambda>_. None"]
  by (simp add: wanted_def request_frame_def)

text \<open>
  Taking two responses out of a queue that holds at least two is undefined: the first deletion
  leaves the second item pointing back at the item it frees, and the second deletion writes there.
\<close>

lemma second_wait_uses_freed_item:
  assumes "roomy (mem w)" "heap_ok (mem w)" "queue_at (mem w) (receive_queue (dev w)) (a # b # as) (c # d # ds)"
    and "linked_at (mem w) (receive_queue (dev w)) (a # b # as)"
    and "frames (mem w) c = Some fc" "wanted s cmd fc" "frames (mem w) d = Some fe" "wanted s' cmd' fe"
  shows "\<exists>w'. conbee_wait_for_frame cond_wait w s cmd = Some (Inr (0, c, w')) \<and>
     conbee_wait_for_frame cond_wait w' s' cmd' = Some (Inl UseAfterFree)"
proof -
  obtain ia ib where ia: "items (mem w) a = Some ia" "previous_item ia = NULL" "next_item ia = b"
    and ib: "items (mem w) b = Some ib" "previous_item ib = a" and ab: "a \<noteq> NULL" "b \<noteq> NULL" "a \<noteq> b" "contents ib = d"
    using assms(3,4) by (auto simp: linked_at_def queue_at_def)
  let ?h = "(mem w)\<lparr>items := (items (mem w))(a := None), avail := Suc (avail (mem w))\<rparr>"
  let ?q = "(receive_queue (dev w))\<lparr>head := b\<rparr>"
  have first: "conbee_wait_for_frame cond_wait w s cmd =
      Some (Inr (0, c, w\<lparr>mem := ?h, dev := (dev w)\<lparr>receive_queue := ?q\<rparr>\<rparr>))"
    using wait_finds_head [OF assms(1-3) ia(1,2) assms(5,6), of cond_wait] ia(3) by simp
  have "conbee_queue_delete ?h ?q b = Inl UseAfterFree"
    by (rule conbee_queue_delete_stale [where it = ib]) (use assms(1) ab ib in simp_all)
  moreover have "get_contents ?h b = Inr d" using ab ib assms(1) by simp
  moreover have "d \<noteq> NULL" using heap_ok_live(1) [OF assms(2,7)] by simp
  ultimately have "wait_scan ?h ?q b s' cmd' = Some (Inl UseAfterFree)"
    using wait_scan_wanted [of ?h b d fe s' cmd' ?q] ab assms(7,8) by simp
  then have "conbee_wait_for_frame cond_wait (w\<lparr>mem := ?h, dev := (dev w)\<lparr>receive_queue := ?q\<rparr>\<rparr>) s' cmd' =
      Some (Inl UseAfterFree)"
    by (subst conbee_wait_for_frame.simps) simp
  with first show ?thesis by blast
qed

end
