(* ===== verification/Worker.thy ===== *)
theory Worker
  imports Transport Exchange Connect
begin

text \<open>
  The worker thread of \<open>src/conbee-send-receive.c\<close>: it waits with \<open>select\<close> for the tty and for the pipe,
  receives one frame when the tty is ready and otherwise sends the frame at the front of the send queue.
\<close>

subsection \<open>The code\<close>

text \<open>
  What \<open>select\<close> reports: nothing within the time limit, which of the two descriptors are ready, or an
  error. After an error the sets are as the call found them, with both descriptors in.
\<close>

datatype select_result = SelTimeout | SelReady bool bool | SelError

fun fd_isset :: "select_result \<Rightarrow> bool" where
  "fd_isset SelTimeout \<longleftrightarrow> False"
| "fd_isset (SelReady tty_ready pipe_ready) \<longleftrightarrow> tty_ready"
| "fd_isset SelError \<longleftrightarrow> True"

text \<open>\<open>None\<close>: the thread blocks in \<open>read\<close>.\<close>

definition worker_receive :: "u8 list \<Rightarrow> world \<Rightarrow> (ub + world) option" where
  "worker_receive stack w =
     (case conbee_init_frame (mem w) of
        Inl e \<Rightarrow> Some (Inl e)
      | Inr (frame, h) \<Rightarrow>
          map_option (\<lambda>r. bindE r (\<lambda>(retval, w).
              bindE (conbee_queue_push (mem w) (receive_queue (dev w)) frame) (\<lambda>(h, q).
              Inr (w\<lparr>mem := h, dev := (dev w)\<lparr>receive_queue := q\<rparr>\<rparr>))))
            (conbee_read_frame stack (w\<lparr>mem := h\<rparr>) frame))"

definition worker_transmit :: "u8 list \<Rightarrow> world \<Rightarrow> (ub + world) option" where
  "worker_transmit stack w =
     (if pipe_data w = [] then None
      else Some (let w = w\<lparr>pipe_data := drop 2 (pipe_data w)\<rparr>
        in bindE (conbee_queue_pop (mem w) (send_queue (dev w))) (\<lambda>(frame, h, q).
           let w = w\<lparr>mem := h, dev := (dev w)\<lparr>send_queue := q\<rparr>\<rparr>
           in if frame \<noteq> NULL
              then bindE (conbee_write_frame stack w frame) (\<lambda>(retval, w).
                   bindE (conbee_free_frame (mem w) frame) (\<lambda>h. Inr (w\<lparr>mem := h\<rparr>)))
              else Inr w)))"

text \<open>
  One turn of the loop: what the other threads and the stick have done since the last one, what
  \<open>select\<close> then reports, and what the two stack buffers hold.
\<close>

record turn =
  meanwhile :: "world \<Rightarrow> world"
  selected :: select_result
  read_stack :: "u8 list"
  write_stack :: "u8 list"

definition worker_turn :: "turn \<Rightarrow> world \<Rightarrow> (ub + world) option" where
  "worker_turn t w =
     (if selected t = SelTimeout then Some (Inr w)
      else if fd_isset (selected t) then worker_receive (read_stack t) w
      else worker_transmit (write_stack t) w)"

text \<open>\<open>while (!stop)\<close>, for as many turns as are given; when they run out the thread is still running.\<close>

fun worker_loop :: "turn list \<Rightarrow> bool \<Rightarrow> world \<Rightarrow> (ub + world) option" where
  "worker_loop ts True w = Some (Inr (w\<lparr>dev := (dev w)\<lparr>worker_running := 0\<rparr>\<rparr>))"
| "worker_loop [] False w = Some (Inr w)"
| "worker_loop (t # ts) False w =
     (let w = meanwhile t w;
          stop = (worker_stop (dev w) = 1)
      in Option.bind (worker_turn t w) (\<lambda>r.
           case r of Inl e \<Rightarrow> Some (Inl e) | Inr w \<Rightarrow> worker_loop ts stop w))"

definition conbee_send_receive :: "turn list \<Rightarrow> world \<Rightarrow> (ub + world) option" where
  "conbee_send_receive ts w = worker_loop ts False (w\<lparr>dev := (dev w)\<lparr>worker_running := 1\<rparr>\<rparr>)"

text \<open>What \<open>select\<close> reports of a world in which nothing else happens.\<close>

definition sys_select :: "world \<Rightarrow> select_result" where
  "sys_select w =
     (if tty_in w = [] \<and> pipe_data w = [] then SelTimeout
      else SelReady (tty_in w \<noteq> []) (pipe_data w \<noteq> []))"

subsection \<open>Receiving\<close>

lemma tty_feed_simps [simp]:
  "mem (tty_feed bs w) = mem w" "dev (tty_feed bs w) = dev w" "tty_out (tty_feed bs w) = tty_out w"
  "pipe_data (tty_feed bs w) = pipe_data w" "open_fds (tty_feed bs w) = open_fds w"
  "(tty_feed bs w)\<lparr>mem := h\<rparr> = tty_feed bs (w\<lparr>mem := h\<rparr>)"
  by (simp_all add: tty_feed_def)

definition blank_frame :: conbee_frame where
  "blank_frame = \<lparr>command = 0, sequence_number = 0, status = 0, frame_length = 0, payload_length = 0, payload = NULL\<rparr>"

text \<open>The heap once the worker has a new blank frame, and what stays the same in it.\<close>

definition blank_heap :: "heap \<Rightarrow> heap" where
  "blank_heap h = h\<lparr>brk := Suc (brk h), avail := avail h - 1, frames := (frames h)(brk h \<mapsto> blank_frame)\<rparr>"

lemma init_frame_blank: "0 < avail h \<Longrightarrow> heap_ok h \<Longrightarrow> conbee_init_frame h = Inr (brk h, blank_heap h)"
  by (simp add: conbee_init_frame_ok blank_heap_def blank_frame_def)

lemma blank_heap_simps [simp]:
  "brk (blank_heap h) = Suc (brk h)" "avail (blank_heap h) = avail h - 1" "items (blank_heap h) = items h"
  "blocks (blank_heap h) = blocks h" "frames (blank_heap h) = (frames h)(brk h \<mapsto> blank_frame)"
  "roomy (blank_heap h) = roomy h" "queue_at (blank_heap h) q as cs = queue_at h q as cs"
  by (simp_all add: blank_heap_def)

lemma blank_heap_ok: "heap_ok h \<Longrightarrow> heap_ok (blank_heap h)"
  unfolding blank_heap_def by (rule heap_ok_after_init)

lemma parsed_heap_simps [simp]:
  "brk (parsed_heap h a body) = Suc (brk h)" "avail (parsed_heap h a body) = avail h - 1"
  "items (parsed_heap h a body) = items h" "roomy (parsed_heap h a body) = roomy h"
  "blocks (parsed_heap h a body) = (blocks h)(brk h \<mapsto> drop 5 body)"
  "frames (parsed_heap h a body) = (frames h)(a \<mapsto> parsed_frame (brk h) body)"
  "queue_at (parsed_heap h a body) q as cs = queue_at h q as cs"
  by (simp_all add: parsed_heap_def)

lemma parsed_heap_ok: "heap_ok h \<Longrightarrow> frames h a = Some fr \<Longrightarrow> heap_ok (parsed_heap h a body)"
  using heap_ok_live(1) [of h a fr] heap_ok_brk [of h]
  by (rule_tac heap_okI [of h]) (auto simp: live_def split: if_splits)

text \<open>Pushing a received frame, on a heap that holds both queues.\<close>

lemma push_received:
  assumes q: "queues w cs ds" and h: "0 < avail (mem w)"
  obtains h' q' where "conbee_queue_push (mem w) (receive_queue (dev w)) f = Inr (h', q')"
    and "queues (w\<lparr>mem := h', dev := (dev w)\<lparr>receive_queue := q'\<rparr>\<rparr>) cs (ds @ [f])"
    and "frames h' = frames (mem w)" "blocks h' = blocks (mem w)" "avail h' = avail (mem w) - 1"
    and "ds = [] \<Longrightarrow> \<exists>a. queue_at h' q' [a] [f] \<and> linked_at h' q' [a]"
    and "dom (items h') = insert (brk (mem w)) (dom (items (mem w)))" "ds = [] \<Longrightarrow> head q' = brk (mem w)"
proof -
  obtain as bs where as: "queue_at (mem w) (send_queue (dev w)) as cs" "queue_at (mem w) (receive_queue (dev w)) bs ds"
      "set as \<inter> set bs = {}" and ok: "roomy (mem w)" "heap_ok (mem w)"
    using q by (auto simp: queues_def)
  obtain h' q' where push: "conbee_queue_push (mem w) (receive_queue (dev w)) f = Inr (h', q')"
      "queue_at h' q' (bs @ [brk (mem w)]) (ds @ [f])" "heap_ok h'"
      "items_only (insert (brk (mem w)) (set bs)) (mem w) h'" "brk h' = Suc (brk (mem w))"
      "avail h' = avail (mem w) - 1"
    by (rule conbee_queue_push_ok [OF ok(1) h ok(2) as(2), of f])
  have "brk (mem w) \<notin> set as" using queue_at_fresh [OF as(1) ok(2)] .
  then have bs: "queue_at h' (send_queue (dev w)) as cs" "set as \<inter> set (bs @ [brk (mem w)]) = {}"
    using queue_at_items_only [OF _ push(4), of "send_queue (dev w)" as cs] as by auto
  have "roomy h'" using items_only_roomy [OF push(4)] ok by simp
  then have "queues (w\<lparr>mem := h', dev := (dev w)\<lparr>receive_queue := q'\<rparr>\<rparr>) cs (ds @ [f])"
    unfolding queues_def using push(2,3) bs
    by (intro conjI exI [of _ as] exI [of _ "bs @ [brk (mem w)]"]) simp_all
  moreover have "\<exists>a. queue_at h' q' [a] [f] \<and> linked_at h' q' [a]" if "ds = []"
  proof -
    have "bs = []" "linked_at (mem w) (receive_queue (dev w)) bs" using as(2) that by (simp_all add: linked_at_def)
    then show ?thesis
      using push(2) that conbee_queue_push_linked [OF ok(1) h ok(2) as(2) _ push(1)] by auto
  qed
  moreover have "dom (items h') = insert (brk (mem w)) (dom (items (mem w)))"
    by (rule conbee_queue_push_items [OF as(2) push(2,4)])
  moreover have "ds = [] \<Longrightarrow> head q' = brk (mem w)" using queue_at_single [of "mem w" "receive_queue (dev w)" bs h' q'] as(2) push(2) by simp
  ultimately show ?thesis using push by (intro that [of h' q']) (simp_all add: items_only_def)
qed

lemma queues_mem:
  assumes "queues w cs ds" "roomy h = roomy (mem w)" "heap_ok h"
    and "\<And>q as xs. queue_at h q as xs = queue_at (mem w) q as xs"
  shows "queues (w\<lparr>mem := h\<rparr>) cs ds"
  using assms by (simp add: queues_def)

lemma queues_feed [simp]: "queues (tty_feed bs w) cs ds = queues w cs ds"
  by (simp add: queues_def)

lemma worker_receive_ok:
  assumes w: "connected w" "length stack = 1500" "5 \<le> length body" "length body \<le> 1498" "3 \<le> avail (mem w)"
    and q: "queues w cs ds"
  obtains w' where "worker_receive stack (tty_feed (slip_encode (packet_of body) @ rest) w) = Some (Inr w')"
    and "queues w' cs (ds @ [brk (mem w)])"
    and "frame_is (mem w') (brk (mem w)) (parsed_frame (Suc (brk (mem w))) body) (drop 5 body)"
    and "tty_in w' = map Data rest @ tty_in w" "tty_out w' = tty_out w" "pipe_data w' = pipe_data w"
    and "ds = [] \<Longrightarrow> \<exists>a. queue_at (mem w') (receive_queue (dev w')) [a] [brk (mem w)] \<and>
           linked_at (mem w') (receive_queue (dev w')) [a]"
    and "dom (frames (mem w')) = insert (brk (mem w)) (dom (frames (mem w)))"
    and "\<exists>q'. dev w' = (dev w)\<lparr>receive_queue := q'\<rparr>" "write_faults w' = write_faults w"
    and "frames (mem w') = (frames (mem w))(brk (mem w) \<mapsto> parsed_frame (Suc (brk (mem w))) body)"
    and "dom (blocks (mem w')) = insert (Suc (brk (mem w))) (dom (blocks (mem w)))"
    and "dom (items (mem w')) = insert (Suc (Suc (brk (mem w)))) (dom (items (mem w)))"
    and "ds = [] \<Longrightarrow> head (receive_queue (dev w')) = Suc (Suc (brk (mem w)))"
proof -
  have ok: "heap_ok (mem w)" using q by (simp add: queues_def)
  let ?h = "blank_heap (mem w)" and ?a = "brk (mem w)"
  let ?w = "tty_feed rest (w\<lparr>mem := parsed_heap ?h ?a body\<rparr>)"
  have okb: "heap_ok ?h" "frames ?h ?a = Some blank_frame" by (simp_all add: blank_heap_ok ok)
  have read: "conbee_read_frame stack (tty_feed (slip_encode (packet_of body) @ rest) (w\<lparr>mem := ?h\<rparr>)) ?a =
      Some (Inr (int (length body + 2), ?w))"
    using conbee_read_frame_ok [of "w\<lparr>mem := ?h\<rparr>" stack body ?a blank_frame rest] w okb by simp
  have "queues (w\<lparr>mem := parsed_heap ?h ?a body\<rparr>) cs ds"
    by (rule queues_mem [OF q]) (simp_all add: parsed_heap_ok [OF okb])
  then have "queues ?w cs ds" by simp
  moreover have "0 < avail (mem ?w)" using w(5) by simp
  ultimately obtain h' q' where push: "conbee_queue_push (mem ?w) (receive_queue (dev ?w)) ?a = Inr (h', q')"
      "queues (?w\<lparr>mem := h', dev := (dev ?w)\<lparr>receive_queue := q'\<rparr>\<rparr>) cs (ds @ [?a])"
      "frames h' = frames (mem ?w)" "blocks h' = blocks (mem ?w)"
      "ds = [] \<Longrightarrow> \<exists>a. queue_at h' q' [a] [?a] \<and> linked_at h' q' [a]"
      "dom (items h') = insert (brk (mem ?w)) (dom (items (mem ?w)))" "ds = [] \<Longrightarrow> head q' = brk (mem ?w)"
    by (rule push_received [where f = ?a]) blast
  show ?thesis
  proof (rule that [OF _ push(2)])
    show "worker_receive stack (tty_feed (slip_encode (packet_of body) @ rest) w) =
        Some (Inr (?w\<lparr>mem := h', dev := (dev ?w)\<lparr>receive_queue := q'\<rparr>\<rparr>))"
      using read push(1) w(5) ok by (simp add: worker_receive_def init_frame_blank)
    show "frame_is (mem (?w\<lparr>mem := h', dev := (dev ?w)\<lparr>receive_queue := q'\<rparr>\<rparr>)) ?a
        (parsed_frame (Suc ?a) body) (drop 5 body)"
      using parsed_heap_is [OF okb, of body] push(3,4)
      by (subst frame_is_cong [where h = "parsed_heap ?h ?a body"]) simp_all
    show "dom (frames (mem (?w\<lparr>mem := h', dev := (dev ?w)\<lparr>receive_queue := q'\<rparr>\<rparr>))) = insert ?a (dom (frames (mem w)))"
      using push(3) by simp
    show "\<exists>q. dev (?w\<lparr>mem := h', dev := (dev ?w)\<lparr>receive_queue := q'\<rparr>\<rparr>) = (dev w)\<lparr>receive_queue := q\<rparr>"
      by (intro exI [of _ q']) (simp add: tty_feed_def)
    show "dom (blocks (mem (?w\<lparr>mem := h', dev := (dev ?w)\<lparr>receive_queue := q'\<rparr>\<rparr>))) = insert (Suc ?a) (dom (blocks (mem w)))"
      using push(4) by simp
  qed (use push(3,5-7) in \<open>simp_all add: tty_feed_def\<close>)
qed

subsection \<open>Transmitting\<close>

text \<open>A frame that goes out as the bytes \<open>out\<close>, whatever the stack holds.\<close>

definition sends_as :: "conbee_frame \<Rightarrow> u8 list \<Rightarrow> u8 list \<Rightarrow> bool" where
  "sends_as fr bs out \<longleftrightarrow> unat (payload_length fr) = length bs \<and> length bs \<le> 993 \<and>
     unat (frame_length fr) \<le> 998 \<and> unat (frame_length fr) \<le> length (frame_bytes fr bs) \<and>
     out = take (unat (frame_length fr)) (frame_bytes fr bs)"

text \<open>The frames of a send queue, each with the bytes it goes out as, no two sharing a block.\<close>

fun outgoing :: "heap \<Rightarrow> addr list \<Rightarrow> u8 list list \<Rightarrow> bool" where
  "outgoing h [] [] \<longleftrightarrow> True"
| "outgoing h (c # cs) (out # outs) \<longleftrightarrow>
     (\<exists>fr bs. frame_is h c fr bs \<and> sends_as fr bs out \<and>
        (\<forall>c'\<in>set cs. c' \<noteq> c \<and> (\<forall>fr'. frames h c' = Some fr' \<longrightarrow> payload fr' = NULL \<or> payload fr' \<noteq> payload fr))) \<and>
     outgoing h cs outs"
| "outgoing h _ _ \<longleftrightarrow> False"

lemma outgoing_cong:
  assumes "outgoing h cs outs" "\<And>c. c \<in> set cs \<Longrightarrow> frames h' c = frames h c"
    and "\<And>c fr. c \<in> set cs \<Longrightarrow> frames h c = Some fr \<Longrightarrow> payload fr \<noteq> NULL \<Longrightarrow> blocks h' (payload fr) = blocks h (payload fr)"
  shows "outgoing h' cs outs"
  using assms
proof (induction h cs outs rule: outgoing.induct)
  case (2 h c cs out outs)
  then obtain fr bs where fr: "frame_is h c fr bs" "sends_as fr bs out"
    "\<forall>c'\<in>set cs. c' \<noteq> c \<and> (\<forall>fr'. frames h c' = Some fr' \<longrightarrow> payload fr' = NULL \<or> payload fr' \<noteq> payload fr)"
    by auto
  have "frame_is h' c fr bs"
    using fr(1) 2(3) [of c] 2(4) [of c fr] by (auto simp: frame_is_def)
  moreover have "outgoing h' cs outs" using 2 by auto
  moreover have "\<forall>c'\<in>set cs. c' \<noteq> c \<and> (\<forall>fr'. frames h' c' = Some fr' \<longrightarrow> payload fr' = NULL \<or> payload fr' \<noteq> payload fr)"
    using fr(3) 2(3) by simp
  ultimately show ?case using fr(2) by auto
qed simp_all

lemma queue_at_without_frame [simp]: "queue_at (without_frame h c p) q as cs = queue_at h q as cs"
  by (simp add: queue_at_def)

lemma tty_emit_simps [simp]:
  "mem (tty_emit w bs) = mem w" "dev (tty_emit w bs) = dev w" "tty_in (tty_emit w bs) = tty_in w"
  "tty_out (tty_emit w bs) = tty_out w @ bs" "pipe_data (tty_emit w bs) = pipe_data w"
  "open_fds (tty_emit w bs) = open_fds w"
  by (simp_all add: tty_emit_def)

lemma sends_ok_dev [simp]: "sends_ok (w\<lparr>dev := (dev w)\<lparr>send_queue := q\<rparr>\<rparr>) = sends_ok w"
  "sends_ok (w\<lparr>dev := (dev w)\<lparr>receive_queue := q\<rparr>\<rparr>) = sends_ok w"
  by (simp_all add: sends_ok_def connected_def)

lemma worker_transmit_ok:
  assumes w: "sends_ok w" "length stack = 1000" "pipe_data w \<noteq> []" and q: "queues w (c # cs) ds"
    and fr: "frame_is (mem w) c fr bs" "sends_as fr bs out"
  obtains w' where "worker_transmit stack w = Some (Inr w')" "queues w' cs ds" "sends_ok w'"
    and "tty_out w' = tty_out w @ slip_encode (packet_of out)" "pipe_data w' = drop 2 (pipe_data w)"
    and "frames (mem w') = (frames (mem w))(c := None)" "tty_in w' = tty_in w"
    and "blocks (mem w') = (if payload fr = NULL then blocks (mem w) else (blocks (mem w))(payload fr := None))"
    and "\<exists>q'. dev w' = (dev w)\<lparr>send_queue := q'\<rparr>" "avail (mem w) \<le> avail (mem w')"
    and "dom (items (mem w')) = dom (items (mem w)) - {head (send_queue (dev w))}"
proof -
  obtain as bs' where as: "queue_at (mem w) (send_queue (dev w)) as (c # cs)"
      "queue_at (mem w) (receive_queue (dev w)) bs' ds" "set as \<inter> set bs' = {}" and ok: "roomy (mem w)" "heap_ok (mem w)"
    using q by (auto simp: queues_def)
  then obtain a as' where a: "as = a # as'" by (auto elim: queue_at_Cons)
  obtain h1 q1 where pop: "conbee_queue_pop (mem w) (send_queue (dev w)) = Inr (c, h1, q1)" "queue_at h1 q1 as' cs"
      "heap_ok h1" "items_only {a} (mem w) h1" "brk h1 = brk (mem w)" "avail h1 = Suc (avail (mem w))"
    by (rule conbee_queue_pop_ok [OF ok as(1) [unfolded a]])
  have h1: "frames h1 = frames (mem w)" "blocks h1 = blocks (mem w)" "roomy h1"
    using pop(4) items_only_roomy [OF pop(4)] ok by (simp_all add: items_only_def)
  have recv: "queue_at h1 (receive_queue (dev w)) bs' ds"
    using queue_at_items_only [OF as(2) pop(4)] as(3) a by auto
  let ?fr = "fr\<lparr>status := 0\<rparr>"
  let ?h2 = "h1\<lparr>frames := (frames h1)(c \<mapsto> ?fr)\<rparr>"
  let ?w1 = "w\<lparr>pipe_data := drop 2 (pipe_data w), mem := h1, dev := (dev w)\<lparr>send_queue := q1\<rparr>\<rparr>"
  let ?w2 = "tty_emit (?w1\<lparr>mem := ?h2\<rparr>) (slip_encode (packet_of out))"
  let ?w3 = "?w2\<lparr>mem := without_frame ?h2 c (payload fr)\<rparr>"
  have fr1: "frame_is h1 c fr bs" using fr(1) h1 by (simp add: frame_is_def)
  have ok1: "sends_ok ?w1" using w(1) by (simp add: sends_ok_def connected_def)
  have c: "c \<noteq> NULL" using fr(1) by (simp add: frame_is_def)
  have "sent_bytes stack fr bs = out"
    using fr(2) by (simp add: sends_as_def sent_bytes_cut)
  then have wr: "conbee_write_frame stack ?w1 c = Inr (0, ?w2)"
    using conbee_write_frame_sends [OF ok1 w(2), of c fr bs] fr1 fr(2) by (simp add: sends_as_def)
  have "frame_is ?h2 c ?fr bs" using frame_is_update [OF fr1, of "\<lambda>f. f\<lparr>status := 0\<rparr>"] by simp
  then have free: "conbee_free_frame ?h2 c = Inr (without_frame ?h2 c (payload fr))"
    using conbee_free_frame_ok [of ?h2 c ?fr bs] by simp
  show ?thesis
  proof (rule that [of ?w3])
    show "worker_transmit stack w = Some (Inr ?w3)"
      using w(3) pop(1) wr free c by (simp add: worker_transmit_def Let_def)
    have "heap_ok ?h2" using fr1 heap_ok_update_frame [OF pop(3)] by (simp add: frame_is_def)
    then have "heap_ok (without_frame ?h2 c (payload fr))" by (rule without_frame_ok)
    moreover have "roomy (without_frame ?h2 c (payload fr))" using h1(3) by (simp add: roomy_def)
    ultimately show "queues ?w3 cs ds"
      unfolding queues_def using pop(2) recv as(3) a by (intro conjI exI [of _ as'] exI [of _ bs']) auto
    show "sends_ok ?w3" using ok1 by (simp add: sends_ok_def connected_def tty_emit_def)
    show "blocks (mem ?w3) = (if payload fr = NULL then blocks (mem w) else (blocks (mem w))(payload fr := None))"
      using h1(2) by (simp add: without_frame_def)
    show "dom (items (mem ?w3)) = dom (items (mem w)) - {head (send_queue (dev w))}"
      using conbee_queue_pop_items [OF ok as(1) [unfolded a] pop(1)] as(1) a by (simp add: queue_at_def)
  qed (use h1(1) pop(6) in auto)
qed

text \<open>Turns in which only the pipe is ready and nothing else happens.\<close>

definition sending_turns :: "u8 list list \<Rightarrow> turn list" where
  "sending_turns = map (\<lambda>st. \<lparr>meanwhile = \<lambda>w. w, selected = SelReady False True, read_stack = [], write_stack = st\<rparr>)"

lemma worker_loop_sends:
  assumes "sends_ok w" "queues w cs ds" "outgoing (mem w) cs outs" "length (pipe_data w) = 2 * length cs"
    and "worker_stop (dev w) \<noteq> 1" "length stacks = length cs" "\<forall>st\<in>set stacks. length st = 1000"
  shows "\<exists>w'. worker_loop (sending_turns stacks) False w = Some (Inr w') \<and> queues w' [] ds \<and>
     tty_out w' = tty_out w @ concat (map (\<lambda>out. slip_encode (packet_of out)) outs) \<and> pipe_data w' = [] \<and>
     (\<forall>x. frames (mem w') x = (if x \<in> set cs then None else frames (mem w) x))"
  using assms
proof (induction cs arbitrary: w outs stacks)
  case Nil
  then have "outs = []" by (cases outs) simp_all
  with Nil show ?case by (simp add: sending_turns_def)
next
  case (Cons c cs)
  from Cons.prems(3) obtain out outs' where outs: "outs = out # outs'" by (cases outs) simp_all
  with Cons.prems(3) obtain fr bs where fr: "frame_is (mem w) c fr bs" "sends_as fr bs out"
    "\<forall>c'\<in>set cs. c' \<noteq> c \<and> (\<forall>fr'. frames (mem w) c' = Some fr' \<longrightarrow> payload fr' = NULL \<or> payload fr' \<noteq> payload fr)"
    and rest: "outgoing (mem w) cs outs'" by auto
  from Cons.prems(6) obtain st sts where st: "stacks = st # sts" by (cases stacks) simp_all
  have len: "length st = 1000" "pipe_data w \<noteq> []" using Cons.prems(4,7) st by auto
  obtain w' q' where w': "worker_transmit st w = Some (Inr w')" "queues w' cs ds" "sends_ok w'"
      "tty_out w' = tty_out w @ slip_encode (packet_of out)" "pipe_data w' = drop 2 (pipe_data w)"
      "frames (mem w') = (frames (mem w))(c := None)"
      "blocks (mem w') = (if payload fr = NULL then blocks (mem w) else (blocks (mem w))(payload fr := None))"
      "dev w' = (dev w)\<lparr>send_queue := q'\<rparr>"
    using worker_transmit_ok [OF Cons.prems(1) len Cons.prems(2) fr(1,2)] by metis
  have "outgoing (mem w') cs outs'"
    by (rule outgoing_cong [OF rest]) (use fr(3) w'(6,7) in auto)
  moreover have "length (pipe_data w') = 2 * length cs" using w'(5) Cons.prems(4) by simp
  moreover have "worker_stop (dev w') \<noteq> 1" using w'(8) Cons.prems(5) by simp
  moreover have "length sts = length cs" "\<forall>st\<in>set sts. length st = 1000" using Cons.prems(6,7) st by simp_all
  ultimately obtain v where v: "worker_loop (sending_turns sts) False w' = Some (Inr v)" "queues v [] ds"
      "tty_out v = tty_out w' @ concat (map (\<lambda>out. slip_encode (packet_of out)) outs')" "pipe_data v = []"
      "\<forall>x. frames (mem v) x = (if x \<in> set cs then None else frames (mem w') x)"
    using Cons.IH [OF w'(3,2), of outs' sts] by blast
  have "worker_loop (sending_turns stacks) False w = Some (Inr v)"
    using w'(1) v(1) Cons.prems(5) by (simp add: st sending_turns_def worker_turn_def)
  then show ?case using v w'(4,6) outs by (intro exI [of _ v]) auto
qed

subsection \<open>From a request to the line\<close>

text \<open>Building a request and enqueueing it, and a list of them.\<close>

definition submit :: "world \<Rightarrow> request \<Rightarrow> ub + int \<times> world" where
  "submit w req = bindE (build_request req (mem w)) (\<lambda>(frame, h). conbee_enqueue_frame (w\<lparr>mem := h\<rparr>) frame)"

fun submit_all :: "world \<Rightarrow> request list \<Rightarrow> ub + int list \<times> world" where
  "submit_all w [] = Inr ([], w)"
| "submit_all w (req # reqs) =
     bindE (submit w req) (\<lambda>(s, w). bindE (submit_all w reqs) (\<lambda>(ss, w). Inr (s # ss, w)))"

lemma outgoing_snoc:
  assumes "outgoing h cs outs" "frame_is h c fr bs" "sends_as fr bs out"
    and "\<And>c' fr'. c' \<in> set cs \<Longrightarrow> frames h c' = Some fr' \<Longrightarrow> c' \<noteq> c \<and> (payload fr = NULL \<or> payload fr \<noteq> payload fr')"
  shows "outgoing h (cs @ [c]) (outs @ [out])"
  using assms
proof (induction h cs outs rule: outgoing.induct)
  case (1 h)
  then show ?case by auto
next
  case (2 h x cs o1 outs)
  from 2(2) obtain fx bx where x: "frame_is h x fx bx" "sends_as fx bx o1"
    "\<forall>c'\<in>set cs. c' \<noteq> x \<and> (\<forall>fr'. frames h c' = Some fr' \<longrightarrow> payload fr' = NULL \<or> payload fr' \<noteq> payload fx)"
    by auto
  have "frames h x = Some fx" "frames h c = Some fr" using x(1) 2(3) by (simp_all add: frame_is_def)
  then have "\<forall>c'\<in>set (cs @ [c]). c' \<noteq> x \<and> (\<forall>fr'. frames h c' = Some fr' \<longrightarrow> payload fr' = NULL \<or> payload fr' \<noteq> payload fx)"
    using x(3) 2(5) [of x fx] by auto
  moreover have "outgoing h (cs @ [c]) (outs @ [out])" using 2 by auto
  ultimately show ?case unfolding append_Cons outgoing.simps using x(1,2) by blast
qed simp_all

lemma outgoing_live: "outgoing h cs outs \<Longrightarrow> c \<in> set cs \<Longrightarrow> \<exists>fr bs. frame_is h c fr bs"
  by (induction h cs outs rule: outgoing.induct) auto

lemma request_sends_as:
  assumes "request_fits req"
  shows "sends_as ((request_header req)\<lparr>payload := p, sequence_number := s\<rparr>) (request_payload req) (request_body req s)"
proof -
  let ?fr = "(request_header req)\<lparr>payload := p, sequence_number := s\<rparr>"
  have "unat (frame_length ?fr) \<le> length (frame_bytes ?fr (request_payload req))"
    using assms by (cases req) (simp_all add: request_frame_def frame_bytes_def unat_of_nat16 word_unat_eq_iff
        del: of_nat_Suc of_nat_add)
  moreover from this have "request_body req s = take (unat (frame_length ?fr)) (frame_bytes ?fr (request_payload req))"
    using request_sent_bytes [OF assms, of "[]" s p] sent_bytes_cut by metis
  ultimately show ?thesis
    using assms request_payload_length [of req] request_frame_length [of req] request_payload_small [of req]
    by (simp add: sends_as_def)
qed

lemma request_heap_simps [simp]:
  "items (request_heap req h) = items h" "roomy (request_heap req h) = roomy h"
  "queue_at (request_heap req h) q as cs = queue_at h q as cs"
  by (simp_all add: request_heap_def roomy_def queue_at_def)

lemma request_heap_avail: "avail h - 2 \<le> avail (request_heap req h)"
  by (cases "req = ReadFirmware") (simp_all add: request_heap_def diff_le_mono2)

lemma request_heap_other:
  "a \<noteq> brk h \<Longrightarrow> frames (request_heap req h) a = frames h a"
  "p < brk h \<Longrightarrow> blocks (request_heap req h) p = blocks h p"
  by (simp_all add: request_heap_def with_frame_def)

text \<open>What a new frame at \<open>c\<close> has added to the payloads: its own, if it has one.\<close>

definition payload_added :: "heap \<Rightarrow> heap \<Rightarrow> addr \<Rightarrow> bool" where
  "payload_added h h' c \<longleftrightarrow> (\<exists>fr. frames h' c = Some fr \<and>
     (if payload fr = NULL then dom (blocks h') = dom (blocks h)
      else payload fr \<notin> dom (blocks h) \<and> dom (blocks h') = insert (payload fr) (dom (blocks h))))"

lemma submit_ok:
  assumes q: "queues w cs ds" "outgoing (mem w) cs outs" and h: "3 \<le> avail (mem w)" "request_fits req"
  obtains w' c where "submit w req = Inr (int (unat (next_sequence (dev w))), w')"
    and "queues w' (cs @ [c]) ds" "outgoing (mem w') (cs @ [c]) (outs @ [request_body req (next_sequence (dev w))])"
    and "pipe_data w' = pipe_data w @ [0, 0]" "tty_out w' = tty_out w" "sends_ok w' = sends_ok w"
    and "avail (mem w) - 3 \<le> avail (mem w')" "next_sequence (dev w') = next_sequence (dev w) + 1"
    and "worker_stop (dev w') = worker_stop (dev w)" "tty_in w' = tty_in w"
    and "c \<notin> dom (frames (mem w))" "dom (frames (mem w')) = insert c (dom (frames (mem w)))"
    and "worker_running (dev w') = worker_running (dev w)"
    and "payload_added (mem w) (mem w') c" "\<And>x. x \<noteq> c \<Longrightarrow> frames (mem w') x = frames (mem w) x"
    and "cs = [] \<Longrightarrow> head (send_queue (dev w')) \<notin> dom (items (mem w)) \<and>
           dom (items (mem w')) = insert (head (send_queue (dev w'))) (dom (items (mem w)))"
proof -
  let ?s = "next_sequence (dev w)" and ?a = "brk (mem w)" and ?w = "w\<lparr>mem := request_heap req (mem w)\<rparr>"
  let ?fr = "(request_header req)\<lparr>payload := request_pointer req (mem w), sequence_number := ?s\<rparr>"
  have ok: "heap_ok (mem w)" using q(1) by (simp add: queues_def)
  have fr: "frame_is (request_heap req (mem w)) ?a ((request_header req)\<lparr>payload := request_pointer req (mem w)\<rparr>) (request_payload req)"
    by (rule request_heap_is [OF ok])
  have qw: "queues ?w cs ds" by (rule queues_mem [OF q(1)]) (simp_all add: request_heap_ok [OF ok])
  have av: "0 < avail (mem ?w)"
    using h(1) request_heap_avail [of "mem w" req] by simp
  have frs: "frames (mem ?w) ?a = Some ((request_header req)\<lparr>payload := request_pointer req (mem w)\<rparr>)"
    using fr by (simp add: frame_is_def)
  obtain h' q' where enq: "conbee_enqueue_frame ?w ?a = Inr (int (unat (next_sequence (dev ?w))),
      ?w\<lparr>mem := h', dev := (dev ?w)\<lparr>next_sequence := next_sequence (dev ?w) + 1, send_queue := q'\<rparr>,
        pipe_data := pipe_data ?w @ [0, 0]\<rparr>)"
    "queues (?w\<lparr>mem := h', dev := (dev ?w)\<lparr>next_sequence := next_sequence (dev ?w) + 1, send_queue := q'\<rparr>,
        pipe_data := pipe_data ?w @ [0, 0]\<rparr>) (cs @ [?a]) ds"
    "frames h' = (frames (mem ?w))(?a \<mapsto> (request_header req)\<lparr>payload := request_pointer req (mem w)\<rparr>
        \<lparr>sequence_number := next_sequence (dev ?w)\<rparr>)" "blocks h' = blocks (mem ?w)" "avail h' = avail (mem ?w) - 1"
    "dom (items h') = insert (brk (mem ?w)) (dom (items (mem ?w)))" "cs = [] \<Longrightarrow> head q' = brk (mem ?w)"
    by (rule conbee_enqueue_frame_ok [OF qw av frs]) blast
  let ?w' = "?w\<lparr>mem := h', dev := (dev w)\<lparr>next_sequence := ?s + 1, send_queue := q'\<rparr>, pipe_data := pipe_data w @ [0, 0]\<rparr>"
  have old: "c < ?a \<and> payload f < ?a" if c: "c \<in> set cs" "frames (mem w) c = Some f" for c f
  proof -
    obtain f' bs where "frame_is (mem w) c f' bs" using outgoing_live [OF q(2) c(1)] by blast
    then show ?thesis using c(2) heap_ok_live(1,2) [OF ok] heap_ok_brk [OF ok]
      by (auto simp: frame_is_def split: if_splits)
  qed
  have live: "\<exists>f. frames (mem w) c = Some f" if "c \<in> set cs" for c
    using outgoing_live [OF q(2) that] by (auto simp: frame_is_def)
  have same: "frames h' c = frames (mem w) c" if "c \<in> set cs" for c
    using old live that enq(3) request_heap_other(1) [of c "mem w" req] by fastforce
  have og: "outgoing h' cs outs"
    by (rule outgoing_cong [OF q(2) same]) (use old enq(4) in \<open>auto simp: request_heap_other\<close>)
  have nf: "frame_is h' ?a ?fr (request_payload req)"
    using fr enq(3,4) by (auto simp: frame_is_def split: if_splits)
  have sep: "c' \<noteq> ?a \<and> (payload ?fr = NULL \<or> payload ?fr \<noteq> payload f)"
    if "c' \<in> set cs" "frames h' c' = Some f" for c' f
    using old [of c' f] same [of c'] that by (auto simp: request_pointer_def)
  have "outgoing h' (cs @ [?a]) (outs @ [request_body req ?s])"
    by (rule outgoing_snoc [OF og nf request_sends_as [OF h(2)] sep])
  moreover have "submit w req = Inr (int (unat ?s), ?w')"
    using h ok build_request_eq [of "mem w" req] enq(1) by (simp add: submit_def)
  moreover have "avail (mem w) - 3 \<le> avail h'"
    using enq(5) request_heap_avail [of "mem w" req] by simp
  moreover have "?a \<notin> dom (frames (mem w))" using heap_ok_fresh(1) [OF ok] by auto
  moreover have "dom (frames (request_heap req (mem w))) = insert ?a (dom (frames (mem w)))"
    by (simp add: request_heap_def with_frame_def)
  then have "dom (frames h') = insert ?a (dom (frames (mem w)))" using enq(3) by simp
  moreover have "payload_added (mem w) h' ?a"
    using enq(3,4) heap_ok_fresh(2) [OF ok, of "Suc ?a"] heap_ok_brk [OF ok]
    by (auto simp: payload_added_def request_pointer_def request_heap_def with_frame_def)
  moreover have "frames h' x = frames (mem w) x" if "x \<noteq> ?a" for x
    using enq(3) that request_heap_other(1) [of x "mem w" req] by simp
  moreover have "head q' \<notin> dom (items (mem w)) \<and> dom (items h') = insert (head q') (dom (items (mem w)))" if "cs = []"
    using enq(6,7) that heap_ok_fresh(3) [OF request_heap_ok [OF ok, of req], of "brk (request_heap req (mem w))"] by auto
  ultimately show ?thesis
    using enq(2) by (intro that [of ?w' ?a]) (simp_all add: sends_ok_def connected_def)
qed

text \<open>The bytes of consecutive requests, numbered from \<open>s\<close>.\<close>

fun bodies :: "u8 \<Rightarrow> request list \<Rightarrow> u8 list list" where
  "bodies s [] = []"
| "bodies s (req # reqs) = request_body req s # bodies (s + 1) reqs"

lemma submit_all_ok:
  assumes "queues w cs ds" "outgoing (mem w) cs outs" "3 * length reqs \<le> avail (mem w)" "\<forall>req\<in>set reqs. request_fits req"
  shows "\<exists>ss w' cs'. submit_all w reqs = Inr (ss, w') \<and> queues w' (cs @ cs') ds \<and>
     outgoing (mem w') (cs @ cs')
       (outs @ bodies (next_sequence (dev w)) reqs) \<and>
     length (pipe_data w') = length (pipe_data w) + 2 * length reqs \<and> length cs' = length reqs \<and>
     tty_out w' = tty_out w \<and> sends_ok w' = sends_ok w \<and> worker_stop (dev w') = worker_stop (dev w)"
  using assms
proof (induction reqs arbitrary: w cs outs)
  case Nil
  then show ?case by simp
next
  case (Cons req reqs)
  let ?s = "next_sequence (dev w)"
  have h: "3 \<le> avail (mem w)" "request_fits req" using Cons.prems(3,4) by simp_all
  obtain w1 c where 1: "submit w req = Inr (int (unat ?s), w1)" "queues w1 (cs @ [c]) ds"
    "outgoing (mem w1) (cs @ [c]) (outs @ [request_body req ?s])" "pipe_data w1 = pipe_data w @ [0, 0]"
    "tty_out w1 = tty_out w" "sends_ok w1 = sends_ok w" "avail (mem w) - 3 \<le> avail (mem w1)"
    "next_sequence (dev w1) = ?s + 1" "worker_stop (dev w1) = worker_stop (dev w)"
    by (rule submit_ok [OF Cons.prems(1,2) h]) blast
  have "3 * length reqs \<le> avail (mem w1)" "\<forall>req\<in>set reqs. request_fits req"
    using Cons.prems(3,4) 1(7) by auto
  from Cons.IH [OF 1(2,3) this] obtain ss w2 cs2 where 2: "submit_all w1 reqs = Inr (ss, w2)"
    "queues w2 ((cs @ [c]) @ cs2) ds"
    "outgoing (mem w2) ((cs @ [c]) @ cs2) ((outs @ [request_body req ?s]) @
       bodies (next_sequence (dev w1)) reqs)"
    "length (pipe_data w2) = length (pipe_data w1) + 2 * length reqs" "length cs2 = length reqs"
    "tty_out w2 = tty_out w1" "sends_ok w2 = sends_ok w1" "worker_stop (dev w2) = worker_stop (dev w1)"
    by blast
  have "bodies ?s (req # reqs) = request_body req ?s # bodies (next_sequence (dev w1)) reqs"
    by (simp add: 1(8))
  then show ?case
    using 1 2 by (intro exI [of _ "int (unat ?s) # ss"] exI [of _ w2] exI [of _ "c # cs2"]) (simp del: of_nat_unat)
qed

text \<open>
  C2: requests handed to the transport go out once each and in order: after \<open>n\<close> requests have been
  built and enqueued, \<open>n\<close> turns of the worker with nothing else going on put the \<open>n\<close> packets on the line,
  the \<open>i\<close>-th with the \<open>i\<close>-th next sequence number, whatever the stack of each call holds. The send queue
  and the pipe are empty then, the receive queue is as it was.
\<close>

theorem requests_sent_in_order:
  assumes "sends_ok w" "queues w [] ds" "pipe_data w = []" "worker_stop (dev w) \<noteq> 1"
    and "3 * length reqs \<le> avail (mem w)" "\<forall>req\<in>set reqs. request_fits req"
    and "length stacks = length reqs" "\<forall>st\<in>set stacks. length st = 1000"
  shows "\<exists>ss w1 w2. submit_all w reqs = Inr (ss, w1) \<and>
     worker_loop (sending_turns stacks) False w1 = Some (Inr w2) \<and>
     tty_out w2 = tty_out w @ concat (map (\<lambda>body. slip_encode (packet_of body)) (bodies (next_sequence (dev w)) reqs)) \<and>
     queues w2 [] ds \<and> pipe_data w2 = []"
proof -
  obtain ss w1 cs where 1: "submit_all w reqs = Inr (ss, w1)" "queues w1 cs ds"
    "outgoing (mem w1) cs (bodies (next_sequence (dev w)) reqs)"
    "length (pipe_data w1) = 2 * length reqs" "length cs = length reqs" "tty_out w1 = tty_out w"
    "sends_ok w1 = sends_ok w" "worker_stop (dev w1) = worker_stop (dev w)"
    using submit_all_ok [OF assms(2) _ assms(5,6), of "[]"] assms(3) by auto
  have "sends_ok w1" "length (pipe_data w1) = 2 * length cs" "worker_stop (dev w1) \<noteq> 1" "length stacks = length cs"
    using 1 assms(1,4,7) by simp_all
  from worker_loop_sends [OF this(1) 1(2,3) this(2,3,4) assms(8)] obtain w2 where
    "worker_loop (sending_turns stacks) False w1 = Some (Inr w2)" "queues w2 [] ds" "pipe_data w2 = []"
    "tty_out w2 = tty_out w1 @ concat (map (\<lambda>body. slip_encode (packet_of body))
       (bodies (next_sequence (dev w)) reqs))"
    by blast
  then show ?thesis using 1(1,6) by auto
qed

theorem requests_sent_in_order_witness:
  "\<exists>ss w1 w2. submit_all (idle_world 9) [NetworkLeave, ReadParameter 0x0E] = Inr (ss, w1) \<and>
     worker_loop (sending_turns [replicate 1000 0, replicate 1000 0xAA]) False w1 = Some (Inr w2) \<and>
     tty_out w2 = slip_encode (packet_of [0x08, 0, 0, 6, 0, 1]) @
       slip_encode (packet_of [0x0A, 1, 0, 8, 0, 1, 0, 0x0E]) \<and>
     queues w2 [] [] \<and> pipe_data w2 = []"
proof -
  have "queues (idle_world 9) [] []" "worker_stop (dev (idle_world 9)) \<noteq> 1" "pipe_data (idle_world 9) = []"
    "next_sequence (dev (idle_world 9)) = 0"
    by (simp_all add: queues_def idle_world_def roomy_def sizeof_ptr_def conbee_queue_init_def)
  then show ?thesis
    using requests_sent_in_order [of "idle_world 9" "[]" "[NetworkLeave, ReadParameter 0x0E]"
        "[replicate 1000 0, replicate 1000 0xAA]"] by simp
qed

text \<open>
  A packet that arrives while the worker waits ends up as one frame at the end of the receive queue,
  with the header and payload of the packet; the send queue, the pipe and the bytes that follow on the
  line are untouched.
\<close>

lemma worker_queues_received_frame:
  assumes "connected w" "length stack = 1500" "5 \<le> length body" "length body \<le> 1498" "3 \<le> avail (mem w)"
    and "queues w cs ds"
  shows "\<exists>w' f p. worker_receive stack (tty_feed (slip_encode (packet_of body) @ rest) w) = Some (Inr w') \<and>
     queues w' cs (ds @ [f]) \<and> frame_is (mem w') f (parsed_frame p body) (drop 5 body) \<and>
     tty_in w' = map Data rest @ tty_in w \<and> pipe_data w' = pipe_data w"
  by (rule worker_receive_ok [OF assms, of rest]) blast

text \<open>
  C35: the worker does not look at what \<open>conbee_read_frame\<close> returns. One damaged packet with an empty
  receive queue puts a frame of zeros there, and every call that then waits for a frame with another
  command or sequence number never returns.
\<close>

theorem damaged_packet_blocks_waiters:
  assumes "connected w" "length stack = 1500" "2 \<le> length pkt" "length pkt \<le> 1500" "\<not> (\<exists>body. pkt = packet_of body)"
    and "2 \<le> avail (mem w)" "queues w cs []" "seqn \<noteq> 0 \<or> cmd \<notin> {0, COMMAND_ANY}"
  shows "\<exists>w'. worker_receive stack (tty_feed (slip_encode pkt @ rest) w) = Some (Inr w') \<and>
     conbee_wait_for_frame cond_wait w' seqn cmd = None"
proof -
  have ok: "heap_ok (mem w)" using assms(7) by (simp add: queues_def)
  let ?h = "blank_heap (mem w)" and ?a = "brk (mem w)"
  let ?w = "tty_feed rest (w\<lparr>mem := ?h\<rparr>)"
  have okb: "heap_ok ?h" "frames ?h ?a = Some blank_frame" by (simp_all add: blank_heap_ok ok)
  have "conbee_parse_packet (int (length pkt)) (pkt @ drop (length pkt) stack) ?w ?a = Inr (-2, ?w)"
    using conbee_parse_packet_bad_crc [OF assms(3,4)] packet_of_iff [OF assms(3)] assms(5) by blast
  then have read: "conbee_read_frame stack (tty_feed (slip_encode pkt @ rest) (w\<lparr>mem := ?h\<rparr>)) ?a = Some (Inr (-2, ?w))"
    using conbee_read_frame_packet [of "w\<lparr>mem := ?h\<rparr>" pkt stack rest ?a] assms(1-4) by fastforce
  have "queues (w\<lparr>mem := ?h\<rparr>) cs []"
    by (rule queues_mem [OF assms(7)]) (simp_all add: okb(1))
  then have "queues ?w cs []" by simp
  moreover have "0 < avail (mem ?w)" using assms(6) by simp
  ultimately obtain h' q' where push: "conbee_queue_push (mem ?w) (receive_queue (dev ?w)) ?a = Inr (h', q')"
      "queues (?w\<lparr>mem := h', dev := (dev ?w)\<lparr>receive_queue := q'\<rparr>\<rparr>) cs ([] @ [?a])" "frames h' = frames (mem ?w)"
      "[] = [] \<Longrightarrow> \<exists>a. queue_at h' q' [a] [?a] \<and> linked_at h' q' [a]"
    by (rule push_received [where f = ?a]) blast
  let ?w' = "?w\<lparr>mem := h', dev := (dev ?w)\<lparr>receive_queue := q'\<rparr>\<rparr>"
  obtain a where "queue_at h' q' [a] [?a]" using push(4) by blast
  then have "conbee_wait_for_frame cond_wait ?w' seqn cmd = None"
    using wait_spins_on_head [of ?w' a "[]" ?a "[]" blank_frame seqn cmd cond_wait] push(2,3) assms(8)
    by (auto simp: queues_def wanted_def blank_frame_def)
  moreover have "worker_receive stack (tty_feed (slip_encode pkt @ rest) w) = Some (Inr ?w')"
    using read push(1) assms(6) ok by (simp add: worker_receive_def init_frame_blank)
  ultimately show ?thesis by blast
qed

theorem damaged_packet_blocks_waiters_witness:
  "\<exists>w'. worker_receive (replicate 1500 0) (tty_feed (slip_encode [7, 1, 0] @ []) (idle_world 3)) = Some (Inr w') \<and>
     conbee_wait_for_frame (\<lambda>_. None) w' 5 COMMAND_DEVICE_STATE = None"
proof (rule damaged_packet_blocks_waiters)
  have "le_word [1, 0] \<noteq> checksum [7]" by (simp add: checksum_def)
  then show "\<not> (\<exists>body. [7, 1, 0] = packet_of body)"
    using packet_of_iff [of "[7, 1, 0]"] by simp
  show "queues (idle_world 3) [] []"
    by (simp add: queues_def idle_world_def roomy_def sizeof_ptr_def conbee_queue_init_def)
qed simp_all

subsection \<open>Waking a caller up\<close>

text \<open>
  What happens while a caller sleeps and nobody else uses the device: a turn of the worker, the stick's
  answer to the bytes this turn has sent (\<open>stick\<close>), and another turn.
\<close>

definition plain_turn :: "u8 list \<Rightarrow> u8 list \<Rightarrow> world \<Rightarrow> turn" where
  "plain_turn rstack wstack w =
     \<lparr>meanwhile = \<lambda>w. w, selected = sys_select w, read_stack = rstack, write_stack = wstack\<rparr>"

definition worker_wakes ::
  "u8 list \<Rightarrow> u8 list \<Rightarrow> (u8 list \<Rightarrow> u8 list) \<Rightarrow> world \<Rightarrow> (ub + world) option" where
  "worker_wakes rstack wstack stick w =
     Option.bind (worker_turn (plain_turn rstack wstack w) w) (\<lambda>r.
       case r of
         Inl e \<Rightarrow> Some (Inl e)
       | Inr v \<Rightarrow>
           (let v = tty_feed (stick (drop (length (tty_out w)) (tty_out v))) v
            in worker_turn (plain_turn rstack wstack v) v))"

text \<open>One request is in the send queue, and the stick answers it with a packet of \<open>body\<close>.\<close>

definition awaiting :: "u8 list \<Rightarrow> u8 list \<Rightarrow> (u8 list \<Rightarrow> u8 list) \<Rightarrow> world \<Rightarrow> u8 list \<Rightarrow> bool" where
  "awaiting rstack wstack stick w body \<longleftrightarrow>
     length rstack = 1500 \<and> length wstack = 1000 \<and> sends_ok w \<and> tty_in w = [] \<and> pipe_data w = [0, 0] \<and>
     3 \<le> avail (mem w) \<and> 5 \<le> length body \<and> length body \<le> 1498 \<and>
     (\<exists>c fr bs out. queues w [c] [] \<and> frame_is (mem w) c fr bs \<and> sends_as fr bs out \<and>
        stick (slip_encode (packet_of out)) = slip_encode (packet_of body))"

lemma slip_encode_not_Nil [simp]: "slip_encode bs \<noteq> []"
  by (simp add: slip_encode_def)

lemma sends_ok_connected: "sends_ok w \<Longrightarrow> connected w"
  by (simp add: sends_ok_def)

text \<open>The frames, payloads and items that stay while the request at the head of the send queue is sent and freed.\<close>

definition blocks_kept :: "world \<Rightarrow> addr set" where
  "blocks_kept w = {p \<in> dom (blocks (mem w)). \<forall>c fr. get_contents (mem w) (head (send_queue (dev w))) = Inr c \<longrightarrow>
     frames (mem w) c = Some fr \<longrightarrow> payload fr \<noteq> p}"

definition items_kept :: "world \<Rightarrow> addr set" where
  "items_kept w = dom (items (mem w)) - {head (send_queue (dev w))}"

definition frames_kept :: "world \<Rightarrow> addr set" where
  "frames_kept w = {a \<in> dom (frames (mem w)). get_contents (mem w) (head (send_queue (dev w))) \<noteq> Inr a}"

lemma frames_kept_head:
  assumes "queues w (c # cs) ds"
  shows "frames_kept w = dom (frames (mem w)) - {c}"
proof -
  have "get_contents (mem w) (head (send_queue (dev w))) = Inr c"
    using assms by (auto simp: queues_def elim!: queue_at_Cons)
  then show ?thesis by (auto simp: frames_kept_def)
qed

lemma blocks_kept_head:
  assumes "queues w (c # cs) ds" "frames (mem w) c = Some fr"
  shows "blocks_kept w = dom (blocks (mem w)) - {payload fr}"
proof -
  have "get_contents (mem w) (head (send_queue (dev w))) = Inr c"
    using assms(1) by (auto simp: queues_def elim!: queue_at_Cons)
  then show ?thesis using assms(2) by (auto simp: blocks_kept_def)
qed

interpretation wake: waking "worker_wakes rstack wstack stick" "awaiting rstack wstack stick" frames_kept blocks_kept items_kept
  for rstack wstack :: "u8 list" and stick :: "u8 list \<Rightarrow> u8 list"
proof
  fix w body assume *: "awaiting rstack wstack stick w body"
  then obtain c fr bs out where c: "queues w [c] []" "frame_is (mem w) c fr bs" "sends_as fr bs out"
      "stick (slip_encode (packet_of out)) = slip_encode (packet_of body)"
    and w: "sends_ok w" "length wstack = 1000" "pipe_data w = [0, 0]" "tty_in w = []" "length rstack = 1500"
      "3 \<le> avail (mem w)" "5 \<le> length body" "length body \<le> 1498"
    by (auto simp: awaiting_def)
  obtain v where v: "worker_transmit wstack w = Some (Inr v)" "queues v [] []" "sends_ok v"
      "tty_out v = tty_out w @ slip_encode (packet_of out)" "tty_in v = tty_in w" "avail (mem w) \<le> avail (mem v)"
      "frames (mem v) = (frames (mem w))(c := None)" "pipe_data v = drop 2 (pipe_data w)" "\<exists>q. dev v = (dev w)\<lparr>send_queue := q\<rparr>"
      "blocks (mem v) = (if payload fr = NULL then blocks (mem w) else (blocks (mem w))(payload fr := None))"
      "dom (items (mem v)) = items_kept w"
    unfolding items_kept_def
    using worker_transmit_ok [OF w(1,2) _ c(1,2,3)] w(3) by (metis list.distinct(1))
  have av: "3 \<le> avail (mem v)" using v(6) w(6) by simp
  let ?v = "tty_feed (slip_encode (packet_of body) @ []) v"
  obtain w' where w': "worker_receive rstack ?v = Some (Inr w')" "queues w' [] ([] @ [brk (mem v)])"
      "frame_is (mem w') (brk (mem v)) (parsed_frame (Suc (brk (mem v))) body) (drop 5 body)"
      "[] = [] \<Longrightarrow> \<exists>a. queue_at (mem w') (receive_queue (dev w')) [a] [brk (mem v)] \<and>
           linked_at (mem w') (receive_queue (dev w')) [a]"
      "dom (frames (mem w')) = insert (brk (mem v)) (dom (frames (mem v)))"
      "tty_in w' = []" "pipe_data w' = pipe_data v" "\<exists>q. dev w' = (dev v)\<lparr>receive_queue := q\<rparr>" "write_faults w' = write_faults v"
      "dom (blocks (mem w')) = insert (Suc (brk (mem v))) (dom (blocks (mem v)))"
      "dom (items (mem w')) = insert (Suc (Suc (brk (mem v)))) (dom (items (mem v)))"
      "[] = [] \<Longrightarrow> head (receive_queue (dev w')) = Suc (Suc (brk (mem v)))"
    using v(5) w(4)
    by (rule_tac worker_receive_ok [OF sends_ok_connected [OF v(3)] w(5,7,8) av v(2), of "[]"]) auto
  have "tty_in ?v \<noteq> []" by (simp add: tty_feed_def)
  then have woken: "worker_wakes rstack wstack stick w = Some (Inr w')"
    using v(1,4) w(3,4) w'(1) c(4)
    by (simp add: worker_wakes_def worker_turn_def plain_turn_def sys_select_def)
  have kept: "brk (mem v) \<notin> frames_kept w" "dom (frames (mem w')) = insert (brk (mem v)) (frames_kept w)"
    using w'(5) v(2,7) frames_kept_head [OF c(1)] heap_ok_fresh(1) [of "mem v" "brk (mem v)"]
    by (auto simp: queues_def)
  have blocks: "dom (blocks (mem v)) = blocks_kept w"
    using v(10) blocks_kept_head [OF c(1)] c(2) heap_ok_live(2) [of "mem w" "NULL"] c(1)
    by (auto simp: frame_is_def queues_def)
  have fresh: "Suc (brk (mem v)) \<notin> dom (blocks (mem v))" "Suc (Suc (brk (mem v))) \<notin> dom (items (mem v))"
    using v(2) heap_ok_fresh(2,3) [of "mem v"] by (auto simp: queues_def)
  obtain a where a: "queue_at (mem w') (receive_queue (dev w')) [a] [brk (mem v)]" "linked_at (mem w') (receive_queue (dev w')) [a]"
    using w'(4) by blast
  then have head: "a = Suc (Suc (brk (mem v)))" using w'(12) by (simp add: queue_at_def)
  have "settled w w'"
    using w'(6-9) v(3,8,9) w(3) by (auto simp: settled_def sends_ok_def connected_def)
  then show "\<exists>w' a f p. worker_wakes rstack wstack stick w = Some (Inr w') \<and> roomy (mem w') \<and> heap_ok (mem w') \<and>
      queue_at (mem w') (receive_queue (dev w')) [a] [f] \<and> linked_at (mem w') (receive_queue (dev w')) [a] \<and>
      frame_is (mem w') f (parsed_frame p body) (drop 5 body) \<and>
      f \<notin> frames_kept w \<and> dom (frames (mem w')) = insert f (frames_kept w) \<and>
      p \<noteq> NULL \<and> p \<notin> blocks_kept w \<and> dom (blocks (mem w')) = insert p (blocks_kept w) \<and>
      a \<notin> items_kept w \<and> dom (items (mem w')) = insert a (items_kept w) \<and> settled w w'"
    using woken w'(2,3,10,11) a kept fresh unfolding blocks v(11) head [symmetric]
    by (intro exI [of _ w'] exI [of _ a] exI [of _ "brk (mem v)"] exI [of _ "Suc (brk (mem v))"]) (simp add: queues_def)
qed

subsection \<open>Stopping\<close>

text \<open>No turn of the worker opens or closes a descriptor.\<close>

definition same_fds :: "world \<Rightarrow> world \<Rightarrow> bool" where
  "same_fds w w' \<longleftrightarrow> open_fds w' = open_fds w \<and> fd (dev w') = fd (dev w)"

lemma same_fds_trans: "same_fds u v \<Longrightarrow> same_fds v w \<Longrightarrow> same_fds u w"
  by (simp add: same_fds_def)

lemma sys_write_same_fds: "sys_write w c = (r, w') \<Longrightarrow> same_fds w w'"
  by (cases "write_faults w") (auto simp: sys_write_def same_fds_def split: if_splits)

lemma sys_read_same_fds: "sys_read w c = Some (r, c', w') \<Longrightarrow> same_fds w w'"
  by (cases "tty_in w") (auto simp: sys_read_def same_fds_def split: read_event.splits)

lemma conbee_write_byte_same_fds:
  assumes "conbee_write_byte w b = (r, w')" "same_fds v w"
  shows "same_fds v w'"
proof (cases "sys_write w b")
  case (Pair r1 w1)
  then have "w' = w \<or> w' = w1" using assms(1) by (auto simp: conbee_write_byte_def split: if_splits)
  then show ?thesis using sys_write_same_fds [OF Pair] assms(2) same_fds_trans by blast
qed

lemma conbee_read_byte_same_fds:
  assumes "conbee_read_byte w c = Some (r, c', w')" "same_fds v w"
  shows "same_fds v w'"
proof (cases "sys_read w c")
  case None
  then show ?thesis using assms by (auto simp: conbee_read_byte_def split: if_splits)
next
  case (Some x)
  obtain r1 c1 w1 where x: "x = (r1, c1, w1)" by (cases x)
  have "w' = w \<or> w' = w1" using assms(1) Some x by (auto simp: conbee_read_byte_def split: if_splits)
  then show ?thesis using sys_read_same_fds [OF Some [unfolded x]] assms(2) same_fds_trans by blast
qed

lemma slip_transmit_same_fds:
  assumes "slip_transmit_packet conbee_write_byte w buffer len = Inr (e, w')" "same_fds v w"
  shows "same_fds v w'"
proof -
  obtain r1 w1 where 1: "conbee_write_byte w END = (r1, w1)" by (cases "conbee_write_byte w END")
  then obtain e2 w2 where 2: "slip_transmit_loop conbee_write_byte w1 buffer (unat len) r1 = Inr (e2, w2)"
    "(case conbee_write_byte w2 END of (r, d) \<Rightarrow> Inr (e2, d)) = (Inr (e, w') :: ub + int \<times> world)"
    using assms(1) by (auto simp: slip_transmit_packet_def bindE_eq_Inr Let_def)
  obtain r3 where 3: "conbee_write_byte w2 END = (r3, w')" using 2(2) by (cases "conbee_write_byte w2 END") auto
  have w1: "same_fds v w1" by (rule conbee_write_byte_same_fds [OF 1 assms(2)])
  have "same_fds v w2"
    by (rule slip_transmit_keeps [where I = "same_fds v", OF _ 2(1) w1]) (rule conbee_write_byte_same_fds)
  then show ?thesis by (rule conbee_write_byte_same_fds [OF 3])
qed

lemma conbee_write_frame_same_fds:
  assumes "conbee_write_frame stack w a = Inr (e, w')"
  shows "same_fds w w'"
proof (cases "tty_status (dev w) = TTY_DISCONNECTED")
  case True
  then show ?thesis using assms by (simp add: conbee_write_frame_def same_fds_def)
next
  case False
  then obtain h buffer len r where "slip_transmit_packet conbee_write_byte (w\<lparr>mem := h\<rparr>) buffer len = Inr (r, w')"
    using assms by (auto simp: conbee_write_frame_def bindE_eq_Inr)
  then show ?thesis by (rule slip_transmit_same_fds) (simp add: same_fds_def)
qed

lemma conbee_parse_packet_same_fds: "conbee_parse_packet n buffer w a = Inr (e, w') \<Longrightarrow> same_fds w w'"
  by (auto simp: conbee_parse_packet_def conbee_fill_frame_def bindE_eq_Inr same_fds_def Let_def split: if_splits)

lemma conbee_read_frame_same_fds:
  assumes "conbee_read_frame stack w a = Some (Inr (e, w'))"
  shows "same_fds w w'"
proof (cases "tty_status (dev w) = TTY_DISCONNECTED")
  case True
  then show ?thesis using assms by (simp add: conbee_read_frame_def same_fds_def)
next
  case False
  then obtain n buffer v where v: "slip_receive_packet conbee_read_byte w stack 1500 = Some (Inr (n, buffer, v))"
    "conbee_parse_packet n buffer v a = Inr (e, w')"
    using assms by (auto simp: conbee_read_frame_def bindE_eq_Inr)
  have "same_fds w v"
    using slip_receive_keeps [where I = "same_fds w", OF conbee_read_byte_same_fds v(1) [unfolded slip_receive_packet_def]]
    by (simp add: same_fds_def)
  then show ?thesis using conbee_parse_packet_same_fds [OF v(2)] by (simp add: same_fds_def)
qed

lemma worker_turn_same_fds:
  assumes "worker_turn t w = Some (Inr w')"
  shows "same_fds w w'"
proof -
  have "w' = w \<or> worker_receive (read_stack t) w = Some (Inr w') \<or> worker_transmit (write_stack t) w = Some (Inr w')"
    using assms by (cases "selected t = SelTimeout"; cases "fd_isset (selected t)"; simp add: worker_turn_def)
  then consider (idle) "w' = w" | (receive) "worker_receive (read_stack t) w = Some (Inr w')"
    | (transmit) "worker_transmit (write_stack t) w = Some (Inr w')"
    by blast
  then show ?thesis
  proof cases
    case idle
    then show ?thesis by (simp add: same_fds_def)
  next
    case receive
    then obtain h frame r v h' q' where "conbee_read_frame (read_stack t) (w\<lparr>mem := h\<rparr>) frame = Some (Inr (r, v))"
      "w' = v\<lparr>mem := h', dev := (dev v)\<lparr>receive_queue := q'\<rparr>\<rparr>"
      by (auto simp: worker_receive_def bindE_eq_Inr split: sum.splits)
    then show ?thesis using conbee_read_frame_same_fds by (fastforce simp: same_fds_def)
  next
    case transmit
    let ?w = "w\<lparr>pipe_data := drop 2 (pipe_data w)\<rparr>"
    from transmit obtain frame h q where pop: "conbee_queue_pop (mem w) (send_queue (dev w)) = Inr (frame, h, q)"
      "(if frame \<noteq> NULL
        then bindE (conbee_write_frame (write_stack t) (?w\<lparr>mem := h, dev := (dev w)\<lparr>send_queue := q\<rparr>\<rparr>) frame) (\<lambda>(retval, w).
             bindE (conbee_free_frame (mem w) frame) (\<lambda>h. Inr (w\<lparr>mem := h\<rparr>)))
        else Inr (?w\<lparr>mem := h, dev := (dev w)\<lparr>send_queue := q\<rparr>\<rparr>)) = Inr w'"
      by (auto simp: worker_transmit_def Let_def bindE_eq_Inr split: if_splits)
    have w1: "same_fds w (?w\<lparr>mem := h, dev := (dev w)\<lparr>send_queue := q\<rparr>\<rparr>)" by (simp add: same_fds_def)
    show ?thesis
    proof (cases "frame = NULL")
      case True
      then show ?thesis using pop(2) w1 by simp
    next
      case False
      then obtain r v h' where
        "conbee_write_frame (write_stack t) (?w\<lparr>mem := h, dev := (dev w)\<lparr>send_queue := q\<rparr>\<rparr>) frame = Inr (r, v)"
        "w' = v\<lparr>mem := h'\<rparr>"
        using pop(2) by (auto simp: bindE_eq_Inr)
      then show ?thesis
        using conbee_write_frame_same_fds same_fds_trans [OF w1] by (fastforce simp: same_fds_def)
    qed
  qed
qed

text \<open>
  What the worker does between two looks of \<open>conbee_close\<close>: one turn of its loop, with the end of the
  thread when it has been asked to stop. While it blocks, nothing.
\<close>

definition worker_pass :: "u8 list \<Rightarrow> u8 list \<Rightarrow> world \<Rightarrow> world" where
  "worker_pass rstack wstack w =
     (if worker_running (dev w) = 0 then w
      else case worker_loop [plain_turn rstack wstack w] False w of Some (Inr v) \<Rightarrow> v | _ \<Rightarrow> w)"

lemma worker_pass_cases:
  "worker_pass rstack wstack w = w \<or>
   (\<exists>v. worker_turn (plain_turn rstack wstack w) w = Some (Inr v) \<and>
     worker_pass rstack wstack w = (if worker_stop (dev w) = 1 then v\<lparr>dev := (dev v)\<lparr>worker_running := 0\<rparr>\<rparr> else v))"
proof (cases "worker_turn (plain_turn rstack wstack w) w")
  case (Some r)
  then show ?thesis by (cases r) (auto simp: worker_pass_def plain_turn_def)
qed (simp add: worker_pass_def plain_turn_def)

interpretation stopping: stopping_worker "worker_pass rstack wstack"
    "\<lambda>w. \<exists>v. worker_turn (plain_turn rstack wstack w) w = Some (Inr v)"
  for rstack wstack :: "u8 list"
proof
  fix w assume *: "\<exists>v. worker_turn (plain_turn rstack wstack w) w = Some (Inr v)" "worker_stop (dev w) = 1"
  then have "worker_running (dev (worker_pass rstack wstack w)) = 0"
    by (auto simp: worker_pass_def plain_turn_def)
  then show "\<exists>n. worker_running (dev ((worker_pass rstack wstack ^^ n) w)) = 0"
    by (intro exI [of _ 1]) simp
next
  fix w
  have "same_fds w (worker_pass rstack wstack w)"
    using worker_pass_cases [of rstack wstack w] worker_turn_same_fds [of _ w] by (fastforce simp: same_fds_def)
  then show "open_fds (worker_pass rstack wstack w) = open_fds w" "fd (dev (worker_pass rstack wstack w)) = fd (dev w)"
    by (simp_all add: same_fds_def)
qed

text \<open>
  With a worker that is not blocked, \<open>conbee_close\<close> returns, the device is disconnected and the tty is
  closed - but only the tty: both ends of the pipe that \<open>conbee_connect\<close> opened stay open.
\<close>

lemma close_leaves_pipe_open:
  assumes "\<exists>v. worker_turn (plain_turn rstack wstack (w\<lparr>dev := (dev w)\<lparr>worker_stop := 1\<rparr>\<rparr>))
             (w\<lparr>dev := (dev w)\<lparr>worker_stop := 1\<rparr>\<rparr>) = Some (Inr v)"
    and "pipe_send_queue (dev w) = (r, s)" "{r, s} \<subseteq> open_fds w" "fd (dev w) \<notin> {r, s}"
  shows "\<exists>v. conbee_close (worker_pass rstack wstack) (\<lambda>w. w) w = Some v \<and> \<not> connected v \<and>
     open_fds v = open_fds w - {fd (dev w)} \<and> {r, s} \<subseteq> open_fds v"
  using stopping.close_returns [OF assms(1), of "\<lambda>w. w"] assms(3,4) by auto

text \<open>
  A packet of which only a part has arrived blocks \<open>conbee_close\<close>: the worker sits in \<open>read\<close> and never
  looks at the request to stop, and the caller looks at \<open>worker_running\<close> for ever.
\<close>

lemma close_hangs_on_partial_packet:
  assumes "connected w" "worker_running (dev w) \<noteq> 0" "tty_in w = map Data bs" "bs \<noteq> []" "END \<notin> set bs"
    and "length rstack = 1500" "0 < avail (mem w)" "heap_ok (mem w)"
  shows "conbee_close (worker_pass rstack wstack) join w = None"
proof -
  let ?w = "w\<lparr>dev := (dev w)\<lparr>worker_stop := 1\<rparr>\<rparr>"
  let ?v = "?w\<lparr>mem := blank_heap (mem w)\<rparr>"
  have "slip_receive_loop conbee_read_byte (?v\<lparr>tty_in := map Data bs\<rparr>) 0 rstack 1500 0 = None"
    by (rule slip_receive_unfinished) (use assms in \<open>simp_all add: connected_def\<close>)
  moreover have "?v\<lparr>tty_in := map Data bs\<rparr> = ?v" using assms(3) by simp
  ultimately have "conbee_read_frame rstack ?v (brk (mem w)) = None"
    using assms(1) by (simp add: conbee_read_frame_def slip_receive_packet_def connected_def)
  then have "worker_receive rstack ?w = None"
    using init_frame_blank [OF assms(7,8)] by (simp add: worker_receive_def)
  then have "worker_turn (plain_turn rstack wstack ?w) ?w = None"
    using assms(3,4) by (simp add: worker_turn_def plain_turn_def sys_select_def)
  then have "worker_pass rstack wstack ?w = ?w"
    using worker_pass_cases [of rstack wstack ?w] by auto
  then have "close_wait (worker_pass rstack wstack) ?w = None"
    using assms(2) by (intro close_wait_stuck) simp_all
  then show ?thesis by (simp add: conbee_close_def)
qed

end
