(* ===== verification/Api.thy ===== *)
theory Api
  imports Worker
begin

text \<open>
  The calls of \<open>src/conbee-functions.c\<close>: each builds a request, enqueues it, waits for the response with
  the request's sequence number and reads the response. They share three shapes, defined first.
\<close>

subsection \<open>The code\<close>

text \<open>
  Enqueue and wait. The sequence number is kept as a \<open>uint8_t\<close>, so the test for a negative one is
  never true, and the code of the wait, also a \<open>uint8_t\<close>, is not tested.
\<close>

definition exchange ::
  "(world \<Rightarrow> (ub + world) option) \<Rightarrow> u8 \<Rightarrow> world \<Rightarrow> ub + addr \<times> heap \<Rightarrow> (ub + u8 \<times> addr \<times> world) option" where
  "exchange cond_wait cmd w request =
     (case bindE request (\<lambda>(frame, h). conbee_enqueue_frame (w\<lparr>mem := h\<rparr>) frame) of
        Inl e \<Rightarrow> Some (Inl e)
      | Inr (s, w) \<Rightarrow>
          map_option (\<lambda>r. bindE r (\<lambda>(err, response, w). Inr (word_of_int err, response, w)))
            (conbee_wait_for_frame cond_wait w (word_of_int s) cmd))"

text \<open>
  A getter; \<open>reader\<close> is the reader of the response and \<open>v\<close> what the caller's variable holds before. The
  reader's code goes through a \<open>uint8_t\<close> on its way to the caller.
\<close>

definition get_parameter ::
  "(heap \<Rightarrow> addr \<Rightarrow> 'v \<Rightarrow> ub + int \<times> 'v) \<Rightarrow> (world \<Rightarrow> (ub + world) option) \<Rightarrow> u8 \<Rightarrow> world \<Rightarrow> 'v \<Rightarrow>
   (ub + int \<times> 'v \<times> world) option" where
  "get_parameter reader cond_wait parameter w v =
     map_option (\<lambda>r. bindE r (\<lambda>(err, response, w).
         bindE (conbee_frame_success (mem w) response) (\<lambda>success.
         if success = 0
         then bindE (conbee_free_frame (mem w) response) (\<lambda>h. Inr (-1, v, w\<lparr>mem := h\<rparr>))
         else bindE (reader (mem w) response v) (\<lambda>(r, v).
              let err = word_of_int r :: u8 in Inr (int (unat err), v, w)))))
       (exchange cond_wait COMMAND_READ_PARAMETER w (conbee_read_parameter_request (mem w) parameter))"

definition set_parameter ::
  "(world \<Rightarrow> (ub + world) option) \<Rightarrow> world \<Rightarrow> ub + addr \<times> heap \<Rightarrow> (ub + int \<times> world) option" where
  "set_parameter cond_wait w request =
     map_option (\<lambda>r. bindE r (\<lambda>(err, response, w).
         bindE (conbee_frame_success (mem w) response) (\<lambda>success.
         if success = 0
         then bindE (conbee_free_frame (mem w) response) (\<lambda>h. Inr (-1, w\<lparr>mem := h\<rparr>))
         else bindE (conbee_free_frame (mem w) response) (\<lambda>h. Inr (int (unat err), w\<lparr>mem := h\<rparr>)))))
       (exchange cond_wait COMMAND_WRITE_PARAMETER w request)"

definition conbee_get_firmware_version ::
  "(world \<Rightarrow> (ub + world) option) \<Rightarrow> world \<Rightarrow> conbee_version \<Rightarrow> (ub + int \<times> conbee_version \<times> world) option" where
  "conbee_get_firmware_version cond_wait w version =
     map_option (\<lambda>r. bindE r (\<lambda>(err, response, w).
         bindE (conbee_get_version (mem w) response version) (\<lambda>(r, version).
         let err = word_of_int r :: u8 in
         bindE (conbee_free_frame (mem w) response) (\<lambda>h. Inr (int (unat err), version, w\<lparr>mem := h\<rparr>)))))
       (exchange cond_wait COMMAND_VERSION w (conbee_read_firmware_request (mem w)))"

text \<open>\<open>value\<close> is a local variable that is not initialised; it is copied to \<open>mac\<close> whatever the reader says.\<close>

definition conbee_get_mac_address ::
  "(world \<Rightarrow> (ub + world) option) \<Rightarrow> u64 \<Rightarrow> world \<Rightarrow> u8 list \<Rightarrow> (ub + int \<times> u8 list \<times> world) option" where
  "conbee_get_mac_address cond_wait local_value w mac =
     map_option (\<lambda>r. bindE r (\<lambda>(err, val, w). Inr (err, if err = -1 then mac else le_bytes 8 val, w)))
       (get_parameter conbee_read_parameter_response_uint64 cond_wait PARAM_MAC_ADDRESS w local_value)"

definition conbee_get_nwk_panid ::
  "(world \<Rightarrow> (ub + world) option) \<Rightarrow> world \<Rightarrow> u16 \<Rightarrow> (ub + int \<times> u16 \<times> world) option" where
  "conbee_get_nwk_panid cond_wait = get_parameter conbee_read_parameter_response_uint16 cond_wait PARAM_NWK_PANID"
definition conbee_get_nwk_address ::
  "(world \<Rightarrow> (ub + world) option) \<Rightarrow> world \<Rightarrow> u16 \<Rightarrow> (ub + int \<times> u16 \<times> world) option" where
  "conbee_get_nwk_address cond_wait = get_parameter conbee_read_parameter_response_uint16 cond_wait PARAM_NWK_ADDRESS"
definition conbee_get_nwk_extended_panid ::
  "(world \<Rightarrow> (ub + world) option) \<Rightarrow> world \<Rightarrow> u64 \<Rightarrow> (ub + int \<times> u64 \<times> world) option" where
  "conbee_get_nwk_extended_panid cond_wait =
     get_parameter conbee_read_parameter_response_uint64 cond_wait PARAM_NWK_EXT_PANID"
definition conbee_get_network_mode ::
  "(world \<Rightarrow> (ub + world) option) \<Rightarrow> world \<Rightarrow> u8 \<Rightarrow> (ub + int \<times> u8 \<times> world) option" where
  "conbee_get_network_mode cond_wait =
     get_parameter conbee_read_parameter_response_uint8 cond_wait PARAM_APS_COORDINATOR"
definition conbee_get_channel_mask ::
  "(world \<Rightarrow> (ub + world) option) \<Rightarrow> world \<Rightarrow> u32 \<Rightarrow> (ub + int \<times> u32 \<times> world) option" where
  "conbee_get_channel_mask cond_wait = get_parameter conbee_read_parameter_response_uint32 cond_wait PARAM_CHANNEL_MASK"
definition conbee_get_aps_extended_panid ::
  "(world \<Rightarrow> (ub + world) option) \<Rightarrow> world \<Rightarrow> u64 \<Rightarrow> (ub + int \<times> u64 \<times> world) option" where
  "conbee_get_aps_extended_panid cond_wait =
     get_parameter conbee_read_parameter_response_uint64 cond_wait PARAM_APS_EXT_PANID"
definition conbee_get_trust_center_addr ::
  "(world \<Rightarrow> (ub + world) option) \<Rightarrow> world \<Rightarrow> u64 \<Rightarrow> (ub + int \<times> u64 \<times> world) option" where
  "conbee_get_trust_center_addr cond_wait =
     get_parameter conbee_read_parameter_response_uint64 cond_wait PARAM_TRUST_CENTER_ADDRESS"
definition conbee_get_security_mode ::
  "(world \<Rightarrow> (ub + world) option) \<Rightarrow> world \<Rightarrow> u8 \<Rightarrow> (ub + int \<times> u8 \<times> world) option" where
  "conbee_get_security_mode cond_wait =
     get_parameter conbee_read_parameter_response_uint8 cond_wait PARAM_SECURITY_MODE"

definition conbee_set_network_mode ::
  "(world \<Rightarrow> (ub + world) option) \<Rightarrow> world \<Rightarrow> u8 \<Rightarrow> (ub + int \<times> world) option" where
  "conbee_set_network_mode cond_wait w mode =
     set_parameter cond_wait w (conbee_write_parameter_request_uint8 (mem w) PARAM_APS_COORDINATOR mode)"
definition conbee_set_channel_mask ::
  "(world \<Rightarrow> (ub + world) option) \<Rightarrow> world \<Rightarrow> u32 \<Rightarrow> (ub + int \<times> world) option" where
  "conbee_set_channel_mask cond_wait w msk =
     set_parameter cond_wait w (conbee_write_parameter_request_uint32 (mem w) PARAM_CHANNEL_MASK msk)"
definition conbee_set_aps_extended_panid ::
  "(world \<Rightarrow> (ub + world) option) \<Rightarrow> world \<Rightarrow> u64 \<Rightarrow> (ub + int \<times> world) option" where
  "conbee_set_aps_extended_panid cond_wait w panid =
     set_parameter cond_wait w (conbee_write_parameter_request_uint64 (mem w) PARAM_APS_EXT_PANID panid)"
definition conbee_set_trust_center_addr ::
  "(world \<Rightarrow> (ub + world) option) \<Rightarrow> world \<Rightarrow> u64 \<Rightarrow> (ub + int \<times> world) option" where
  "conbee_set_trust_center_addr cond_wait w address =
     set_parameter cond_wait w (conbee_write_parameter_request_uint64 (mem w) PARAM_TRUST_CENTER_ADDRESS address)"
definition conbee_set_security_mode ::
  "(world \<Rightarrow> (ub + world) option) \<Rightarrow> world \<Rightarrow> u8 \<Rightarrow> (ub + int \<times> world) option" where
  "conbee_set_security_mode cond_wait w mode =
     set_parameter cond_wait w (conbee_write_parameter_request_uint8 (mem w) PARAM_SECURITY_MODE mode)"

subsection \<open>One request and its response\<close>

text \<open>A device with nothing queued and nothing on the line, on a heap with room.\<close>

definition at_rest :: "world \<Rightarrow> bool" where
  "at_rest w \<longleftrightarrow> sends_ok w \<and> queues w [] [] \<and> tty_in w = [] \<and> pipe_data w = [] \<and> 6 \<le> avail (mem w)"

text \<open>What a call leaves: nothing to do, and the next sequence number.\<close>

definition answered :: "world \<Rightarrow> world \<Rightarrow> bool" where
  "answered w w' \<longleftrightarrow> settled (w\<lparr>dev := (dev w)\<lparr>next_sequence := next_sequence (dev w) + 1\<rparr>\<rparr>) w'"

lemma answered_mem [simp]: "answered w (w'\<lparr>mem := h\<rparr>) = answered w w'"
  by (simp add: answered_def)

lemma submit_awaiting:
  assumes w: "at_rest w" "request_fits req" and stacks: "length rstack = 1500" "length wstack = 1000"
    and body: "5 \<le> length body" "length body \<le> 1498"
    and stick: "stick (slip_encode (packet_of (request_body req (next_sequence (dev w))))) = slip_encode (packet_of body)"
  obtains w' where "submit w req = Inr (int (unat (next_sequence (dev w))), w')"
    and "awaiting rstack wstack stick w' body" "head (receive_queue (dev w')) = NULL"
    and "frames_kept w' = dom (frames (mem w))" "settled w' = answered w"
    and "blocks_kept w' = dom (blocks (mem w))" "items_kept w' = dom (items (mem w))"
proof -
  have q: "queues w [] []" "outgoing (mem w) [] []" "3 \<le> avail (mem w)" "sends_ok w" "tty_in w = []"
    using w(1) by (simp_all add: at_rest_def)
  obtain w' c where w': "submit w req = Inr (int (unat (next_sequence (dev w))), w')" "queues w' ([] @ [c]) []"
    "outgoing (mem w') ([] @ [c]) ([] @ [request_body req (next_sequence (dev w))])" "pipe_data w' = pipe_data w @ [0, 0]"
    "sends_ok w' = sends_ok w" "avail (mem w) - 3 \<le> avail (mem w')" "tty_in w' = tty_in w"
    "c \<notin> dom (frames (mem w))" "dom (frames (mem w')) = insert c (dom (frames (mem w)))"
    "next_sequence (dev w') = next_sequence (dev w) + 1" "worker_stop (dev w') = worker_stop (dev w)"
    "worker_running (dev w') = worker_running (dev w)"
    "payload_added (mem w) (mem w') c"
    "[] = [] \<Longrightarrow> head (send_queue (dev w')) \<notin> dom (items (mem w)) \<and>
       dom (items (mem w')) = insert (head (send_queue (dev w'))) (dom (items (mem w)))"
    by (rule submit_ok [OF q(1,2,3) w(2)]) blast
  have "awaiting rstack wstack stick w' body"
    using w' q stacks body stick w(1) by (auto simp: awaiting_def at_rest_def)
  moreover have "head (receive_queue (dev w')) = NULL" using w'(2) by (auto simp: queues_def)
  moreover have "frames_kept w' = dom (frames (mem w))"
    using frames_kept_head [of w' c "[]" "[]"] w'(2,8,9) by auto
  moreover have "settled w' = answered w"
    using w'(10-12) by (simp add: fun_eq_iff answered_def settled_def)
  moreover have "blocks_kept w' = dom (blocks (mem w))"
  proof -
    obtain fr where fr: "frames (mem w') c = Some fr" "if payload fr = NULL then dom (blocks (mem w')) = dom (blocks (mem w))
       else payload fr \<notin> dom (blocks (mem w)) \<and> dom (blocks (mem w')) = insert (payload fr) (dom (blocks (mem w)))"
      using w'(13) unfolding payload_added_def by blast
    have "NULL \<notin> dom (blocks (mem w))" using q(1) heap_ok_live(2) [of "mem w" NULL] by (auto simp: queues_def)
    moreover have "blocks_kept w' = dom (blocks (mem w')) - {payload fr}"
      using blocks_kept_head [of w' c "[]" "[]" fr] w'(2) fr(1) by simp
    ultimately show ?thesis using fr(2) by (auto split: if_splits)
  qed
  moreover have "items_kept w' = dom (items (mem w))" using w'(14) by (auto simp: items_kept_def)
  ultimately show ?thesis using that w'(1) by blast
qed

lemma exchange_answered:
  assumes w: "at_rest w" "request_fits req" and stacks: "length rstack = 1500" "length wstack = 1000"
    and body: "5 \<le> length body" "length body \<le> 1498"
    and stick: "stick (slip_encode (packet_of (request_body req (next_sequence (dev w))))) = slip_encode (packet_of body)"
    and wanted: "\<And>p. wanted (next_sequence (dev w)) cmd (parsed_frame p body)"
  shows "\<exists>w' f p. exchange (worker_wakes rstack wstack stick) cmd w (build_request req (mem w)) = Some (Inr (0, f, w')) \<and>
     frame_is (mem w') f (parsed_frame p body) (drop 5 body) \<and> queue_at (mem w') (receive_queue (dev w')) [] [] \<and>
     f \<notin> dom (frames (mem w)) \<and> dom (frames (mem w')) = insert f (dom (frames (mem w))) \<and>
     p \<noteq> NULL \<and> p \<notin> dom (blocks (mem w)) \<and> dom (blocks (mem w')) = insert p (dom (blocks (mem w))) \<and>
     dom (items (mem w')) = dom (items (mem w)) \<and> answered w w'"
proof -
  obtain w1 where w1: "submit w req = Inr (int (unat (next_sequence (dev w))), w1)"
    "awaiting rstack wstack stick w1 body" "head (receive_queue (dev w1)) = NULL"
    "frames_kept w1 = dom (frames (mem w))" "settled w1 = answered w"
    "blocks_kept w1 = dom (blocks (mem w))" "items_kept w1 = dom (items (mem w))"
    by (rule submit_awaiting [where stick = stick, OF w stacks body stick])
  obtain w' f p where "conbee_wait_for_frame (worker_wakes rstack wstack stick) w1 (next_sequence (dev w)) cmd =
      Some (Inr (0, f, w'))" "frame_is (mem w') f (parsed_frame p body) (drop 5 body)"
    "queue_at (mem w') (receive_queue (dev w')) [] []" "f \<notin> dom (frames (mem w))"
    "dom (frames (mem w')) = insert f (dom (frames (mem w)))" "answered w w'"
    "p \<noteq> NULL" "p \<notin> dom (blocks (mem w))" "dom (blocks (mem w')) = insert p (dom (blocks (mem w)))"
    "dom (items (mem w')) = dom (items (mem w))"
    unfolding w1(4-7) [symmetric] using wake.wait_gets [OF w1(2,3) wanted] by blast
  then show ?thesis using w1(1) by (auto simp: exchange_def submit_def)
qed

lemma exchange_unanswered:
  assumes w: "at_rest w" "request_fits req" and stacks: "length rstack = 1500" "length wstack = 1000"
    and body: "5 \<le> length body" "length body \<le> 1498"
    and stick: "stick (slip_encode (packet_of (request_body req (next_sequence (dev w))))) = slip_encode (packet_of body)"
    and wanted: "\<And>p. \<not> wanted (next_sequence (dev w)) cmd (parsed_frame p body)"
  shows "exchange (worker_wakes rstack wstack stick) cmd w (build_request req (mem w)) = None"
proof -
  obtain w1 where w1: "submit w req = Inr (int (unat (next_sequence (dev w))), w1)"
    "awaiting rstack wstack stick w1 body" "head (receive_queue (dev w1)) = NULL"
    "frames_kept w1 = dom (frames (mem w))" "settled w1 = answered w"
    by (rule submit_awaiting [where stick = stick, OF w stacks body stick]) blast
  have "conbee_wait_for_frame (worker_wakes rstack wstack stick) w1 (next_sequence (dev w)) cmd = None"
    by (rule wake.wait_misses [OF w1(2,3) wanted])
  then show ?thesis using w1(1) by (auto simp: exchange_def submit_def)
qed

text \<open>A response about parameter \<open>p\<close>, as the stick sends it.\<close>

definition parameter_answer :: "u8 \<Rightarrow> u8 \<Rightarrow> u8 \<Rightarrow> u8 \<Rightarrow> u8 list \<Rightarrow> u8 list" where
  "parameter_answer cmd s st p val =
     [cmd, s, st] @ le_bytes 2 (word_of_nat (8 + length val) :: u16) @
     le_bytes 2 (word_of_nat (1 + length val) :: u16) @ p # val"

lemma length_parameter_answer [simp]: "length (parameter_answer cmd s st p val) = 8 + length val"
  by (simp add: parameter_answer_def)

lemma parsed_parameter_answer:
  "command (parsed_frame a (parameter_answer cmd s st p val)) = cmd"
  "sequence_number (parsed_frame a (parameter_answer cmd s st p val)) = s"
  "status (parsed_frame a (parameter_answer cmd s st p val)) = st"
  "length val < 60000 \<Longrightarrow> unat (payload_length (parsed_frame a (parameter_answer cmd s st p val))) = length val + 3"
  "\<exists>y z. drop 5 (parameter_answer cmd s st p val) = y # z # p # val"
proof -
  have "payload_length (parsed_frame a (parameter_answer cmd s st p val)) =
      word_of_nat (length (parameter_answer cmd s st p val) - 5)"
    by (simp only: parsed_frame_def conbee_frame.simps)
  moreover have "length (parameter_answer cmd s st p val) - 5 = length val + 3" by simp
  ultimately show "unat (payload_length (parsed_frame a (parameter_answer cmd s st p val))) = length val + 3"
    if "length val < 60000"
    using that unat_of_nat16 [of "length val + 3"] by (simp only:)
qed (simp_all add: parsed_frame_def parameter_answer_def numeral_2_eq_2 le_bytes_def upt_rec)

subsection \<open>Properties\<close>

lemma uint_u8_minus_1: "uint (- 1 :: u8) = 255"
  by (simp add: unsigned_minus_1_eq_mask mask_eq_exp_minus_1)

lemma get_parameter_answered:
  fixes v :: "'a::len word"
  assumes "at_rest w" "length rstack = 1500" "length wstack = 1000" "length val \<le> 1400" "n < 65536"
    and "stick (slip_encode (packet_of (request_body (ReadParameter p) (next_sequence (dev w))))) =
         slip_encode (packet_of (parameter_answer COMMAND_READ_PARAMETER (next_sequence (dev w)) st p val))"
  shows "\<exists>w' f. get_parameter (read_parameter_response n) (worker_wakes rstack wstack stick) p w v =
       Some (Inr (if st \<noteq> STATUS_SUCCESS then -1 else if length val = n then 0 else 255,
                  if st = STATUS_SUCCESS \<and> length val = n then le_word val else v, w')) \<and>
     queue_at (mem w') (receive_queue (dev w')) [] [] \<and> f \<notin> dom (frames (mem w)) \<and>
     (if st = STATUS_SUCCESS
      then dom (frames (mem w')) = insert f (dom (frames (mem w))) \<and>
           (\<exists>fr. frame_is (mem w') f fr (drop 5 (parameter_answer COMMAND_READ_PARAMETER (next_sequence (dev w)) st p val)))
      else dom (frames (mem w')) = dom (frames (mem w))) \<and> answered w w'"
proof -
  let ?s = "next_sequence (dev w)"
  let ?body = "parameter_answer COMMAND_READ_PARAMETER ?s st p val"
  have "wanted ?s COMMAND_READ_PARAMETER (parsed_frame q ?body)" for q
    by (simp add: wanted_def parsed_parameter_answer)
  from exchange_answered [where stick = stick, OF assms(1) _ assms(2,3) _ _ assms(6) this] obtain w' f q where
    ex: "exchange (worker_wakes rstack wstack stick) COMMAND_READ_PARAMETER w (conbee_read_parameter_request (mem w) p) =
      Some (Inr (0, f, w'))" and fr: "frame_is (mem w') f (parsed_frame q ?body) (drop 5 ?body)"
    and kept: "queue_at (mem w') (receive_queue (dev w')) [] []" "f \<notin> dom (frames (mem w))"
      "dom (frames (mem w')) = insert f (dom (frames (mem w)))" "answered w w'"
    using assms(4) by auto
  have size: "unat (payload_length (parsed_frame q ?body)) = length val + 3"
    using parsed_parameter_answer(4) assms(4) by simp
  have ok: "conbee_frame_success (mem w') f = Inr (if st = STATUS_SUCCESS then 1 else 0)"
    using status_is_ok [OF fr, of STATUS_SUCCESS] by (simp add: conbee_frame_success_def parsed_parameter_answer)
  show ?thesis
  proof (cases "st = STATUS_SUCCESS")
    case True
    have "read_parameter_response n (mem w') f v =
        Inr (if length val = n then 0 else -1, if length val = n then le_word val else v)"
    proof (cases "length val = n")
      case True
      obtain y z where "drop 5 ?body = y # z # p # val" using parsed_parameter_answer(5) by blast
      then show ?thesis using read_parameter_response_ok [of "mem w'" f _ y z p val v] fr size True by auto
    next
      case False
      then show ?thesis using read_parameter_response_wrong_size [OF fr] size assms(5) by simp
    qed
    then have "get_parameter (read_parameter_response n) (worker_wakes rstack wstack stick) p w v =
        Some (Inr (if length val = n then 0 else 255, if length val = n then le_word val else v, w'))"
      using ex ok True by (simp add: get_parameter_def Let_def uint_u8_minus_1)
    with True kept fr show ?thesis by auto
  next
    case False
    have "get_parameter (read_parameter_response n) (worker_wakes rstack wstack stick) p w v =
        Some (Inr (-1, v, w'\<lparr>mem := without_frame (mem w') f (payload (parsed_frame q ?body))\<rparr>))"
      using ex ok False conbee_free_frame_ok [OF fr] by (simp add: get_parameter_def)
    with False kept show ?thesis by (intro exI conjI) (assumption | simp)+
  qed
qed

text \<open>
  C1: a getter on a device at rest, from the call to the value: the request goes out, the worker
  receives the stick's answer and wakes the caller up. If the answer reports a failure, the result is
  -1; if its value has another size than the caller's variable, the result is 255, not the -1 that is
  promised; in both cases the variable is as it was. Otherwise the result is 0 and the variable holds
  the value.
\<close>

theorem getter_result:
  fixes v :: "'a::len word"
  assumes "at_rest w" "length rstack = 1500" "length wstack = 1000" "length val \<le> 1400" "n < 65536"
    and "stick (slip_encode (packet_of (request_body (ReadParameter p) (next_sequence (dev w))))) =
         slip_encode (packet_of (parameter_answer COMMAND_READ_PARAMETER (next_sequence (dev w)) st p val))"
  shows "\<exists>w'. get_parameter (read_parameter_response n) (worker_wakes rstack wstack stick) p w v =
     Some (Inr (if st \<noteq> STATUS_SUCCESS then -1 else if length val = n then 0 else 255,
                if st = STATUS_SUCCESS \<and> length val = n then le_word val else v, w'))"
  using get_parameter_answered [where stick = stick, OF assms] by blast

lemma at_rest_idle [simp]: "6 \<le> n \<Longrightarrow> at_rest (idle_world n)"
  by (simp add: at_rest_def queues_def idle_world_def roomy_def sizeof_ptr_def conbee_queue_init_def
      sends_ok_def connected_def conbee_const)

lemma next_sequence_idle [simp]: "next_sequence (dev (idle_world n)) = 0"
  by (simp add: idle_world_def)

theorem getter_result_witness:
  "\<exists>w'. get_parameter (read_parameter_response 4)
       (worker_wakes (replicate 1500 0) (replicate 1000 0)
         (\<lambda>_. slip_encode (packet_of (parameter_answer COMMAND_READ_PARAMETER 0 0 0x0A [0, 0xF8, 0xFF, 7]))))
       0x0A (idle_world 6) (0 :: u32) = Some (Inr (0, 0x07FFF800, w'))"
proof -
  let ?stick = "\<lambda>_ :: u8 list. slip_encode (packet_of (parameter_answer COMMAND_READ_PARAMETER 0 0 0x0A [0, 0xF8, 0xFF, 7]))"
  have "?stick (slip_encode (packet_of (request_body (ReadParameter 0x0A) (next_sequence (dev (idle_world 6)))))) =
      slip_encode (packet_of (parameter_answer COMMAND_READ_PARAMETER (next_sequence (dev (idle_world 6))) 0 0x0A [0, 0xF8, 0xFF, 7]))"
    by simp
  from getter_result [where stick = ?stick, OF _ _ _ _ _ this, of "replicate 1500 0" "replicate 1000 0" 4 "0 :: u32"]
  show ?thesis by (simp add: conbee_const)
qed

text \<open>
  A getter that returns 0 or 255 leaves one frame more on the heap than there was, with a payload
  of its own: the response, which no queue and no variable of the caller refers to. Every such call
  leaks it.
\<close>

lemma getter_leaks_response:
  fixes v :: "'a::len word"
  assumes "at_rest w" "length rstack = 1500" "length wstack = 1000" "length val \<le> 1400" "n < 65536"
    and "stick (slip_encode (packet_of (request_body (ReadParameter p) (next_sequence (dev w))))) =
         slip_encode (packet_of (parameter_answer COMMAND_READ_PARAMETER (next_sequence (dev w)) STATUS_SUCCESS p val))"
  shows "\<exists>err v' w' f fr. get_parameter (read_parameter_response n) (worker_wakes rstack wstack stick) p w v =
       Some (Inr (err, v', w')) \<and>
     frame_is (mem w') f fr (drop 5 (parameter_answer COMMAND_READ_PARAMETER (next_sequence (dev w)) STATUS_SUCCESS p val)) \<and>
     f \<notin> dom (frames (mem w)) \<and> dom (frames (mem w')) = insert f (dom (frames (mem w))) \<and>
     queue_at (mem w') (receive_queue (dev w')) [] []"
  using get_parameter_answered [where stick = stick, OF assms, of v] unfolding if_P [OF refl] by blast

text \<open>
  A stick that puts any other frame on the line first - an unsolicited state change, an answer with
  another sequence number - makes a getter wait for ever.
\<close>

lemma unsolicited_frame_blocks_getter:
  assumes "at_rest w" "length rstack = 1500" "length wstack = 1000" "5 \<le> length body" "length body \<le> 1498"
    and "stick (slip_encode (packet_of (request_body (ReadParameter p) (next_sequence (dev w))))) =
         slip_encode (packet_of body)"
    and "body ! 0 \<noteq> COMMAND_READ_PARAMETER \<or> body ! 1 \<noteq> next_sequence (dev w)"
  shows "get_parameter reader (worker_wakes rstack wstack stick) p w v = None"
proof -
  have "\<not> wanted (next_sequence (dev w)) COMMAND_READ_PARAMETER (parsed_frame q body)" for q
    using assms(7) by (auto simp: wanted_def parsed_frame_def conbee_const)
  from exchange_unanswered [where stick = stick and req = "ReadParameter p", OF assms(1) _ assms(2-5) _ this] assms(6)
  have "exchange (worker_wakes rstack wstack stick) COMMAND_READ_PARAMETER w (conbee_read_parameter_request (mem w) p) = None"
    by simp
  then show ?thesis by (simp add: get_parameter_def)
qed

lemma set_parameter_answered:
  assumes "at_rest w" "length rstack = 1500" "length wstack = 1000" "length val < 256"
    and "5 \<le> length answer" "length answer \<le> 1490"
    and "answer ! 0 = COMMAND_WRITE_PARAMETER" "answer ! 1 = next_sequence (dev w)"
    and "stick (slip_encode (packet_of (request_body (WriteParameter p val) (next_sequence (dev w))))) =
         slip_encode (packet_of answer)"
  shows "\<exists>w'. set_parameter (worker_wakes rstack wstack stick) w
       (conbee_write_parameter_request (mem w) p val (word_of_nat (length val))) =
     Some (Inr (if answer ! 2 = STATUS_SUCCESS then 0 else -1, w')) \<and>
     dom (frames (mem w')) = dom (frames (mem w)) \<and> dom (blocks (mem w')) = dom (blocks (mem w)) \<and>
     dom (items (mem w')) = dom (items (mem w)) \<and> queue_at (mem w') (receive_queue (dev w')) [] [] \<and> answered w w'"
proof -
  have len: "length answer \<le> 1498" using assms(6) by simp
  have "wanted (next_sequence (dev w)) COMMAND_WRITE_PARAMETER (parsed_frame q answer)" for q
    using assms(7,8) by (simp add: wanted_def parsed_frame_def)
  from exchange_answered [where stick = stick and req = "WriteParameter p val", OF assms(1) _ assms(2,3,5) len assms(9) this]
  obtain w' f q where
    ex: "exchange (worker_wakes rstack wstack stick) COMMAND_WRITE_PARAMETER w
       (conbee_write_parameter_request (mem w) p val (word_of_nat (length val))) = Some (Inr (0, f, w'))"
    and fr: "frame_is (mem w') f (parsed_frame q answer) (drop 5 answer)"
    and empty: "queue_at (mem w') (receive_queue (dev w')) [] []" "f \<notin> dom (frames (mem w))"
      "dom (frames (mem w')) = insert f (dom (frames (mem w)))" "answered w w'"
      "q \<noteq> NULL" "q \<notin> dom (blocks (mem w))" "dom (blocks (mem w')) = insert q (dom (blocks (mem w)))"
      "dom (items (mem w')) = dom (items (mem w))"
    using assms(4) by auto
  have "conbee_frame_success (mem w') f = Inr (if answer ! 2 = STATUS_SUCCESS then 1 else 0)"
    using status_is_ok [OF fr, of STATUS_SUCCESS] by (simp add: conbee_frame_success_def parsed_frame_def)
  then have res: "set_parameter (worker_wakes rstack wstack stick) w
       (conbee_write_parameter_request (mem w) p val (word_of_nat (length val))) =
     Some (Inr (if answer ! 2 = STATUS_SUCCESS then 0 else -1,
       w'\<lparr>mem := without_frame (mem w') f (payload (parsed_frame q answer))\<rparr>))"
    using ex conbee_free_frame_ok [OF fr] by (simp add: set_parameter_def)
  show ?thesis
    by (rule exI, rule conjI, rule res) (use empty in \<open>simp_all add: without_frame_def parsed_frame_def\<close>)
qed

text \<open>
  C38: a setter on a device at rest sends the value, waits for the answer and returns 0 when the answer
  reports success and -1 when it does not. Either way nothing stays on the heap: of the request and the response, the frames,
  their payloads and the items of the two queues have all been freed, and nothing else has.
\<close>

theorem setter_result:
  assumes "at_rest w" "length rstack = 1500" "length wstack = 1000" "length val < 256"
    and "5 \<le> length answer" "length answer \<le> 1490"
    and "answer ! 0 = COMMAND_WRITE_PARAMETER" "answer ! 1 = next_sequence (dev w)"
    and "stick (slip_encode (packet_of (request_body (WriteParameter p val) (next_sequence (dev w))))) =
         slip_encode (packet_of answer)"
  shows "\<exists>w'. set_parameter (worker_wakes rstack wstack stick) w
       (conbee_write_parameter_request (mem w) p val (word_of_nat (length val))) =
     Some (Inr (if answer ! 2 = STATUS_SUCCESS then 0 else -1, w')) \<and>
     dom (frames (mem w')) = dom (frames (mem w)) \<and> dom (blocks (mem w')) = dom (blocks (mem w)) \<and>
     dom (items (mem w')) = dom (items (mem w)) \<and> queue_at (mem w') (receive_queue (dev w')) [] []"
  using set_parameter_answered [where stick = stick, OF assms] by blast

theorem setter_result_witness:
  "\<exists>w'. set_parameter (worker_wakes (replicate 1500 0) (replicate 1000 0)
       (\<lambda>_. slip_encode (packet_of [0x0B, 0, 7, 5, 0]))) (idle_world 6)
       (conbee_write_parameter_request (mem (idle_world 6)) 0x0A [1, 2, 3, 4] (word_of_nat (length [1, 2, 3, 4 :: u8]))) =
     Some (Inr (-1, w')) \<and> dom (frames (mem w')) = {} \<and> dom (blocks (mem w')) = {} \<and> dom (items (mem w')) = {} \<and>
     queue_at (mem w') (receive_queue (dev w')) [] []"
  using setter_result [where stick = "\<lambda>_. slip_encode (packet_of [0x0B, 0, 7, 5, 0])" and w = "idle_world 6"
      and val = "[1, 2, 3, 4]" and p = "0x0A" and rstack = "replicate 1500 0" and wstack = "replicate 1000 0"
      and answer = "[0x0B, 0, 7, 5, 0]"]
  by (simp add: conbee_const)

text \<open>
  The firmware version is taken from the last four bytes of the answer, last byte first, and the
  call returns 0 whatever status the answer carries. No frame stays on the heap.
\<close>

lemma firmware_version_result:
  assumes "at_rest w" "length rstack = 1500" "length wstack = 1000"
    and "stick (slip_encode (packet_of (request_body ReadFirmware (next_sequence (dev w))))) =
         slip_encode (packet_of [COMMAND_VERSION, next_sequence (dev w), st, l0, l1, b0, b1, b2, b3])"
  shows "\<exists>w'. conbee_get_firmware_version (worker_wakes rstack wstack stick) w version =
     Some (Inr (0, \<lparr>major = b3, minor = b2, platform = b1, reserved = b0\<rparr>, w')) \<and>
     dom (frames (mem w')) = dom (frames (mem w))"
proof -
  let ?body = "[COMMAND_VERSION, next_sequence (dev w), st, l0, l1, b0, b1, b2, b3]"
  have "wanted (next_sequence (dev w)) COMMAND_VERSION (parsed_frame q ?body)" for q
    by (simp add: wanted_def parsed_frame_def)
  from exchange_answered [where stick = stick and req = ReadFirmware, OF assms(1) _ assms(2,3) _ _ assms(4) this]
  obtain w' f q where
    ex: "exchange (worker_wakes rstack wstack stick) COMMAND_VERSION w (conbee_read_firmware_request (mem w)) =
      Some (Inr (0, f, w'))" and fr: "frame_is (mem w') f (parsed_frame q ?body) (drop 5 ?body)"
    and kept: "f \<notin> dom (frames (mem w))" "dom (frames (mem w')) = insert f (dom (frames (mem w)))"
    by auto
  have "read_bytes (mem w') (payload (parsed_frame q ?body)) 0 4 = Inr [b0, b1, b2, b3]"
    using fr by (auto simp: frame_is_def read_bytes_ok split: if_splits)
  moreover have "command (parsed_frame q ?body) = COMMAND_VERSION" by (simp add: parsed_frame_def)
  moreover have "version_of_bytes (rev [b0, b1, b2, b3]) = \<lparr>major = b3, minor = b2, platform = b1, reserved = b0\<rparr>"
    by (simp add: version_of_bytes_def numeral_2_eq_2 numeral_3_eq_3)
  ultimately have "conbee_get_version (mem w') f version = Inr (0, \<lparr>major = b3, minor = b2, platform = b1, reserved = b0\<rparr>)"
    using fr ntohl_le_word [of "[b0, b1, b2, b3]"] by (simp add: conbee_get_version_def frame_is_def)
  then show ?thesis
    using ex conbee_free_frame_ok [OF fr] kept by (simp add: conbee_get_firmware_version_def)
qed

text \<open>
  The MAC address of a right answer is handed over byte by byte in the order of the line. An answer
  of another size is reported as 255, and the caller's array is filled with whatever an uninitialised
  variable held.
\<close>

lemma mac_address_result:
  assumes "at_rest w" "length rstack = 1500" "length wstack = 1000" "length val \<le> 1400"
    and "stick (slip_encode (packet_of (request_body (ReadParameter PARAM_MAC_ADDRESS) (next_sequence (dev w))))) =
         slip_encode (packet_of (parameter_answer COMMAND_READ_PARAMETER (next_sequence (dev w)) STATUS_SUCCESS PARAM_MAC_ADDRESS val))"
  shows "\<exists>w'. conbee_get_mac_address (worker_wakes rstack wstack stick) local_value w mac =
     Some (Inr (if length val = 8 then (0, val, w') else (255, le_bytes 8 local_value, w')))"
proof -
  obtain w' where "get_parameter (read_parameter_response 8) (worker_wakes rstack wstack stick) PARAM_MAC_ADDRESS w local_value =
      Some (Inr (if length val = 8 then 0 else 255, if length val = 8 then le_word val else local_value, w'))"
    using get_parameter_answered [where stick = stick, OF assms(1-4) _ assms(5), of 8 local_value] by auto
  moreover have "length val = 8 \<Longrightarrow> le_bytes 8 (le_word val :: u64) = val"
    using le_bytes_le_word [where 'a = 64, of val] by simp
  ultimately show ?thesis
    by (auto simp: conbee_get_mac_address_def conbee_read_parameter_response_uint64_def)
qed

end
