(* ===== verification/Startup.thy ===== *)
theory Startup
  imports Api
begin

text \<open>
  The race at the end of \<open>conbee_connect\<close> of \<open>src/conbee.c\<close>: the worker thread is created before \<open>tty_status\<close> is
  set, so its first turns may find a device that is not connected yet. The connected device the other
  theories start from is the one of a worker that begins later. The theory shows what the calls of \<open>src/conbee-functions.c\<close> do on
  such a device, and the device that \<open>conbee_connect\<close> calls connected
  when the worker could not be created at all.
\<close>

subsection \<open>Connecting with a worker that begins at once\<close>

text \<open>\<open>ts\<close> are the turns the worker takes before the calling thread sets \<open>tty_status\<close>.\<close>

definition connect_racing ::
  "connect_env \<Rightarrow> turn list \<Rightarrow> world \<Rightarrow> u8 list \<Rightarrow> (ub + int \<times> world) option" where
  "connect_racing env ts w ttyname =
     (case connect_start env w ttyname of
        Inl e \<Rightarrow> Some (Inl e)
      | Inr (err, w) \<Rightarrow>
          if err < 0 then Some (Inr (err, w))
          else map_option (\<lambda>r. bindE r (\<lambda>w. Inr (0, w\<lparr>dev := (dev w)\<lparr>tty_status := TTY_CONNECTED\<rparr>\<rparr>)))
                 (if worker_created w then conbee_send_receive ts w else Some (Inr w)))"

text \<open>Without such a turn the outcome is that of \<open>conbee_connect\<close>, with a worker that has begun.\<close>

lemma connect_racing_no_turn:
  assumes "conbee_connect env w name = Inr (r, v)"
  shows "connect_racing env [] w name =
     Some (Inr (r, if r = 0 \<and> worker_created v then v\<lparr>dev := (dev v)\<lparr>worker_running := 1\<rparr>\<rparr> else v))"
proof -
  obtain err u where u: "connect_start env w name = Inr (err, u)"
    and v: "(if err < 0 then Inr (err, u) else Inr (0, u\<lparr>dev := (dev u)\<lparr>tty_status := TTY_CONNECTED\<rparr>\<rparr>)) = (Inr (r, v) :: ub + int \<times> world)"
    using assms by (cases "connect_start env w name") (auto simp: conbee_connect_def)
  show ?thesis
    using v by (cases "err < 0") (auto simp: connect_racing_def u conbee_send_receive_def)
qed

text \<open>
  The worker reads from the line whenever \<open>select\<close> says so, and \<open>conbee_read_frame\<close> refuses at once on a
  device that is not connected: the frame it was to fill is queued as it was made.
\<close>

lemma worker_receive_disconnected:
  assumes "\<not> connected w" "queues w cs ds" "2 \<le> avail (mem w)"
  obtains w' where "worker_receive stack w = Some (Inr w')" and "queues w' cs (ds @ [brk (mem w)])"
    and "frames (mem w') = (frames (mem w))(brk (mem w) \<mapsto> blank_frame)"
    and "avail (mem w') = avail (mem w) - 2" and "\<not> connected w'" "tty_in w' = tty_in w" "worker_stop (dev w') = worker_stop (dev w)"
proof -
  let ?w = "w\<lparr>mem := blank_heap (mem w)\<rparr>"
  have ok: "heap_ok (mem w)" using assms(2) by (simp add: queues_def)
  have "queues ?w cs ds" by (rule queues_mem [OF assms(2)]) (simp_all add: ok blank_heap_ok)
  moreover have "0 < avail (mem ?w)" using assms(3) by simp
  ultimately obtain h' q' where push: "conbee_queue_push (mem ?w) (receive_queue (dev ?w)) (brk (mem w)) = Inr (h', q')"
    "queues (?w\<lparr>mem := h', dev := (dev ?w)\<lparr>receive_queue := q'\<rparr>\<rparr>) cs (ds @ [brk (mem w)])"
    "frames h' = frames (mem ?w)" "avail h' = avail (mem ?w) - 1"
    by (rule push_received [where f = "brk (mem w)"]) blast
  have "conbee_read_frame stack ?w (brk (mem w)) = Some (Inr (-2, ?w))"
    using assms(1) by (simp add: conbee_read_frame_def connected_def)
  then have "worker_receive stack w = Some (Inr (?w\<lparr>mem := h', dev := (dev ?w)\<lparr>receive_queue := q'\<rparr>\<rparr>))"
    using push(1) assms(3) ok by (simp add: worker_receive_def init_frame_blank)
  then show ?thesis using that push(2-4) assms(1) by (simp add: connected_def)
qed

text \<open>A turn before anything can have been sent: nothing, or the line is ready, or \<open>select\<close> failed.\<close>

definition early_turn :: "turn \<Rightarrow> bool" where
  "early_turn t \<longleftrightarrow> meanwhile t = (\<lambda>w. w) \<and> (selected t = SelTimeout \<or> fd_isset (selected t))"

definition blanks :: "heap \<Rightarrow> addr list \<Rightarrow> bool" where
  "blanks h ds \<longleftrightarrow> (\<forall>d\<in>set ds. frames h d = Some blank_frame)"

lemma early_turns_run:
  assumes "\<forall>t\<in>set ts. early_turn t" "\<not> connected w" "worker_stop (dev w) = 0" "queues w [] ds" "blanks (mem w) ds"
    and "2 * length (filter (\<lambda>t. fd_isset (selected t)) ts) \<le> avail (mem w)"
  shows "\<exists>w' ds'. worker_loop ts False w = Some (Inr w') \<and> queues w' [] ds' \<and> blanks (mem w') ds' \<and>
     length ds' = length ds + length (filter (\<lambda>t. fd_isset (selected t)) ts) \<and> tty_in w' = tty_in w \<and>
     avail (mem w) = avail (mem w') + 2 * length (filter (\<lambda>t. fd_isset (selected t)) ts)"
  using assms
proof (induction ts arbitrary: w ds)
  case Nil
  then show ?case by auto
next
  case (Cons t ts)
  have t: "meanwhile t = (\<lambda>w. w)" "early_turn t" using Cons.prems(1) by (simp_all add: early_turn_def)
  show ?case
  proof (cases "fd_isset (selected t)")
    case False
    then have "selected t = SelTimeout" using t(2) by (simp add: early_turn_def)
    then have "worker_loop (t # ts) False w = worker_loop ts False w"
      using t(1) Cons.prems(3) by (simp add: worker_turn_def)
    then show ?thesis using Cons.IH [of w ds] Cons.prems False by simp
  next
    case True
    then have room: "2 \<le> avail (mem w)" using Cons.prems(6) by simp
    obtain v where v: "worker_receive (read_stack t) w = Some (Inr v)" "queues v [] (ds @ [brk (mem w)])"
      "frames (mem v) = (frames (mem w))(brk (mem w) \<mapsto> blank_frame)" "avail (mem v) = avail (mem w) - 2"
      "\<not> connected v" "tty_in v = tty_in w" "worker_stop (dev v) = worker_stop (dev w)"
      by (rule worker_receive_disconnected [OF Cons.prems(2,4) room])
    have blank: "blanks (mem v) (ds @ [brk (mem w)])" using Cons.prems(5) v(3) by (auto simp: blanks_def)
    have "2 * length (filter (\<lambda>t. fd_isset (selected t)) ts) \<le> avail (mem v)" using Cons.prems(6) v(4) True by simp
    from Cons.IH [OF _ v(5) _ v(2) blank this] obtain w' ds' where w': "worker_loop ts False v = Some (Inr w')" "queues w' [] ds'" "blanks (mem w') ds'"
       "length ds' = length (ds @ [brk (mem w)]) + length (filter (\<lambda>t. fd_isset (selected t)) ts)" "tty_in w' = tty_in v"
       "avail (mem v) = avail (mem w') + 2 * length (filter (\<lambda>t. fd_isset (selected t)) ts)"
      using Cons.prems(1,3) v(7) by auto
    have "selected t \<noteq> SelTimeout" using True by auto
    then have "worker_loop (t # ts) False w = worker_loop ts False v"
      using t(1) Cons.prems(3) v(1) True by (simp add: worker_turn_def)
    with w' show ?thesis using v(4,6) True room by (intro exI [of _ w'] exI [of _ ds']) simp
  qed
qed

lemma connect_start_ok:
  assumes "all_calls_succeed env" "thread_result env = 0" "length (tty (dev w)) = 200" "roomy (mem w)" "heap_ok (mem w)"
  obtains v where "connect_start env w name = Inr (0, v)" and "worker_created v" "\<not> connected v"
    and "worker_stop (dev v) = 0" "queues v [] []" "mem v = mem w" "tty_in v = tty_in w"
  by (rule that [of "snd (projr (connect_start env w name))"])
    (use assms in \<open>auto simp: connect_start_def copy_ttyname_ok all_calls_succeed_def connected_def conbee_const
      queues_def conbee_queue_init_def Let_def\<close>)

text \<open>
  With a frame of zeros at the front of the receive queue a request is taken as always, and the call that has enqueued it
  looks at that frame for ever.
\<close>

lemma blank_head_blocks_wait:
  assumes "queues v cs (d # ds)" "frames (mem v) d = Some blank_frame" "seqn \<noteq> 0 \<or> cmd \<notin> {0, COMMAND_ANY}"
  shows "conbee_wait_for_frame cond_wait v seqn cmd = None"
proof -
  obtain bs where bs: "queue_at (mem v) (receive_queue (dev v)) bs (d # ds)" "roomy (mem v)" "heap_ok (mem v)"
    using assms(1) by (auto simp: queues_def)
  obtain a as where "bs = a # as" using bs(1) by (rule queue_at_Cons)
  moreover have "\<not> wanted seqn cmd blank_frame" using assms(3) by (auto simp: wanted_def blank_frame_def)
  ultimately show ?thesis using wait_spins_on_head [of v a as d ds] bs assms(2) by simp
qed

lemma blank_head_blocks_exchange:
  assumes "queues v [] (d # ds)" "frames (mem v) d = Some blank_frame" "3 \<le> avail (mem v)" "request_fits req"
    and "cmd \<notin> {0, COMMAND_ANY}"
  shows "exchange cond_wait cmd v (build_request req (mem v)) = None"
proof -
  have og: "outgoing (mem v) [] []" by simp
  obtain w c where w: "submit v req = Inr (int (unat (next_sequence (dev v))), w)" "queues w ([] @ [c]) (d # ds)"
    "c \<notin> dom (frames (mem v))" "\<And>x. x \<noteq> c \<Longrightarrow> frames (mem w) x = frames (mem v) x"
    by (rule submit_ok [OF assms(1) og assms(3,4)]) blast
  then have "frames (mem w) d = Some blank_frame" using assms(2) by (metis domI)
  from blank_head_blocks_wait [OF w(2) this, of _ cmd cond_wait] show ?thesis
    using w(1) assms(5) by (simp add: exchange_def submit_def)
qed

text \<open>Every call of \<open>src/conbee-functions.c\<close>, whatever its arguments are, never returns.\<close>

definition getters_hang :: "(world \<Rightarrow> (ub + world) option) \<Rightarrow> world \<Rightarrow> bool" where
  "getters_hang cond_wait v \<longleftrightarrow>
     (\<forall>version. conbee_get_firmware_version cond_wait v version = None) \<and>
     (\<forall>local mac. conbee_get_mac_address cond_wait local v mac = None) \<and>
     (\<forall>x. conbee_get_nwk_panid cond_wait v x = None) \<and> (\<forall>x. conbee_get_nwk_address cond_wait v x = None) \<and>
     (\<forall>x. conbee_get_nwk_extended_panid cond_wait v x = None) \<and> (\<forall>x. conbee_get_network_mode cond_wait v x = None) \<and>
     (\<forall>x. conbee_get_channel_mask cond_wait v x = None) \<and> (\<forall>x. conbee_get_aps_extended_panid cond_wait v x = None) \<and>
     (\<forall>x. conbee_get_trust_center_addr cond_wait v x = None) \<and> (\<forall>x. conbee_get_security_mode cond_wait v x = None)"

definition setters_hang :: "(world \<Rightarrow> (ub + world) option) \<Rightarrow> world \<Rightarrow> bool" where
  "setters_hang cond_wait v \<longleftrightarrow>
     (\<forall>x. conbee_set_network_mode cond_wait v x = None) \<and> (\<forall>x. conbee_set_channel_mask cond_wait v x = None) \<and>
     (\<forall>x. conbee_set_aps_extended_panid cond_wait v x = None) \<and> (\<forall>x. conbee_set_trust_center_addr cond_wait v x = None) \<and>
     (\<forall>x. conbee_set_security_mode cond_wait v x = None)"

lemma blank_head_blocks_calls:
  assumes "queues v [] (d # ds)" "frames (mem v) d = Some blank_frame" "3 \<le> avail (mem v)"
  shows "getters_hang cond_wait v" "setters_hang cond_wait v"
proof -
  note ex = blank_head_blocks_exchange [OF assms]
  have get: "get_parameter reader cond_wait p v x = None" for reader :: "heap \<Rightarrow> addr \<Rightarrow> 'b \<Rightarrow> ub + int \<times> 'b" and p x
    using ex [of "ReadParameter p" COMMAND_READ_PARAMETER cond_wait] by (simp add: get_parameter_def conbee_const)
  have version: "conbee_get_firmware_version cond_wait v x = None" for x
    using ex [of ReadFirmware COMMAND_VERSION cond_wait] by (simp add: conbee_get_firmware_version_def conbee_const)
  have set: "set_parameter cond_wait v (conbee_write_parameter_request (mem v) p val (word_of_nat (length val))) = None"
    if "length val < 256" for p val
    using ex [of "WriteParameter p val" COMMAND_WRITE_PARAMETER cond_wait] that by (simp add: set_parameter_def conbee_const)
  show "getters_hang cond_wait v"
    by (simp add: getters_hang_def version get conbee_get_mac_address_def conbee_get_nwk_panid_def conbee_get_nwk_address_def
        conbee_get_nwk_extended_panid_def conbee_get_network_mode_def conbee_get_channel_mask_def conbee_get_aps_extended_panid_def
        conbee_get_trust_center_addr_def conbee_get_security_mode_def)
  have val: "set_parameter cond_wait v (conbee_write_parameter_request (mem v) p (le_bytes n x) (word_of_nat n)) = None"
    if "n < 256" for p n and x :: "'c::len word"
    using set [of "le_bytes n x" p] that by simp
  show "setters_hang cond_wait v"
    by (simp add: setters_hang_def val [of 1, simplified] val [of 4, simplified] val [of 8, simplified] conbee_set_network_mode_def conbee_set_channel_mask_def conbee_set_aps_extended_panid_def
        conbee_set_trust_center_addr_def conbee_set_security_mode_def conbee_write_parameter_request_uint8_def
        conbee_write_parameter_request_uint32_def conbee_write_parameter_request_uint64_def)
qed

text \<open>
  C19: The worker may find the line ready before \<open>conbee_connect\<close> has set \<open>tty_status\<close>. Each such turn puts one frame
  of zeros into the receive queue without reading a byte. \<open>conbee_connect\<close> then returns 0 all the same, and if there
  was such a turn, none of the ten getters and five setters ever returns when it is called then, with memory left for its request: the request is built, numbered and enqueued,
  and its wait looks at the frame of zeros for ever. So does every wait for a frame with another command or
  sequence number than zero.
\<close>

theorem early_worker_blocks_library:
  assumes "all_calls_succeed env" "thread_result env = 0" "length (tty (dev w)) = 200" "roomy (mem w)" "heap_ok (mem w)"
    and "\<forall>t\<in>set ts. early_turn t" "2 * length (filter (\<lambda>t. fd_isset (selected t)) ts) + 3 \<le> avail (mem w)"
  shows "\<exists>v ds. connect_racing env ts w name = Some (Inr (0, v)) \<and> connected v \<and> tty_in v = tty_in w \<and>
     queues v [] ds \<and> length ds = length (filter (\<lambda>t. fd_isset (selected t)) ts) \<and> blanks (mem v) ds \<and>
     (ds = [] \<or> getters_hang cond_wait v \<and> setters_hang cond_wait v \<and>
        (\<forall>seqn cmd. seqn \<noteq> 0 \<or> cmd \<notin> {0, COMMAND_ANY} \<longrightarrow> conbee_wait_for_frame cond_wait v seqn cmd = None))"
proof -
  obtain u where u: "connect_start env w name = Inr (0, u)" "worker_created u" "\<not> connected u"
    "worker_stop (dev u) = 0" "queues u [] []" "mem u = mem w" "tty_in u = tty_in w"
    by (rule connect_start_ok [OF assms(1-5)])
  let ?u = "u\<lparr>dev := (dev u)\<lparr>worker_running := 1\<rparr>\<rparr>"
  have "\<not> connected ?u" "queues ?u [] []" using u(3,5) by (simp_all add: connected_def queues_def)
  then obtain x ds where x: "worker_loop ts False ?u = Some (Inr x)" "queues x [] ds" "blanks (mem x) ds"
    "length ds = length (filter (\<lambda>t. fd_isset (selected t)) ts)" "tty_in x = tty_in ?u" "3 \<le> avail (mem x)"
    using early_turns_run [OF assms(6), of ?u "[]"] u(4,6) assms(7) by (auto simp: blanks_def)
  let ?v = "x\<lparr>dev := (dev x)\<lparr>tty_status := TTY_CONNECTED\<rparr>\<rparr>"
  have v: "queues ?v [] ds" "blanks (mem ?v) ds" "connected ?v" "3 \<le> avail (mem ?v)"
    using x by (simp_all add: queues_def connected_def conbee_const)
  have "getters_hang cond_wait ?v \<and> setters_hang cond_wait ?v \<and>
      (\<forall>seqn cmd. seqn \<noteq> 0 \<or> cmd \<notin> {0, COMMAND_ANY} \<longrightarrow> conbee_wait_for_frame cond_wait ?v seqn cmd = None)" if ne: "ds \<noteq> []"
  proof -
    obtain d ds' where ds: "ds = d # ds'" using ne by (cases ds) auto
    then have d: "frames (mem ?v) d = Some blank_frame" using v(2) by (simp add: blanks_def)
    from blank_head_blocks_calls [OF v(1) [unfolded ds] d v(4)] blank_head_blocks_wait [OF v(1) [unfolded ds] d] show ?thesis by blast
  qed
  then show ?thesis
    using u x v by (intro exI [of _ ?v] exI [of _ ds]) (auto simp: connect_racing_def conbee_send_receive_def)
qed

text \<open>A stick that speaks as soon as the line is open, with one early turn: the first request for the firmware version hangs.\<close>

definition speaking_stick :: world where
  "speaking_stick = tty_feed [END] ((idle_world 6)\<lparr>dev := (dev (idle_world 6))\<lparr>tty := replicate 200 0\<rparr>\<rparr>)"

definition working_calls :: connect_env where
  "working_calls = \<lparr>open_result = 3, tcgetattr_result = 0, cfsetospeed_result = 0, cfsetispeed_result = 0,
     tcsetattr_result = 0, pipe_result = 0, pipe_fds = (4, 5), thread_result = 0\<rparr>"

theorem early_worker_blocks_library_witness:
  "\<exists>v. connect_racing working_calls [\<lparr>meanwhile = \<lambda>w. w, selected = SelReady True False, read_stack = [], write_stack = []\<rparr>]
       speaking_stick [47] = Some (Inr (0, v)) \<and> getters_hang (\<lambda>_. None) v \<and> setters_hang (\<lambda>_. None) v"
proof -
  let ?t = "\<lparr>meanwhile = \<lambda>w. w, selected = SelReady True False, read_stack = [], write_stack = []\<rparr>"
  have "all_calls_succeed working_calls" "thread_result working_calls = 0" "length (tty (dev speaking_stick)) = 200"
    "roomy (mem speaking_stick)" "heap_ok (mem speaking_stick)" "\<forall>t\<in>set [?t]. early_turn t"
    "2 * length (filter (\<lambda>t. fd_isset (selected t)) [?t]) + 3 \<le> avail (mem speaking_stick)"
    by (simp_all add: working_calls_def speaking_stick_def all_calls_succeed_def early_turn_def idle_world_def
        roomy_def sizeof_ptr_def)
  from early_worker_blocks_library [OF this, of "[47]" "\<lambda>_. None"] show ?thesis
    by (auto simp: conbee_const)
qed

subsection \<open>Connecting without a worker\<close>

text \<open>\<open>conbee_connect\<close> does not look at what \<open>pthread_create\<close> returns. A caller that nobody answers is woken, if at all, by
  nothing: it finds the receive queue empty again.\<close>

definition wakes_to_nothing :: "(world \<Rightarrow> (ub + world) option) \<Rightarrow> bool" where
  "wakes_to_nothing cond_wait \<longleftrightarrow> (\<forall>u r. head (receive_queue (dev u)) = NULL \<longrightarrow> cond_wait u = Some r \<longrightarrow>
     (\<exists>v. r = Inr v \<and> head (receive_queue (dev v)) = NULL))"

lemma wait_for_nothing:
  assumes wake: "wakes_to_nothing cond_wait" and empty: "head (receive_queue (dev w)) = NULL"
  shows "conbee_wait_for_frame cond_wait w seqn cmd = None"
proof (rule ccontr)
  let ?P = "\<lambda>cw w seqn cmd r. cw = cond_wait \<longrightarrow> head (receive_queue (dev w)) \<noteq> NULL"
  assume "conbee_wait_for_frame cond_wait w seqn cmd \<noteq> None"
  then obtain r where "conbee_wait_for_frame cond_wait w seqn cmd = Some r" by auto
  then have "?P cond_wait w seqn cmd r"
  proof (rule conbee_wait_for_frame.raw_induct [where P = ?P, rotated])
    fix wait :: "(world \<Rightarrow> (ub + world) option) \<Rightarrow> world \<Rightarrow> u8 \<Rightarrow> u8 \<Rightarrow> (ub + int \<times> addr \<times> world) option"
      and cw :: "world \<Rightarrow> (ub + world) option" and w seqn cmd y
    assume IH: "\<And>cw w seqn cmd y. wait cw w seqn cmd = Some y \<Longrightarrow> ?P cw w seqn cmd y"
      and eq: "Option.bind (wait_scan (mem w) (receive_queue (dev w)) (head (receive_queue (dev w))) seqn cmd) (\<lambda>r.
       case r of
         Inl e \<Rightarrow> Some (Inl e)
       | Inr (found, help_frame, h, q) \<Rightarrow>
           if found then Some (Inr (0, help_frame, w\<lparr>mem := h, dev := (dev w)\<lparr>receive_queue := q\<rparr>\<rparr>))
           else Option.bind (cw w) (\<lambda>r.
                  case r of Inl e \<Rightarrow> Some (Inl e) | Inr w \<Rightarrow> wait cw w seqn cmd)) = Some y"
    show "?P cw w seqn cmd y"
    proof (intro impI notI)
      assume cw: "cw = cond_wait" and hd: "head (receive_queue (dev w)) = NULL"
      then obtain r where r: "cond_wait w = Some r" using eq by (cases "cond_wait w") (simp_all add: wait_scan_empty)
      then obtain v where v: "r = Inr v" "head (receive_queue (dev v)) = NULL"
        using wake hd unfolding wakes_to_nothing_def by blast
      show False using eq IH [of cw v seqn cmd y] cw hd r v by (simp add: wait_scan_empty)
    qed
  qed
  with empty show False by simp
qed

text \<open>C20: When \<open>pthread_create\<close> fails, \<open>conbee_connect\<close> returns 0 and marks the device connected all the same, with no worker. A
  request is then taken and given its number as always, and the call that waits for the answer never returns,
  even if it is woken for no reason again and again.\<close>

theorem connect_without_worker:
  assumes "all_calls_succeed env" "thread_result env \<noteq> 0" "length (tty (dev w)) = 200" "roomy (mem w)" "heap_ok (mem w)"
    and "3 \<le> avail (mem w)" "request_fits req" "wakes_to_nothing cond_wait"
  shows "\<exists>v u. conbee_connect env w name = Inr (0, v) \<and> connected v \<and> \<not> worker_created v \<and> submit v req = Inr (0, u) \<and>
     conbee_wait_for_frame cond_wait u 0 cmd = None"
proof -
  obtain v where v: "conbee_connect env w name = Inr (0, v)" "connected v" "\<not> worker_created v" "mem v = mem w"
    "send_queue (dev v) = conbee_queue_init" "receive_queue (dev v) = conbee_queue_init" "next_sequence (dev v) = 0"
    by (rule conbee_connect_cases [OF assms(3), of env name]) (use assms(1,2) in auto)
  have q: "queues v [] []" using v(4-6) assms(4,5) by (simp add: queues_def conbee_queue_init_def)
  have out: "outgoing (mem v) [] []" and room: "3 \<le> avail (mem v)" using v(4) assms(6) by simp_all
  obtain u c where u: "submit v req = Inr (0, u)" "queues u ([] @ [c]) []"
    by (rule submit_ok [OF q out room assms(7)]) (use v(7) in simp)
  have "head (receive_queue (dev u)) = NULL" using u(2) by (auto simp: queues_def)
  then show ?thesis using v(1-3) u(1) wait_for_nothing [OF assms(8)] by blast
qed

theorem connect_without_worker_witness:
  "\<exists>v u. conbee_connect (working_calls\<lparr>thread_result := 11\<rparr>) speaking_stick [47] = Inr (0, v) \<and> \<not> worker_created v \<and>
     submit v ReadFirmware = Inr (0, u) \<and> conbee_wait_for_frame (\<lambda>w. Some (Inr w)) u 0 COMMAND_VERSION = None"
proof -
  have "all_calls_succeed (working_calls\<lparr>thread_result := 11\<rparr>)" "thread_result (working_calls\<lparr>thread_result := 11\<rparr>) \<noteq> 0"
    "length (tty (dev speaking_stick)) = 200" "roomy (mem speaking_stick)" "heap_ok (mem speaking_stick)"
    "3 \<le> avail (mem speaking_stick)" "request_fits ReadFirmware" "wakes_to_nothing (\<lambda>w. Some (Inr w))"
    by (simp_all add: working_calls_def speaking_stick_def all_calls_succeed_def idle_world_def roomy_def sizeof_ptr_def
        wakes_to_nothing_def)
  from connect_without_worker [OF this, of "[47]" COMMAND_VERSION] show ?thesis by blast
qed

end
