(* ===== verification/Threads.thy ===== *)
theory Threads
  imports Transport
begin

text \<open>
  The threads of the library interleaved statement by statement: any number of callers that each run
  \<open>conbee_enqueue_frame\<close> and \<open>conbee_wait_for_frame\<close> of \<open>src/conbee.c\<close> again and again, and the worker of
  \<open>src/conbee-send-receive.c\<close>, with the four mutexes, the condition variable and the pipe. The queues
  are lists of frames here, which is what \<open>Queue\<close> shows them to be; the stick may deliver any frame at
  any time. A caller may wake up without a signal, as POSIX allows, and a write to a full pipe blocks.
\<close>

subsection \<open>State\<close>

text \<open>The four mutexes of the device that these functions use, and who can own one.\<close>

datatype mutex = MutexSequence | MutexSend | MutexPipe | MutexReceive

datatype thread = Worker | Caller nat

text \<open>
  The statement a caller is about to execute: in \<open>conbee_enqueue_frame\<close> from \<open>CLockSequence\<close> to
  \<open>CUnlockPipe\<close>, in \<open>conbee_wait_for_frame\<close> from \<open>CLockReceive\<close> to \<open>CWoken\<close>.
\<close>

datatype caller_pc =
    CLockSequence | CReadSequence | CIncSequence | CUnlockSequence | CStamp
  | CLockSend | CPush | CUnlockSend
  | CLockPipe | CWritePipe | CUnlockPipe
  | CLockReceive | CScan | CUnlockReceive | CRelock | CCondWait | CSleep | CWoken
  | CDone

record caller =
  cpc :: caller_pc
  cframe :: conbee_frame
  cseq :: u8
  ccmd :: u8
  cfound :: "conbee_frame option"

datatype worker_pc =
    WSelect
  | WLockReceive conbee_frame | WPush conbee_frame | WSignal | WUnlockReceive
  | WReadPipe | WLockSend | WPop | WUnlockSend "conbee_frame option" | WWrite "conbee_frame option"

text \<open>
  \<open>handed_out\<close>, \<open>pushed\<close> and \<open>sent\<close> only record what happened: the sequence numbers given to callers,
  the frames put on the send queue and the frames given to \<open>conbee_write_frame\<close>.
\<close>

record system =
  owner :: "mutex \<Rightarrow> thread option"
  sequence :: u8
  sendq :: "conbee_frame list"
  recvq :: "conbee_frame list"
  pipe_bytes :: nat
  callers :: "nat \<Rightarrow> caller"
  wpc :: worker_pc
  handed_out :: "u8 list"
  pushed :: "conbee_frame list"
  sent :: "conbee_frame list"

definition lock_mutex :: "mutex \<Rightarrow> thread \<Rightarrow> system \<Rightarrow> system" where
  "lock_mutex m t s = s\<lparr>owner := (owner s)(m := Some t)\<rparr>"

definition unlock_mutex :: "mutex \<Rightarrow> system \<Rightarrow> system" where
  "unlock_mutex m s = s\<lparr>owner := (owner s)(m := None)\<rparr>"

definition goto :: "nat \<Rightarrow> caller_pc \<Rightarrow> system \<Rightarrow> system" where
  "goto i pc s = s\<lparr>callers := (callers s)(i := (callers s i)\<lparr>cpc := pc\<rparr>)\<rparr>"

definition upd_caller :: "nat \<Rightarrow> (caller \<Rightarrow> caller) \<Rightarrow> system \<Rightarrow> system" where
  "upd_caller i f s = s\<lparr>callers := (callers s)(i := f (callers s i))\<rparr>"

subsection \<open>Steps\<close>

text \<open>What a pipe holds on Linux; a write of two bytes is atomic and waits until both fit.\<close>

definition pipe_capacity :: nat where [simp]: "pipe_capacity = 65536"

inductive caller_step :: "nat \<Rightarrow> system \<Rightarrow> system \<Rightarrow> bool" for i where
  lock_sequence: "cpc (callers s i) = CLockSequence \<Longrightarrow> owner s MutexSequence = None \<Longrightarrow>
     caller_step i s (goto i CReadSequence (lock_mutex MutexSequence (Caller i) s))"
| read_sequence: "cpc (callers s i) = CReadSequence \<Longrightarrow>
     caller_step i s (goto i CIncSequence (upd_caller i (\<lambda>c. c\<lparr>cseq := sequence s\<rparr>)
       (s\<lparr>handed_out := handed_out s @ [sequence s]\<rparr>)))"
| inc_sequence: "cpc (callers s i) = CIncSequence \<Longrightarrow>
     caller_step i s (goto i CUnlockSequence (s\<lparr>sequence := sequence s + 1\<rparr>))"
| unlock_sequence: "cpc (callers s i) = CUnlockSequence \<Longrightarrow>
     caller_step i s (goto i CStamp (unlock_mutex MutexSequence s))"
| stamp: "cpc (callers s i) = CStamp \<Longrightarrow>
     caller_step i s (goto i CLockSend (upd_caller i (\<lambda>c. c\<lparr>cframe := (cframe c)\<lparr>sequence_number := cseq c\<rparr>\<rparr>) s))"
| lock_send: "cpc (callers s i) = CLockSend \<Longrightarrow> owner s MutexSend = None \<Longrightarrow>
     caller_step i s (goto i CPush (lock_mutex MutexSend (Caller i) s))"
| push: "cpc (callers s i) = CPush \<Longrightarrow>
     caller_step i s (goto i CUnlockSend (s\<lparr>sendq := sendq s @ [cframe (callers s i)],
       pushed := pushed s @ [cframe (callers s i)]\<rparr>))"
| unlock_send: "cpc (callers s i) = CUnlockSend \<Longrightarrow>
     caller_step i s (goto i CLockPipe (unlock_mutex MutexSend s))"
| lock_pipe: "cpc (callers s i) = CLockPipe \<Longrightarrow> owner s MutexPipe = None \<Longrightarrow>
     caller_step i s (goto i CWritePipe (lock_mutex MutexPipe (Caller i) s))"
| write_pipe: "cpc (callers s i) = CWritePipe \<Longrightarrow> pipe_bytes s + 2 \<le> pipe_capacity \<Longrightarrow>
     caller_step i s (goto i CUnlockPipe (s\<lparr>pipe_bytes := pipe_bytes s + 2\<rparr>))"
| unlock_pipe: "cpc (callers s i) = CUnlockPipe \<Longrightarrow>
     caller_step i s (goto i CLockReceive (unlock_mutex MutexPipe s))"
| lock_receive: "cpc (callers s i) = CLockReceive \<Longrightarrow> owner s MutexReceive = None \<Longrightarrow>
     caller_step i s (goto i CScan (lock_mutex MutexReceive (Caller i) s))"
| scan_empty: "cpc (callers s i) = CScan \<Longrightarrow> recvq s = [] \<Longrightarrow>
     caller_step i s (goto i CUnlockReceive s)"
| scan_found: "cpc (callers s i) = CScan \<Longrightarrow> recvq s = fr # rest \<Longrightarrow>
     wanted (cseq (callers s i)) (ccmd (callers s i)) fr \<Longrightarrow>
     caller_step i s (goto i CUnlockReceive (upd_caller i (\<lambda>c. c\<lparr>cfound := Some fr\<rparr>) (s\<lparr>recvq := rest\<rparr>)))"
| scan_again: "cpc (callers s i) = CScan \<Longrightarrow> recvq s = fr # rest \<Longrightarrow>
     \<not> wanted (cseq (callers s i)) (ccmd (callers s i)) fr \<Longrightarrow> caller_step i s s"
| unlock_receive: "cpc (callers s i) = CUnlockReceive \<Longrightarrow>
     caller_step i s (goto i (if cfound (callers s i) \<noteq> None then CDone else CRelock) (unlock_mutex MutexReceive s))"
| relock: "cpc (callers s i) = CRelock \<Longrightarrow> owner s MutexReceive = None \<Longrightarrow>
     caller_step i s (goto i CCondWait (lock_mutex MutexReceive (Caller i) s))"
| cond_wait: "cpc (callers s i) = CCondWait \<Longrightarrow>
     caller_step i s (goto i CSleep (unlock_mutex MutexReceive s))"
| spurious: "cpc (callers s i) = CSleep \<Longrightarrow> caller_step i s (goto i CWoken s)"
| woken: "cpc (callers s i) = CWoken \<Longrightarrow> owner s MutexReceive = None \<Longrightarrow>
     caller_step i s (goto i CScan (lock_mutex MutexReceive (Caller i) s))"
| next_request: "cpc (callers s i) = CDone \<Longrightarrow>
     caller_step i s (upd_caller i (\<lambda>c. \<lparr>cpc = CLockSequence, cframe = fr, cseq = cseq c, ccmd = cmd, cfound = None\<rparr>) s)"

text \<open>
  The worker. \<open>select\<close> lets it go on with a frame from the stick or with a token in the pipe; with both
  ready it receives. \<open>pthread_cond_signal\<close> wakes one sleeping caller, if there is one.
\<close>

inductive worker_step :: "nat \<Rightarrow> system \<Rightarrow> system \<Rightarrow> bool" for n where
  select_tty: "wpc s = WSelect \<Longrightarrow> worker_step n s (s\<lparr>wpc := WLockReceive fr\<rparr>)"
| wlock_receive: "wpc s = WLockReceive fr \<Longrightarrow> owner s MutexReceive = None \<Longrightarrow>
     worker_step n s ((lock_mutex MutexReceive Worker s)\<lparr>wpc := WPush fr\<rparr>)"
| wpush: "wpc s = WPush fr \<Longrightarrow> worker_step n s (s\<lparr>recvq := recvq s @ [fr], wpc := WSignal\<rparr>)"
| wsignal: "wpc s = WSignal \<Longrightarrow> i < n \<Longrightarrow> cpc (callers s i) = CSleep \<Longrightarrow>
     worker_step n s ((goto i CWoken s)\<lparr>wpc := WUnlockReceive\<rparr>)"
| wsignal_nobody: "wpc s = WSignal \<Longrightarrow> \<forall>i<n. cpc (callers s i) \<noteq> CSleep \<Longrightarrow>
     worker_step n s (s\<lparr>wpc := WUnlockReceive\<rparr>)"
| wunlock_receive: "wpc s = WUnlockReceive \<Longrightarrow>
     worker_step n s ((unlock_mutex MutexReceive s)\<lparr>wpc := WSelect\<rparr>)"
| select_pipe: "wpc s = WSelect \<Longrightarrow> 0 < pipe_bytes s \<Longrightarrow> worker_step n s (s\<lparr>wpc := WReadPipe\<rparr>)"
| wread_pipe: "wpc s = WReadPipe \<Longrightarrow> 0 < pipe_bytes s \<Longrightarrow>
     worker_step n s (s\<lparr>pipe_bytes := pipe_bytes s - 2, wpc := WLockSend\<rparr>)"
| wlock_send: "wpc s = WLockSend \<Longrightarrow> owner s MutexSend = None \<Longrightarrow>
     worker_step n s ((lock_mutex MutexSend Worker s)\<lparr>wpc := WPop\<rparr>)"
| wpop: "wpc s = WPop \<Longrightarrow>
     worker_step n s (s\<lparr>sendq := tl (sendq s),
       wpc := WUnlockSend (case sendq s of [] \<Rightarrow> None | fr # _ \<Rightarrow> Some fr)\<rparr>)"
| wunlock_send: "wpc s = WUnlockSend fr \<Longrightarrow>
     worker_step n s ((unlock_mutex MutexSend s)\<lparr>wpc := WWrite fr\<rparr>)"
| wwrite: "wpc s = WWrite fr \<Longrightarrow>
     worker_step n s (s\<lparr>sent := sent s @ (case fr of None \<Rightarrow> [] | Some f \<Rightarrow> [f]), wpc := WSelect\<rparr>)"

definition sys_step :: "nat \<Rightarrow> system \<Rightarrow> system \<Rightarrow> bool" where
  "sys_step n s s' \<longleftrightarrow> worker_step n s s' \<or> (\<exists>i<n. caller_step i s s')"

text \<open>The state \<open>conbee_connect\<close> leaves, with callers that have not asked for anything yet.\<close>

definition initial :: "system \<Rightarrow> bool" where
  "initial s \<longleftrightarrow> owner s = (\<lambda>_. None) \<and> sequence s = 0 \<and> sendq s = [] \<and> recvq s = [] \<and> pipe_bytes s = 0 \<and>
     (\<forall>i. cpc (callers s i) = CDone) \<and> wpc s = WSelect \<and> handed_out s = [] \<and>
     pushed s = [] \<and> sent s = []"

inductive reachable :: "nat \<Rightarrow> system \<Rightarrow> bool" for n where
  start: "initial s \<Longrightarrow> reachable n s"
| step: "reachable n s \<Longrightarrow> sys_step n s s' \<Longrightarrow> reachable n s'"

inductive_cases caller_stepE: "caller_step i s s'"
inductive_cases worker_stepE: "worker_step n s s'"

lemmas state_ops = lock_mutex_def unlock_mutex_def goto_def upd_caller_def

lemma reachable_caller: "reachable n s \<Longrightarrow> i < n \<Longrightarrow> caller_step i s s' \<Longrightarrow> reachable n s'"
  by (rule reachable.step) (auto simp: sys_step_def)

lemma reachable_worker: "reachable n s \<Longrightarrow> worker_step n s s' \<Longrightarrow> reachable n s'"
  by (rule reachable.step) (auto simp: sys_step_def)

text \<open>An invariant of the steps of both kinds of thread holds in every reachable state.\<close>

lemma reachable_invariant:
  assumes "reachable n s" and "\<And>s. initial s \<Longrightarrow> I s"
    and "\<And>i s s'. i < n \<Longrightarrow> I s \<Longrightarrow> caller_step i s s' \<Longrightarrow> I s'" and "\<And>s s'. I s \<Longrightarrow> worker_step n s s' \<Longrightarrow> I s'"
  shows "I s"
  using assms(1) by (induction) (use assms(2-4) in \<open>auto simp: sys_step_def\<close>)

subsection \<open>Mutual exclusion\<close>

text \<open>The mutex a thread holds between which statements; no function holds two of them at once.\<close>

fun caller_mutex :: "caller_pc \<Rightarrow> mutex option" where
  "caller_mutex CReadSequence = Some MutexSequence"
| "caller_mutex CIncSequence = Some MutexSequence"
| "caller_mutex CUnlockSequence = Some MutexSequence"
| "caller_mutex CPush = Some MutexSend"
| "caller_mutex CUnlockSend = Some MutexSend"
| "caller_mutex CWritePipe = Some MutexPipe"
| "caller_mutex CUnlockPipe = Some MutexPipe"
| "caller_mutex CScan = Some MutexReceive"
| "caller_mutex CUnlockReceive = Some MutexReceive"
| "caller_mutex CCondWait = Some MutexReceive"
| "caller_mutex _ = None"

fun worker_mutex :: "worker_pc \<Rightarrow> mutex option" where
  "worker_mutex WPop = Some MutexSend"
| "worker_mutex (WUnlockSend fr) = Some MutexSend"
| "worker_mutex (WPush fr) = Some MutexReceive"
| "worker_mutex WSignal = Some MutexReceive"
| "worker_mutex WUnlockReceive = Some MutexReceive"
| "worker_mutex _ = None"

fun section_of :: "system \<Rightarrow> thread \<Rightarrow> mutex option" where
  "section_of s (Caller i) = caller_mutex (cpc (callers s i))"
| "section_of s Worker = worker_mutex (wpc s)"

definition lock_inv :: "system \<Rightarrow> bool" where
  "lock_inv s \<longleftrightarrow> (\<forall>m t. owner s m = Some t \<longleftrightarrow> section_of s t = Some m)"

lemma lock_invD: "lock_inv s \<Longrightarrow> section_of s t = Some m \<Longrightarrow> owner s m = Some t"
  by (simp add: lock_inv_def)

text \<open>What one step of thread \<open>t\<close> may do to the mutexes: nothing, take a free one or give back its own.\<close>

definition keeps_locks :: "thread \<Rightarrow> system \<Rightarrow> system \<Rightarrow> bool" where
  "keeps_locks t s s' \<longleftrightarrow> (\<forall>u. u \<noteq> t \<longrightarrow> section_of s' u = section_of s u) \<and>
     (section_of s' t = section_of s t \<and> owner s' = owner s \<or>
      (\<exists>m. section_of s t = None \<and> section_of s' t = Some m \<and> owner s m = None \<and> owner s' = (owner s)(m := Some t)) \<or>
      (\<exists>m. section_of s t = Some m \<and> section_of s' t = None \<and> owner s' = (owner s)(m := None)))"

lemma lock_inv_step:
  assumes inv: "lock_inv s" and step: "keeps_locks t s s'"
  shows "lock_inv s'"
proof -
  have others: "section_of s' u = section_of s u" if "u \<noteq> t" for u
    using step that by (simp add: keeps_locks_def)
  have own: "(owner s k = Some v) = (section_of s v = Some k)" for k v
    using inv by (simp add: lock_inv_def)
  have "(owner s' m = Some u) = (section_of s' u = Some m)" for m u
    using step own [of m u] own [of m t] others [of u] unfolding keeps_locks_def
    by (cases "u = t") (auto split: if_splits)
  then show ?thesis by (simp add: lock_inv_def)
qed

lemma caller_step_others:
  "caller_step i s s' \<Longrightarrow> wpc s' = wpc s \<and> sent s' = sent s \<and> (\<forall>j. j \<noteq> i \<longrightarrow> callers s' j = callers s j)"
  by (elim caller_stepE) (simp_all add: state_ops)

lemma caller_keeps_locks: "caller_step i s s' \<Longrightarrow> keeps_locks (Caller i) s s'"
proof -
  assume step: "caller_step i s s'"
  have "section_of s' u = section_of s u" if "u \<noteq> Caller i" for u
    using caller_step_others [OF step] that by (cases u) auto
  with step show ?thesis
    unfolding keeps_locks_def by (elim caller_stepE) (simp_all add: state_ops)
qed

lemma worker_keeps_locks:
  assumes "worker_step n s s'"
  shows "keeps_locks Worker s s'"
proof -
  have "section_of s' (Caller i) = section_of s (Caller i)" for i
    using assms by (elim worker_stepE) (auto simp: state_ops)
  then have "section_of s' u = section_of s u" if "u \<noteq> Worker" for u
    using that by (cases u) auto
  with assms show ?thesis
    unfolding keeps_locks_def by (elim worker_stepE) (simp_all add: state_ops)
qed

lemma initial_section: "initial s \<Longrightarrow> section_of s t = None"
  by (cases t) (auto simp: initial_def)

lemma reachable_lock_inv:
  assumes "reachable n s"
  shows "lock_inv s"
proof (rule reachable_invariant [OF assms])
  fix s assume "initial s" then show "lock_inv s"
    by (simp add: lock_inv_def initial_section) (simp add: initial_def)
qed (blast intro: lock_inv_step caller_keeps_locks worker_keeps_locks)+

lemma same_section:
  assumes "reachable n s" and "section_of s t = Some m" and "section_of s u = Some m"
  shows "t = u"
  using lock_invD [OF reachable_lock_inv [OF assms(1)] assms(2)] lock_invD [OF reachable_lock_inv [OF assms(1)] assms(3)]
  by simp

text \<open>What stands between taking a mutex and giving it back can be executed.\<close>

lemma caller_section_steps:
  assumes "caller_mutex (cpc (callers s i)) = Some m"
  shows "(\<exists>s'. caller_step i s s') \<or> m = MutexPipe \<and> cpc (callers s i) = CWritePipe \<and> pipe_capacity < pipe_bytes s + 2"
proof (cases "cpc (callers s i)")
  case CReadSequence then show ?thesis by (blast intro: read_sequence)
next
  case CIncSequence then show ?thesis by (blast intro: inc_sequence)
next
  case CUnlockSequence then show ?thesis by (blast intro: unlock_sequence)
next
  case CPush then show ?thesis by (blast intro: push)
next
  case CUnlockSend then show ?thesis by (blast intro: unlock_send)
next
  case CWritePipe
  then show ?thesis using assms write_pipe [of s i] by (cases "pipe_bytes s + 2 \<le> pipe_capacity") auto
next
  case CUnlockPipe then show ?thesis by (blast intro: unlock_pipe)
next
  case CScan
  then show ?thesis
    by (cases "recvq s"; cases "wanted (cseq (callers s i)) (ccmd (callers s i)) (hd (recvq s))")
      (auto intro: scan_empty scan_found scan_again)
next
  case CUnlockReceive then show ?thesis by (blast intro: unlock_receive)
next
  case CCondWait then show ?thesis by (blast intro: cond_wait)
qed (use assms in simp_all)

lemma worker_section_steps: "worker_mutex (wpc s) = Some m \<Longrightarrow> \<exists>s'. worker_step n s s'"
  by (cases "wpc s"; cases "\<exists>i<n. cpc (callers s i) = CSleep")
    (auto intro: wpush wsignal wsignal_nobody wunlock_receive wpop wunlock_send)

text \<open>C24: The mutexes cannot deadlock. A thread that holds one holds no other, so it does not wait for a second one,
  and its next statement can always be executed; the only exception is a caller that writes to a full
  pipe, which waits with the mutex of the pipe, one the worker never takes. (A caller that scans
  for ever is executing statements.)\<close>

theorem lock_holder_can_go_on:
  assumes "reachable n s" and "owner s m = Some t"
  shows "(\<forall>m'. owner s m' = Some t \<longrightarrow> m' = m) \<and>
    (case t of Worker \<Rightarrow> \<exists>s'. worker_step n s s'
     | Caller i \<Rightarrow> (\<exists>s'. caller_step i s s') \<or>
         m = MutexPipe \<and> cpc (callers s i) = CWritePipe \<and> pipe_capacity < pipe_bytes s + 2)"
proof -
  have sec: "section_of s t = Some m" and one: "\<forall>m'. owner s m' = Some t \<longrightarrow> m' = m"
    using reachable_lock_inv [OF assms(1)] assms(2) by (auto simp: lock_inv_def)
  have "case t of Worker \<Rightarrow> \<exists>s'. worker_step n s s'
     | Caller i \<Rightarrow> (\<exists>s'. caller_step i s s') \<or>
         m = MutexPipe \<and> cpc (callers s i) = CWritePipe \<and> pipe_capacity < pipe_bytes s + 2"
  proof (cases t)
    case Worker
    then show ?thesis using sec by (simp add: worker_section_steps)
  next
    case (Caller i)
    then show ?thesis using sec caller_section_steps by simp
  qed
  then show ?thesis using one by blast
qed

subsection \<open>Sequence numbers\<close>

text \<open>The counter runs behind the numbers handed out only while a caller is between reading and incrementing it.\<close>

definition sequence_inv :: "system \<Rightarrow> bool" where
  "sequence_inv s \<longleftrightarrow> handed_out s = map word_of_nat [0..<length (handed_out s)] \<and>
     (\<forall>i. cpc (callers s i) = CIncSequence \<longrightarrow> sequence s + 1 = word_of_nat (length (handed_out s))) \<and>
     ((\<forall>i. cpc (callers s i) \<noteq> CIncSequence) \<longrightarrow> sequence s = word_of_nat (length (handed_out s)))"

lemma sequence_unchanged:
  assumes "sequence_inv s" and "handed_out s' = handed_out s" and "sequence s' = sequence s"
    and "\<And>j. (cpc (callers s' j) = CIncSequence) = (cpc (callers s j) = CIncSequence)"
  shows "sequence_inv s'"
  using assms by (simp add: sequence_inv_def)

lemma sequence_inv_caller:
  assumes lock: "lock_inv s" and inv: "sequence_inv s" and step: "caller_step i s s'"
  shows "sequence_inv s'"
  using step
proof cases
  case read_sequence
  have alone: "cpc (callers s j) \<noteq> CIncSequence" if "j \<noteq> i" for j
    using lock_invD [OF lock, of "Caller j" MutexSequence] lock_invD [OF lock, of "Caller i" MutexSequence]
      read_sequence(2) that by auto
  moreover have "cpc (callers s i) \<noteq> CIncSequence" using read_sequence(2) by simp
  ultimately have "\<forall>j. cpc (callers s j) \<noteq> CIncSequence" by metis
  then have "sequence s = word_of_nat (length (handed_out s))" "handed_out s = map word_of_nat [0..<length (handed_out s)]"
    using inv by (simp_all add: sequence_inv_def)
  then show ?thesis
    unfolding read_sequence(1) sequence_inv_def by (simp add: state_ops) (metis add.commute)
next
  case inc_sequence
  have alone: "cpc (callers s j) \<noteq> CIncSequence" if "j \<noteq> i" for j
    using lock_invD [OF lock, of "Caller j" MutexSequence] lock_invD [OF lock, of "Caller i" MutexSequence]
      inc_sequence(2) that by auto
  show ?thesis
    using inv inc_sequence(2) alone unfolding inc_sequence(1) sequence_inv_def by (auto simp: state_ops)
qed (rule sequence_unchanged [OF inv]; auto simp: state_ops split: if_splits)+

lemma sequence_inv_worker: "sequence_inv s \<Longrightarrow> worker_step n s s' \<Longrightarrow> sequence_inv s'"
  by (erule worker_stepE; rule sequence_unchanged) (auto simp: state_ops split: if_splits)

lemma reachable_sequence_inv:
  assumes "reachable n s"
  shows "sequence_inv s"
proof -
  have "lock_inv s \<and> sequence_inv s"
  proof (rule reachable_invariant [OF assms])
    fix s assume start: "initial s"
    then show "lock_inv s \<and> sequence_inv s"
      using reachable_lock_inv [OF reachable.start [OF start]] by (simp add: sequence_inv_def initial_def)
  qed (blast intro: lock_inv_step caller_keeps_locks worker_keeps_locks sequence_inv_caller sequence_inv_worker)+
  then show ?thesis by simp
qed

text \<open>C14: In every run of any number of callers and the worker, interleaved statement by statement, any 256
  requests that follow each other get 256 different sequence numbers: the mutex around reading and
  incrementing the counter leaves no room for two callers to read the same value.\<close>

theorem sequence_numbers_distinct:
  assumes "reachable n s" and "a < b" and "b < a + 256" and "b < length (handed_out s)"
  shows "handed_out s ! a \<noteq> handed_out s ! b"
proof -
  have list: "handed_out s = map word_of_nat [0..<length (handed_out s)]"
    using reachable_sequence_inv [OF assms(1)] by (simp add: sequence_inv_def)
  have "handed_out s ! k = word_of_nat k" if "k < length (handed_out s)" for k
    by (subst list) (use that in simp)
  moreover have "(word_of_nat a :: u8) \<noteq> word_of_nat b"
  proof
    assume "(word_of_nat a :: u8) = word_of_nat b"
    then have "b mod 256 = a mod 256" by (simp add: word_of_nat_eq_iff take_bit_eq_mod)
    then have "256 dvd b - a" using assms(2) by (simp add: mod_eq_dvd_iff_nat)
    then show False using assms(2,3) by (auto dest: dvd_imp_le)
  qed
  ultimately show ?thesis using assms(2,4) by simp
qed

subsection \<open>Tokens in the pipe\<close>

text \<open>A caller in one of these places has pushed its frame and not yet written to the pipe.\<close>

definition unannounced :: "caller \<Rightarrow> nat" where
  "unannounced c = (if cpc c \<in> {CUnlockSend, CLockPipe, CWritePipe} then 1 else 0)"

definition taken :: "worker_pc \<Rightarrow> nat" where
  "taken pc = (if pc \<in> {WLockSend, WPop} then 1 else 0)"

fun in_hand :: "worker_pc \<Rightarrow> conbee_frame list" where
  "in_hand (WUnlockSend (Some fr)) = [fr]"
| "in_hand (WWrite (Some fr)) = [fr]"
| "in_hand _ = []"

definition token_inv :: "nat \<Rightarrow> system \<Rightarrow> bool" where
  "token_inv n s \<longleftrightarrow>
     2 * length (sendq s) = pipe_bytes s + 2 * (\<Sum>i<n. unannounced (callers s i)) + 2 * taken (wpc s) \<and>
     pushed s = sent s @ in_hand (wpc s) @ sendq s \<and>
     (wpc s = WReadPipe \<longrightarrow> 0 < pipe_bytes s) \<and> wpc s \<noteq> WUnlockSend None \<and> wpc s \<noteq> WWrite None"

lemma unannounced_sum:
  assumes "i < n" and "\<And>j. j \<noteq> i \<Longrightarrow> callers s' j = callers s j"
  shows "(\<Sum>j<n. unannounced (callers s' j)) + unannounced (callers s i) =
    (\<Sum>j<n. unannounced (callers s j)) + unannounced (callers s' i)"
proof -
  have "(\<Sum>j\<in>{..<n} - {i}. unannounced (callers s' j)) = (\<Sum>j\<in>{..<n} - {i}. unannounced (callers s j))"
    using assms(2) by (intro sum.cong) auto
  then show ?thesis using assms(1) by (simp add: sum.remove [of "{..<n}" i])
qed

lemma token_inv_caller:
  assumes "i < n" and inv: "token_inv n s" and step: "caller_step i s s'"
  shows "token_inv n s'"
proof -
  have same: "wpc s' = wpc s" "sent s' = sent s" and "callers s' j = callers s j" if "j \<noteq> i" for j
    using caller_step_others [OF step] that by auto
  have total: "(\<Sum>j<n. unannounced (callers s' j)) + unannounced (callers s i) =
      (\<Sum>j<n. unannounced (callers s j)) + unannounced (callers s' i)"
    by (rule unannounced_sum [OF assms(1)]) (use caller_step_others [OF step] in simp)
  have "2 * length (sendq s') + pipe_bytes s + 2 * unannounced (callers s i) =
      2 * length (sendq s) + pipe_bytes s' + 2 * unannounced (callers s' i) \<and>
      (\<exists>new. pushed s' = pushed s @ new \<and> sendq s' = sendq s @ new) \<and> pipe_bytes s \<le> pipe_bytes s'"
    using step by (elim caller_stepE) (auto simp: state_ops unannounced_def)
  with inv total show ?thesis
    using caller_step_others [OF step] unfolding token_inv_def by auto
qed

lemma token_inv_worker:
  assumes inv: "token_inv n s" and step: "worker_step n s s'"
  shows "token_inv n s'"
proof -
  have "(\<Sum>j<n. unannounced (callers s' j)) = (\<Sum>j<n. unannounced (callers s j))"
    using step by (intro sum.cong refl) (elim worker_stepE; auto simp: state_ops unannounced_def)
  moreover have "even (pipe_bytes s)"
    using inv unfolding token_inv_def
    by (metis dvd_add_left_iff dvd_triv_left)
  ultimately show ?thesis
    using step inv unfolding token_inv_def
    by (elim worker_stepE) (auto simp: state_ops taken_def split: list.splits option.splits)
qed

lemma reachable_token_inv:
  assumes "reachable n s"
  shows "token_inv n s"
proof (rule reachable_invariant [OF assms])
  fix s assume "initial s" then show "token_inv n s"
    by (simp add: token_inv_def initial_def unannounced_def taken_def)
qed (blast intro: token_inv_caller token_inv_worker)+

text \<open>C5: In every run, the frames pushed on the send queue are those given to \<open>conbee_write_frame\<close>, then the
  one the worker has in hand, then those still queued, in the order of the pushes: none is lost,
  doubled or overtaken. The pipe holds two bytes for every queued frame whose caller has announced it and
  that the worker has not begun to take; so the worker never finds the queue empty, and its read of
  the pipe never blocks.\<close>

theorem frames_sent_in_push_order:
  assumes "reachable n s"
  shows "pushed s = sent s @ in_hand (wpc s) @ sendq s \<and>
    2 * length (sendq s) = pipe_bytes s + 2 * (\<Sum>i<n. unannounced (callers s i)) + 2 * taken (wpc s) \<and>
    (wpc s = WPop \<longrightarrow> sendq s \<noteq> []) \<and> (wpc s = WReadPipe \<longrightarrow> 2 \<le> pipe_bytes s)"
proof -
  have inv: "token_inv n s" by (rule reachable_token_inv [OF assms])
  then have "even (pipe_bytes s)"
    unfolding token_inv_def by (metis dvd_add_left_iff dvd_triv_left)
  then have "0 < pipe_bytes s \<Longrightarrow> 2 \<le> pipe_bytes s" by (auto elim: evenE)
  with inv show ?thesis by (auto simp: token_inv_def taken_def)
qed

subsection \<open>A caller that never leaves the scan\<close>

text \<open>Caller \<open>i\<close> scans, and the head of the reception queue is not the frame it waits for.\<close>

definition stuck_scan :: "nat \<Rightarrow> system \<Rightarrow> bool" where
  "stuck_scan i s \<longleftrightarrow> cpc (callers s i) = CScan \<and> recvq s \<noteq> [] \<and>
     \<not> wanted (cseq (callers s i)) (ccmd (callers s i)) (hd (recvq s))"

lemma stuck_scan_holds: "lock_inv s \<Longrightarrow> stuck_scan i s \<Longrightarrow> owner s MutexReceive = Some (Caller i)"
  by (auto simp: stuck_scan_def intro: lock_invD)

lemma stuck_scan_caller:
  assumes lock: "lock_inv s" and stuck: "stuck_scan i s" and step: "caller_step j s s'"
  shows "recvq s' = recvq s \<and> callers s' i = callers s i"
proof (cases "j = i")
  case True
  then show ?thesis using step stuck by (auto simp: stuck_scan_def elim!: caller_stepE)
next
  case False
  have "section_of s (Caller j) \<noteq> Some MutexReceive"
    using lock_invD [OF lock, of "Caller j" MutexReceive] stuck_scan_holds [OF lock stuck] False by auto
  moreover have "callers s' i = callers s i" using caller_step_others [OF step] False by simp
  ultimately show ?thesis using step by (elim caller_stepE) (simp_all add: state_ops)
qed

lemma stuck_scan_worker:
  assumes lock: "lock_inv s" and stuck: "stuck_scan i s" and step: "worker_step n s s'"
  shows "recvq s' = recvq s \<and> callers s' i = callers s i \<and>
    (\<forall>fr. wpc s = WLockReceive fr \<longrightarrow> wpc s' = WLockReceive fr \<and> sent s' = sent s)"
proof -
  have held: "owner s MutexReceive = Some (Caller i)" by (rule stuck_scan_holds [OF lock stuck])
  have "section_of s Worker \<noteq> Some MutexReceive"
    using lock_invD [OF lock, of Worker MutexReceive] held by auto
  with held step stuck show ?thesis
    by (elim worker_stepE) (auto simp: state_ops stuck_scan_def)
qed

lemma stuck_scan_step:
  assumes "reachable n s" and "stuck_scan i s" and "sys_step n s s'"
  shows "reachable n s' \<and> stuck_scan i s' \<and> recvq s' = recvq s \<and>
    (\<forall>fr. wpc s = WLockReceive fr \<longrightarrow> wpc s' = WLockReceive fr \<and> sent s' = sent s)"
proof -
  have lock: "lock_inv s" by (rule reachable_lock_inv [OF assms(1)])
  consider (worker) "worker_step n s s'" | (caller) j where "caller_step j s s'"
    using assms(3) by (auto simp: sys_step_def)
  then have "recvq s' = recvq s \<and> callers s' i = callers s i \<and>
      (\<forall>fr. wpc s = WLockReceive fr \<longrightarrow> wpc s' = WLockReceive fr \<and> sent s' = sent s)"
  proof cases
    case worker then show ?thesis by (rule stuck_scan_worker [OF lock assms(2)])
  next
    case caller then show ?thesis
      using stuck_scan_caller [OF lock assms(2) caller] caller_step_others [OF caller] by simp
  qed
  then show ?thesis
    using assms(2) reachable.step [OF assms(1,3)] by (simp add: stuck_scan_def)
qed

text \<open>C18: From the moment a caller of \<open>conbee_wait_for_frame\<close> scans a reception queue whose head is another
  caller's frame, whatever any thread does: the caller stays in the scan with the mutex, the queue
  never changes again, and once the worker has a frame from the stick nothing is ever sent.\<close>

theorem scanning_caller_blocks_library:
  assumes "reachable n s" and "stuck_scan i s" and "(sys_step n)\<^sup>*\<^sup>* s s'"
  shows "stuck_scan i s' \<and> recvq s' = recvq s \<and> (\<forall>fr. wpc s = WLockReceive fr \<longrightarrow> wpc s' = WLockReceive fr \<and> sent s' = sent s)"
proof -
  have "reachable n s' \<and> stuck_scan i s' \<and> recvq s' = recvq s \<and>
      (\<forall>fr. wpc s = WLockReceive fr \<longrightarrow> wpc s' = WLockReceive fr \<and> sent s' = sent s)"
    using assms(3)
  proof (induction)
    case base then show ?case using assms(1,2) by simp
  next
    case (step y z)
    then show ?case using stuck_scan_step [of n y i z] by auto
  qed
  then show ?thesis by simp
qed

subsection \<open>A lost wake-up\<close>

text \<open>A frame, and two callers that have both asked for a sequence number.\<close>

definition status_query :: "u8 \<Rightarrow> conbee_frame" where
  "status_query seqn = \<lparr>command = COMMAND_DEVICE_STATE, sequence_number = seqn, status = 0, frame_length = 8,
     payload_length = 0, payload = NULL\<rparr>"

definition quiet_system :: "conbee_frame \<Rightarrow> system" where
  "quiet_system fr =
    \<lparr>owner = (\<lambda>_. None), sequence = 0, sendq = [], recvq = [], pipe_bytes = 0,
     callers = (\<lambda>_. \<lparr>cpc = CDone, cframe = fr, cseq = 0, ccmd = 0, cfound = None\<rparr>), wpc = WSelect,
     handed_out = [], pushed = [], sent = []\<rparr>"

lemma all_free: "(\<lambda>_. None)(m := None) = (\<lambda>_. None)"
  by auto

text \<open>Caller 0 of a system at rest has sent \<open>req\<close> and looked at the empty reception queue.\<close>

definition between_locks :: "conbee_frame \<Rightarrow> u8 \<Rightarrow> system" where
  "between_locks req cmd = (quiet_system req)\<lparr>sequence := 1, sendq := [req\<lparr>sequence_number := 0\<rparr>], pipe_bytes := 2,
     callers := (callers (quiet_system req))(0 := \<lparr>cpc = CRelock, cframe = req\<lparr>sequence_number := 0\<rparr>, cseq = 0,
       ccmd = cmd, cfound = None\<rparr>), handed_out := [0], pushed := [req\<lparr>sequence_number := 0\<rparr>]\<rparr>"

lemma reachable_quiet: "reachable n (quiet_system fr)"
  by (rule reachable.start) (simp add: initial_def quiet_system_def)

lemmas by_caller_0 = reachable_caller [where n = "Suc 0" and i = 0, OF _ zero_less_Suc]
lemmas by_caller = reachable_caller [where n = 2]
lemmas by_worker = reachable_worker [where n = "Suc 0"]

lemma reachable_between_locks: "reachable 1 (between_locks req cmd)"
proof -
  note start = reachable_quiet [where n = "Suc 0" and fr = req, unfolded quiet_system_def]
  note r1 = by_caller_0 [OF start next_request [where cmd = cmd and fr = req], simplified state_ops, simplified]
  note r2 = by_caller_0 [OF r1 lock_sequence, simplified state_ops, simplified]
  note r3 = by_caller_0 [OF r2 read_sequence, simplified state_ops, simplified]
  note r4 = by_caller_0 [OF r3 inc_sequence, simplified state_ops, simplified]
  note r5 = by_caller_0 [OF r4 unlock_sequence, simplified state_ops, simplified all_free, simplified]
  note r6 = by_caller_0 [OF r5 stamp, simplified state_ops, simplified]
  note r7 = by_caller_0 [OF r6 lock_send, simplified state_ops, simplified]
  note r8 = by_caller_0 [OF r7 push, simplified state_ops, simplified]
  note r9 = by_caller_0 [OF r8 unlock_send, simplified state_ops, simplified all_free, simplified]
  note r10 = by_caller_0 [OF r9 lock_pipe, simplified state_ops, simplified]
  note r11 = by_caller_0 [OF r10 write_pipe, simplified state_ops, simplified]
  note r12 = by_caller_0 [OF r11 unlock_pipe, simplified state_ops, simplified all_free, simplified]
  note r13 = by_caller_0 [OF r12 lock_receive, simplified state_ops, simplified]
  note r14 = by_caller_0 [OF r13 scan_empty, simplified state_ops, simplified]
  note r15 = by_caller_0 [OF r14 unlock_receive, simplified state_ops, simplified all_free, simplified]
  show ?thesis using r15 by (simp add: between_locks_def quiet_system_def numeral_2_eq_2)
qed

lemma sequence_numbers_distinct_witness:
  "\<exists>s. reachable 2 s \<and> handed_out s ! 0 \<noteq> handed_out s ! 1"
proof -
  note start = reachable_quiet [where n = 2 and fr = "status_query 0", unfolded quiet_system_def]
  note r1 = by_caller [where i = 0, OF start _ next_request [where cmd = 7 and fr = "status_query 0"], simplified state_ops, simplified]
  note r2 = by_caller [where i = 0, OF r1 _ lock_sequence, simplified state_ops, simplified]
  note r3 = by_caller [where i = 0, OF r2 _ read_sequence, simplified state_ops, simplified]
  note r4 = by_caller [where i = 0, OF r3 _ inc_sequence, simplified state_ops, simplified]
  note r5 = by_caller [where i = 0, OF r4 _ unlock_sequence, simplified state_ops, simplified all_free, simplified]
  note r6 = by_caller [where i = 1, OF r5 _ next_request [where cmd = 7 and fr = "status_query 0"], simplified state_ops, simplified]
  note r7 = by_caller [where i = 1, OF r6 _ lock_sequence, simplified state_ops, simplified]
  note r8 = by_caller [where i = 1, OF r7 _ read_sequence, simplified state_ops, simplified]
  show ?thesis
    by (rule exI, rule conjI, rule r8, rule sequence_numbers_distinct [OF r8]) simp_all
qed

definition asleep_forever :: "conbee_frame \<Rightarrow> u8 \<Rightarrow> conbee_frame \<Rightarrow> system" where
  "asleep_forever req cmd reply = (quiet_system req)\<lparr>sequence := 1, recvq := [reply],
     callers := (callers (quiet_system req))(0 := \<lparr>cpc = CSleep, cframe = req\<lparr>sequence_number := 0\<rparr>, cseq = 0,
       ccmd = cmd, cfound = None\<rparr>), handed_out := [0], pushed := [req\<lparr>sequence_number := 0\<rparr>],
     sent := [req\<lparr>sequence_number := 0\<rparr>]\<rparr>"

lemma reachable_asleep: "reachable 1 (asleep_forever req cmd reply)"
proof -
  note start = reachable_between_locks [where req = req and cmd = cmd, unfolded between_locks_def quiet_system_def, simplified]
  note r1 = by_worker [OF start select_pipe, simplified state_ops, simplified]
  note r2 = by_worker [OF r1 wread_pipe, simplified state_ops, simplified]
  note r3 = by_worker [OF r2 wlock_send, simplified state_ops, simplified]
  note r4 = by_worker [OF r3 wpop, simplified state_ops, simplified]
  note r5 = by_worker [OF r4 wunlock_send [where fr = "Some (req\<lparr>sequence_number := 0\<rparr>)"], simplified state_ops, simplified]
  note r6 = by_worker [OF r5 wwrite [where fr = "Some (req\<lparr>sequence_number := 0\<rparr>)"], simplified state_ops, simplified]
  note r7 = by_worker [OF r6 select_tty [where fr = reply], simplified state_ops, simplified]
  note r8 = by_worker [OF r7 wlock_receive [where fr = reply], simplified state_ops, simplified]
  note r9 = by_worker [OF r8 wpush [where fr = reply], simplified state_ops, simplified]
  note r10 = by_worker [OF r9 wsignal_nobody, simplified state_ops, simplified]
  note r11 = by_worker [OF r10 wunlock_receive, simplified state_ops, simplified]
  note r12 = by_caller_0 [OF r11 relock, simplified state_ops, simplified]
  note r13 = by_caller_0 [OF r12 cond_wait, simplified state_ops, simplified]
  show ?thesis using r13 by (simp add: asleep_forever_def quiet_system_def all_free)
qed

lemma asleep_forever_step:
  assumes "sys_step 1 (asleep_forever req cmd reply) s'"
  shows "s' = goto 0 CWoken (asleep_forever req cmd reply) \<or> (\<exists>fr. s' = (asleep_forever req cmd reply)\<lparr>wpc := WLockReceive fr\<rparr>)"
proof -
  have "caller_step 0 (asleep_forever req cmd reply) s' \<Longrightarrow> s' = goto 0 CWoken (asleep_forever req cmd reply)"
    by (erule caller_stepE) (auto simp: asleep_forever_def)
  moreover have "worker_step 1 (asleep_forever req cmd reply) s' \<Longrightarrow>
      \<exists>fr. s' = (asleep_forever req cmd reply)\<lparr>wpc := WLockReceive fr\<rparr>"
    by (erule worker_stepE) (auto simp: asleep_forever_def quiet_system_def)
  ultimately show ?thesis using assms by (auto simp: sys_step_def)
qed

text \<open>C23: Between two looks at the reception queue \<open>conbee_wait_for_frame\<close> gives the mutex back and then waits
  without looking again. If the worker queues the wanted frame in between, its signal finds nobody:
  the caller sleeps with its frame in the queue, and nothing can happen until the stick sends another
  or the caller wakes up without a reason.\<close>

theorem wakeup_can_be_lost:
  assumes "wanted 0 cmd reply"
  shows "\<exists>s. reachable 1 s \<and> recvq s = [reply] \<and> cpc (callers s 0) = CSleep \<and>
     wanted (cseq (callers s 0)) (ccmd (callers s 0)) reply \<and> sent s = [req\<lparr>sequence_number := 0\<rparr>] \<and>
     (\<forall>s'. sys_step 1 s s' \<longrightarrow> s' = goto 0 CWoken s \<or> (\<exists>fr. s' = s\<lparr>wpc := WLockReceive fr\<rparr>))"
proof (intro exI conjI allI)
  fix s' show "sys_step 1 (asleep_forever req cmd reply) s' \<longrightarrow> s' = goto 0 CWoken (asleep_forever req cmd reply) \<or>
      (\<exists>fr. s' = (asleep_forever req cmd reply)\<lparr>wpc := WLockReceive fr\<rparr>)"
    by (intro impI) (rule asleep_forever_step)
qed (rule reachable_asleep, use assms in \<open>simp_all add: asleep_forever_def quiet_system_def\<close>)

lemma wakeup_can_be_lost_witness:
  "\<exists>s. reachable 1 s \<and> recvq s = [status_query 0] \<and> cpc (callers s 0) = CSleep"
proof -
  have "wanted 0 7 (status_query 0)" by (simp add: wanted_def status_query_def conbee_const)
  from wakeup_can_be_lost [OF this] show ?thesis by blast
qed

lemma frames_sent_in_push_order_witness:
  "pushed (asleep_forever (status_query 9) 7 (status_query 0)) =
     sent (asleep_forever (status_query 9) 7 (status_query 0)) @ [] @ [] \<and>
   pushed (asleep_forever (status_query 9) 7 (status_query 0)) = [status_query 0]"
  using frames_sent_in_push_order [OF reachable_asleep [where req = "status_query 9" and cmd = 7 and reply = "status_query 0"]]
  by (simp add: asleep_forever_def quiet_system_def status_query_def)

text \<open>With frame 5 ahead in the queue, the next frame wakes caller 0 into a scan it never leaves.\<close>

lemma reachable_stuck_scan: "\<exists>s. reachable 1 s \<and> stuck_scan 0 s \<and> wpc s = WSelect"
proof -
  note start = reachable_asleep [where req = "status_query 0" and cmd = 7 and reply = "status_query 5",
      unfolded asleep_forever_def quiet_system_def, simplified]
  note r1 = by_worker [OF start select_tty [where fr = "status_query 0"], simplified state_ops, simplified]
  note r2 = by_worker [OF r1 wlock_receive [where fr = "status_query 0"], simplified state_ops, simplified]
  note r3 = by_worker [OF r2 wpush [where fr = "status_query 0"], simplified state_ops, simplified]
  note r4 = by_worker [OF r3 wsignal [where i = 0], simplified state_ops, simplified]
  note r5 = by_worker [OF r4 wunlock_receive, simplified state_ops, simplified]
  note r6 = by_caller_0 [OF r5 woken, simplified state_ops, simplified]
  obtain s where "reachable 1 s" "stuck_scan 0 s" "wpc s = WSelect"
    using r6 by (simp add: stuck_scan_def wanted_def status_query_def conbee_const)
  then show ?thesis by blast
qed

lemma scanning_caller_blocks_library_witness:
  "\<exists>s s'. reachable 1 s \<and> stuck_scan 0 s \<and> (sys_step 1)\<^sup>*\<^sup>* s s' \<and> wpc s' = WLockReceive (status_query 6) \<and> stuck_scan 0 s'"
proof -
  obtain s where s: "reachable 1 s" "stuck_scan 0 s" "wpc s = WSelect" using reachable_stuck_scan by blast
  have step: "(sys_step 1)\<^sup>*\<^sup>* s (s\<lparr>wpc := WLockReceive (status_query 6)\<rparr>)"
    using select_tty [OF s(3), where fr = "status_query 6"] by (auto simp: sys_step_def)
  show ?thesis
    using s step scanning_caller_blocks_library [OF s(1,2) step] by fastforce
qed

lemma lock_holder_can_go_on_witness:
  "\<exists>s s'. reachable 1 s \<and> owner s MutexReceive = Some (Caller 0) \<and> caller_step 0 s s'"
proof -
  obtain s where s: "reachable 1 s" "stuck_scan 0 s" using reachable_stuck_scan by blast
  have "owner s MutexReceive = Some (Caller 0)" by (rule stuck_scan_holds [OF reachable_lock_inv [OF s(1)] s(2)])
  then show ?thesis using lock_holder_can_go_on [OF s(1)] s(1) by fastforce
qed

end
