(* ===== verification/Interleaving.thy ===== *)
theory Interleaving
  imports Threads Worker
begin

text \<open>
  How the functions of \<open>Transport\<close> and \<open>Worker\<close>, which run to their end on the heap with its linked queues,
  relate to the steps of \<open>Threads\<close>: each is what a run of one thread's steps does when no other thread gets
  in between. So what \<open>Threads\<close> shows of all interleavings is about the same code.
\<close>

text \<open>The frames in the two linked queues are those of the system's lists, and no mutex is held.\<close>

definition abstracts :: "addr list \<Rightarrow> addr list \<Rightarrow> world \<Rightarrow> system \<Rightarrow> bool" where
  "abstracts cs ds w s \<longleftrightarrow> queues w cs ds \<and> map (frames (mem w)) cs = map Some (sendq s) \<and>
     map (frames (mem w)) ds = map Some (recvq s) \<and> next_sequence (dev w) = sequence s \<and>
     length (pipe_data w) = pipe_bytes s \<and> owner s = (\<lambda>_. None)"

lemma caller_run:
  "(caller_step i)\<^sup>*\<^sup>* s t \<Longrightarrow> caller_step i t u \<Longrightarrow> (caller_step i)\<^sup>*\<^sup>* s u"
  by (rule rtranclp.rtrancl_into_rtrancl)

lemma worker_run:
  "(worker_step n)\<^sup>*\<^sup>* s t \<Longrightarrow> worker_step n t u \<Longrightarrow> (worker_step n)\<^sup>*\<^sup>* s u"
  by (rule rtranclp.rtrancl_into_rtrancl)

subsection \<open>The steps of one thread alone\<close>

lemma enqueue_run:
  assumes "cpc (callers s i) = CLockSequence" and "owner s = (\<lambda>_. None)" and "pipe_bytes s + 2 \<le> pipe_capacity"
  shows "\<exists>s'. (caller_step i)\<^sup>*\<^sup>* s s' \<and> owner s' = (\<lambda>_. None) \<and> sequence s' = sequence s + 1 \<and>
     sendq s' = sendq s @ [(cframe (callers s i))\<lparr>sequence_number := sequence s\<rparr>] \<and> recvq s' = recvq s \<and>
     pipe_bytes s' = pipe_bytes s + 2 \<and> cpc (callers s' i) = CLockReceive \<and> cseq (callers s' i) = sequence s \<and>
     handed_out s' = handed_out s @ [sequence s]"
proof -
  note r1 = caller_run [OF rtranclp.rtrancl_refl lock_sequence [OF assms(1)], unfolded state_ops, simplified assms(2), simplified]
  note r2 = caller_run [OF r1 read_sequence, simplified state_ops, simplified]
  note r3 = caller_run [OF r2 inc_sequence, simplified state_ops, simplified]
  note r4 = caller_run [OF r3 unlock_sequence, simplified state_ops, simplified all_free, simplified]
  note r5 = caller_run [OF r4 stamp, simplified state_ops, simplified]
  note r6 = caller_run [OF r5 lock_send, simplified state_ops, simplified]
  note r7 = caller_run [OF r6 push, simplified state_ops, simplified]
  note r8 = caller_run [OF r7 unlock_send, simplified state_ops, simplified all_free, simplified]
  note r9 = caller_run [OF r8 lock_pipe, simplified state_ops, simplified]
  note r10 = caller_run [OF r9 write_pipe, simplified state_ops, simplified]
  note r11 = caller_run [OF r10 unlock_pipe, simplified state_ops, simplified all_free, simplified]
  show ?thesis by (intro exI conjI, rule r11) (use assms(3) in simp_all)
qed

lemma transmit_run:
  assumes "wpc s = WSelect" and "owner s MutexSend = None" and "0 < pipe_bytes s" and "sendq s = fr # rest"
  shows "\<exists>s'. (worker_step n)\<^sup>*\<^sup>* s s' \<and> owner s' = owner s \<and> sequence s' = sequence s \<and> sendq s' = rest \<and>
     recvq s' = recvq s \<and> pipe_bytes s' = pipe_bytes s - 2 \<and> wpc s' = WSelect \<and> sent s' = sent s @ [fr] \<and>
     callers s' = callers s \<and> pushed s' = pushed s"
proof -
  have restored: "(owner s)(MutexSend := None) = owner s" using assms(2) by auto
  note r1 = worker_run [OF rtranclp.rtrancl_refl select_pipe [OF assms(1,3)]]
  note r2 = worker_run [OF r1 wread_pipe, simplified assms(3), simplified]
  note r3 = worker_run [OF r2 wlock_send, simplified state_ops assms(2), simplified]
  note r4 = worker_run [OF r3 wpop, simplified state_ops assms(4), simplified]
  note r5 = worker_run [OF r4 wunlock_send [where fr = "Some fr"], simplified state_ops, simplified restored, simplified]
  note r6 = worker_run [OF r5 wwrite [where fr = "Some fr"], simplified state_ops, simplified]
  show ?thesis by (intro exI conjI, rule r6) (simp_all add: assms restored)
qed

lemma receive_run:
  assumes "wpc s = WSelect" and "owner s = (\<lambda>_. None)"
  shows "\<exists>s'. (worker_step n)\<^sup>*\<^sup>* s s' \<and> owner s' = (\<lambda>_. None) \<and> sequence s' = sequence s \<and> sendq s' = sendq s \<and>
     recvq s' = recvq s @ [fr] \<and> pipe_bytes s' = pipe_bytes s \<and> wpc s' = WSelect \<and> sent s' = sent s"
proof -
  note r1 = worker_run [OF rtranclp.rtrancl_refl select_tty [OF assms(1), where fr = fr]]
  note r2 = worker_run [OF r1 wlock_receive [where fr = fr], simplified state_ops assms(2), simplified]
  note r3 = worker_run [OF r2 wpush [where fr = fr], simplified]
  show ?thesis
  proof (cases "\<exists>i<n. cpc (callers s i) = CSleep")
    case True
    then obtain i where i: "i < n" "cpc (callers s i) = CSleep" by blast
    note r4 = worker_run [OF r3 wsignal [where i = i], simplified state_ops i, simplified]
    note r5 = worker_run [OF r4 wunlock_receive, simplified state_ops, simplified all_free, simplified]
    show ?thesis by (intro exI conjI, rule r5) (simp_all add: assms i all_free)
  next
    case False
    then have nobody: "\<forall>i<n. cpc (callers s i) \<noteq> CSleep" by blast
    note r4 = worker_run [OF r3 wsignal_nobody, simplified]
    note r5 = worker_run [OF r4 wunlock_receive, simplified state_ops, simplified all_free, simplified]
    show ?thesis by (intro exI conjI, rule r5) (simp_all add: assms nobody all_free)
  qed
qed

lemma wait_run:
  assumes "cpc (callers s i) = CLockReceive" and "owner s = (\<lambda>_. None)" and "recvq s = fr # rest"
    and "wanted (cseq (callers s i)) (ccmd (callers s i)) fr"
  shows "\<exists>s'. (caller_step i)\<^sup>*\<^sup>* s s' \<and> owner s' = (\<lambda>_. None) \<and> sequence s' = sequence s \<and> sendq s' = sendq s \<and>
     recvq s' = rest \<and> pipe_bytes s' = pipe_bytes s \<and> cpc (callers s' i) = CDone \<and> cfound (callers s' i) = Some fr"
proof -
  note r1 = caller_run [OF rtranclp.rtrancl_refl lock_receive [OF assms(1)], unfolded state_ops, simplified assms(2), simplified]
  note r2 = caller_run [OF r1 scan_found [where fr = fr and rest = rest], simplified state_ops assms, simplified]
  note r3 = caller_run [OF r2 unlock_receive, simplified state_ops, simplified all_free, simplified]
  show ?thesis by (intro exI conjI, rule r3) (simp_all add: assms all_free)
qed

subsection \<open>The worker alone empties the queue\<close>

lemma token_inv_even: "token_inv n s \<Longrightarrow> even (pipe_bytes s)"
  unfolding token_inv_def by (metis dvd_add_left_iff dvd_triv_left)

lemma worker_run_reachable: "(worker_step n)\<^sup>*\<^sup>* s s' \<Longrightarrow> reachable n s \<Longrightarrow> reachable n s'"
  by (induction rule: rtranclp_induct) (auto intro: reachable_worker)

text \<open>C25: From every reachable state in which the worker is at \<open>select\<close> and no caller is inside its push, the worker on its own
  can go on until the pipe is empty: every request whose caller has written to the pipe has then been
  sent, in the order of the pushes, and those left are the ones not yet announced. From such a state a full pipe,
  and a caller that waits for it, is relieved by the worker.\<close>

theorem worker_sends_all_announced:
  assumes "reachable n s" and "wpc s = WSelect" and "owner s MutexSend = None"
  shows "\<exists>s'. (worker_step n)\<^sup>*\<^sup>* s s' \<and> callers s' = callers s \<and> pipe_bytes s' = 0 \<and> wpc s' = WSelect \<and>
     pushed s = sent s' @ sendq s' \<and> length (sendq s') = (\<Sum>i<n. unannounced (callers s i))"
  using assms
proof (induction "pipe_bytes s" arbitrary: s rule: less_induct)
  case less
  have inv: "token_inv n s" by (rule reachable_token_inv [OF less.prems(1)])
  show ?case
  proof (cases "pipe_bytes s = 0")
    case True
    then show ?thesis
      using inv less.prems(2) by (intro exI [of _ s]) (simp add: token_inv_def taken_def)
  next
    case False
    then have two: "2 \<le> pipe_bytes s" using token_inv_even [OF inv] by (auto elim: evenE)
    then obtain fr rest where q: "sendq s = fr # rest"
      using inv less.prems(2) by (cases "sendq s") (auto simp: token_inv_def taken_def)
    obtain s1 where s1: "(worker_step n)\<^sup>*\<^sup>* s s1" "owner s1 = owner s" "pipe_bytes s1 = pipe_bytes s - 2" "wpc s1 = WSelect"
      "callers s1 = callers s" "pushed s1 = pushed s"
      using transmit_run [OF less.prems(2,3) _ q] False by blast
    have "pipe_bytes s1 < pipe_bytes s" using s1(3) two by simp
    from less.hyps [OF this worker_run_reachable [OF s1(1) less.prems(1)] s1(4)] less.prems(3) s1(2)
    obtain s' where "(worker_step n)\<^sup>*\<^sup>* s1 s'" "callers s' = callers s1" "pipe_bytes s' = 0" "wpc s' = WSelect"
      "pushed s1 = sent s' @ sendq s'" "length (sendq s') = (\<Sum>i<n. unannounced (callers s1 i))"
      by auto
    then show ?thesis using s1 by (intro exI [of _ s']) auto
  qed
qed

subsection \<open>The functions\<close>

lemma abstracts_intro:
  "queues w cs ds \<Longrightarrow> map (frames (mem w)) cs = map Some (sendq s) \<Longrightarrow> map (frames (mem w)) ds = map Some (recvq s) \<Longrightarrow>
   next_sequence (dev w) = sequence s \<Longrightarrow> length (pipe_data w) = pipe_bytes s \<Longrightarrow> owner s = (\<lambda>_. None) \<Longrightarrow> abstracts cs ds w s"
  by (simp add: abstracts_def)

lemma frames_elsewhere: "a \<notin> set cs \<Longrightarrow> map (f(a := x)) cs = map f cs"
  by simp

text \<open>C9: \<open>conbee_enqueue_frame\<close> on the heap, with a frame that is in no queue, does what a caller does in the
  interleaved system from its first statement to its last when no other thread gets in between and the pipe has room: the same frame
  with the same number at the end of the send queue, the same counter and the same bytes in the pipe. The
  number it returns is the one the caller goes on to wait for.\<close>

theorem enqueue_is_a_run:
  assumes "abstracts cs ds w s" and "0 < avail (mem w)" and "frames (mem w) frame = Some (cframe (callers s i))"
    and "frame \<notin> set cs \<union> set ds" and "cpc (callers s i) = CLockSequence" and "length (pipe_data w) + 2 \<le> pipe_capacity"
  shows "\<exists>w' s'. conbee_enqueue_frame w frame = Inr (int (unat (cseq (callers s' i))), w') \<and> (caller_step i)\<^sup>*\<^sup>* s s' \<and>
     abstracts (cs @ [frame]) ds w' s' \<and> cpc (callers s' i) = CLockReceive"
proof -
  have a: "queues w cs ds" "map (frames (mem w)) cs = map Some (sendq s)" "map (frames (mem w)) ds = map Some (recvq s)"
    "next_sequence (dev w) = sequence s" "length (pipe_data w) = pipe_bytes s" "owner s = (\<lambda>_. None)"
    using assms(1) by (simp_all add: abstracts_def)
  let ?fr = "(cframe (callers s i))\<lparr>sequence_number := sequence s\<rparr>"
  obtain h q where enq: "conbee_enqueue_frame w frame = Inr (int (unat (sequence s)),
      w\<lparr>mem := h, dev := (dev w)\<lparr>next_sequence := sequence s + 1, send_queue := q\<rparr>, pipe_data := pipe_data w @ [0, 0]\<rparr>)"
    "queues (w\<lparr>mem := h, dev := (dev w)\<lparr>next_sequence := sequence s + 1, send_queue := q\<rparr>, pipe_data := pipe_data w @ [0, 0]\<rparr>)
      (cs @ [frame]) ds"
    "frames h = (frames (mem w))(frame \<mapsto> ?fr)"
    using conbee_enqueue_frame_ok [OF a(1) assms(2,3)] a(4) by metis
  obtain s' where run: "(caller_step i)\<^sup>*\<^sup>* s s'" "owner s' = (\<lambda>_. None)" "sequence s' = sequence s + 1"
    "sendq s' = sendq s @ [?fr]" "recvq s' = recvq s" "pipe_bytes s' = pipe_bytes s + 2"
    "cpc (callers s' i) = CLockReceive" "cseq (callers s' i) = sequence s"
    using enqueue_run [OF assms(5) a(6)] assms(6) a(5) by auto
  have "abstracts (cs @ [frame]) ds
      (w\<lparr>mem := h, dev := (dev w)\<lparr>next_sequence := sequence s + 1, send_queue := q\<rparr>, pipe_data := pipe_data w @ [0, 0]\<rparr>) s'"
    by (rule abstracts_intro [OF enq(2)]) (use assms(4) a enq(3) run in \<open>simp_all add: frames_elsewhere\<close>)
  then show ?thesis using enq(1) run(1,7) unfolding run(8) [symmetric] by blast
qed

text \<open>A turn of the worker that sends, on the heap with the whole of \<open>conbee_write_frame\<close> and the line, is a run of
  the worker's steps in the interleaved system: the same frame leaves the send queue and is the next one
  sent, and what goes over the line is that frame's packet.\<close>

lemma transmit_is_a_run:
  assumes "abstracts (c # cs) ds w s" and "wpc s = WSelect" and "sends_ok w" and "length stack = 1000" and "pipe_data w \<noteq> []"
    and "frame_is (mem w) c fr bs" and "sends_as fr bs out" and "c \<notin> set cs \<union> set ds"
  shows "\<exists>w' s'. worker_transmit stack w = Some (Inr w') \<and> (worker_step n)\<^sup>*\<^sup>* s s' \<and> abstracts cs ds w' s' \<and>
     wpc s' = WSelect \<and> sent s' = sent s @ [fr] \<and> tty_out w' = tty_out w @ slip_encode (packet_of out)"
proof -
  have a: "queues w (c # cs) ds" "map (frames (mem w)) (c # cs) = map Some (sendq s)" "map (frames (mem w)) ds = map Some (recvq s)"
    "next_sequence (dev w) = sequence s" "length (pipe_data w) = pipe_bytes s" "owner s = (\<lambda>_. None)"
    using assms(1) by (simp_all add: abstracts_def)
  have fr: "frames (mem w) c = Some fr" using assms(6) by (simp add: frame_is_def)
  then obtain rest where rest: "sendq s = fr # rest" "map (frames (mem w)) cs = map Some rest" using a(2) by (cases "sendq s") auto
  obtain w' where w': "worker_transmit stack w = Some (Inr w')" "queues w' cs ds" "pipe_data w' = drop 2 (pipe_data w)"
    "tty_out w' = tty_out w @ slip_encode (packet_of out)" "frames (mem w') = (frames (mem w))(c := None)"
    "next_sequence (dev w') = next_sequence (dev w)"
    by (rule worker_transmit_ok [OF assms(3-5) a(1) assms(6,7)]) auto
  have "0 < pipe_bytes s" using a(5) assms(5) by (cases "pipe_data w") auto
  then obtain s' where run: "(worker_step n)\<^sup>*\<^sup>* s s'" "owner s' = (\<lambda>_. None)" "sequence s' = sequence s" "sendq s' = rest"
    "recvq s' = recvq s" "pipe_bytes s' = pipe_bytes s - 2" "wpc s' = WSelect" "sent s' = sent s @ [fr]"
    using transmit_run [OF assms(2) _ _ rest(1)] a(6) by auto
  have "abstracts cs ds w' s'"
    by (rule abstracts_intro [OF w'(2)]) (use assms(8) a rest(2) w' run in \<open>simp_all add: frames_elsewhere\<close>)
  then show ?thesis using w' run by blast
qed

text \<open>A turn that receives a packet, likewise.\<close>

lemma receive_is_a_run:
  assumes "abstracts cs ds w s" and "wpc s = WSelect" and "connected w" and "length stack = 1500" and "5 \<le> length body"
    and "length body \<le> 1498" and "3 \<le> avail (mem w)" and "brk (mem w) \<notin> set cs \<union> set ds"
  shows "\<exists>w' s' p. worker_receive stack (tty_feed (slip_encode (packet_of body) @ rest) w) = Some (Inr w') \<and>
     (worker_step n)\<^sup>*\<^sup>* s s' \<and> abstracts cs (ds @ [brk (mem w)]) w' s' \<and> wpc s' = WSelect \<and>
     recvq s' = recvq s @ [parsed_frame p body]"
proof -
  have a: "queues w cs ds" "map (frames (mem w)) cs = map Some (sendq s)" "map (frames (mem w)) ds = map Some (recvq s)"
    "next_sequence (dev w) = sequence s" "length (pipe_data w) = pipe_bytes s" "owner s = (\<lambda>_. None)"
    using assms(1) by (simp_all add: abstracts_def)
  let ?fr = "parsed_frame (Suc (brk (mem w))) body"
  obtain w' where w': "worker_receive stack (tty_feed (slip_encode (packet_of body) @ rest) w) = Some (Inr w')"
    "queues w' cs (ds @ [brk (mem w)])" "pipe_data w' = pipe_data w" "next_sequence (dev w') = next_sequence (dev w)"
    "frames (mem w') = (frames (mem w))(brk (mem w) \<mapsto> ?fr)"
    by (rule worker_receive_ok [OF assms(3-7) a(1), of rest]) auto
  obtain s' where run: "(worker_step n)\<^sup>*\<^sup>* s s'" "owner s' = (\<lambda>_. None)" "sequence s' = sequence s" "sendq s' = sendq s"
    "recvq s' = recvq s @ [?fr]" "pipe_bytes s' = pipe_bytes s" "wpc s' = WSelect"
    using receive_run [OF assms(2) a(6)] by blast
  have "abstracts cs (ds @ [brk (mem w)]) w' s'"
    by (rule abstracts_intro [OF w'(2)]) (use assms(8) a w' run in \<open>simp_all add: frames_elsewhere\<close>)
  then show ?thesis using w' run by blast
qed

text \<open>A wait whose response is the first in the reception queue, likewise.\<close>

lemma chain_unique: "chain m p as cs \<Longrightarrow> chain m p bs ds \<Longrightarrow> as = bs"
proof (induction as arbitrary: p cs bs ds)
  case Nil
  then show ?case by (cases bs) (auto elim: chain.elims)
next
  case (Cons a as)
  then show ?case by (cases cs; cases bs; cases ds) auto
qed

lemma wait_is_a_run:
  assumes "abstracts cs (d # ds) w s" and "queue_at (mem w) (receive_queue (dev w)) bs (d # ds)"
    and "linked_at (mem w) (receive_queue (dev w)) bs" and "frames (mem w) d = Some fr"
    and "cpc (callers s i) = CLockReceive" and "wanted (cseq (callers s i)) (ccmd (callers s i)) fr"
  shows "\<exists>w' s'. conbee_wait_for_frame cond_wait w (cseq (callers s i)) (ccmd (callers s i)) = Some (Inr (0, d, w')) \<and>
     (caller_step i)\<^sup>*\<^sup>* s s' \<and> abstracts cs ds w' s' \<and> cpc (callers s' i) = CDone \<and> cfound (callers s' i) = Some fr"
proof -
  have a: "queues w cs (d # ds)" "map (frames (mem w)) cs = map Some (sendq s)" "map (frames (mem w)) (d # ds) = map Some (recvq s)"
    "next_sequence (dev w) = sequence s" "length (pipe_data w) = pipe_bytes s" "owner s = (\<lambda>_. None)"
    using assms(1) by (simp_all add: abstracts_def)
  then obtain rest where rest: "recvq s = fr # rest" "map (frames (mem w)) ds = map Some rest" using assms(4) by (cases "recvq s") auto
  obtain as bs' where q: "queue_at (mem w) (send_queue (dev w)) as cs" "queue_at (mem w) (receive_queue (dev w)) bs' (d # ds)"
    "set as \<inter> set bs' = {}" "roomy (mem w)" "heap_ok (mem w)"
    using a(1) by (auto simp: queues_def)
  have same: "bs' = bs" using q(2) assms(2) chain_unique unfolding queue_at_def by blast
  obtain b bs1 it where b: "bs = b # bs1" "items (mem w) b = Some it" "previous_item it = NULL"
    using assms(2,3) by (cases bs) (auto simp: queue_at_def linked_at_def)
  note qb = assms(2) [unfolded b(1)]
  let ?h = "(mem w)\<lparr>items := (items (mem w))(b := None), avail := Suc (avail (mem w))\<rparr>"
  let ?w = "w\<lparr>mem := ?h, dev := (dev w)\<lparr>receive_queue := (receive_queue (dev w))\<lparr>head := next_item it\<rparr>\<rparr>\<rparr>"
  have wait: "conbee_wait_for_frame cond_wait w (cseq (callers s i)) (ccmd (callers s i)) = Some (Inr (0, d, ?w))"
    by (rule wait_finds_head [OF q(4,5) qb b(2,3) assms(4,6)])
  have "queue_at ?h (send_queue (dev w)) as cs"
    by (rule queue_at_items_only [OF q(1), of "{b}"]) (use q(3) same b(1) in \<open>auto simp: items_only_def\<close>)
  moreover have "queue_at ?h ((receive_queue (dev w))\<lparr>head := next_item it\<rparr>) bs1 ds"
    by (rule conbee_queue_delete_head_ok(2) [OF q(4,5) qb b(2,3)])
  moreover have "heap_ok ?h" by (rule heap_ok_free [OF q(5)])
  ultimately have "queues ?w cs ds"
    unfolding queues_def using q(3,4) same b(1) by (intro conjI exI [of _ as] exI [of _ bs1]) auto
  moreover obtain s' where run: "(caller_step i)\<^sup>*\<^sup>* s s'" "owner s' = (\<lambda>_. None)" "sequence s' = sequence s" "sendq s' = sendq s"
    "recvq s' = rest" "pipe_bytes s' = pipe_bytes s" "cpc (callers s' i) = CDone" "cfound (callers s' i) = Some fr"
    using wait_run [OF assms(5) a(6) rest(1) assms(6)] by blast
  ultimately have "abstracts cs ds ?w s'"
    by (intro abstracts_intro) (use a rest(2) run in simp_all)
  then show ?thesis using wait run by blast
qed

subsection \<open>Concrete runs\<close>

definition header_frame :: conbee_frame where
  "header_frame = request_frame COMMAND_VERSION 5 0"

text \<open>A world with that frame at address 1, in no queue or in the send queue, and the system for each.\<close>

definition frame_world :: world where
  "frame_world = (idle_world 5)\<lparr>mem := (init_heap 5 24)\<lparr>brk := 3, frames := [1 \<mapsto> header_frame]\<rparr>\<rparr>"

definition queued_world :: world where
  "queued_world = frame_world\<lparr>mem := (mem frame_world)\<lparr>items := [2 \<mapsto> \<lparr>contents = 1, next_item = NULL, previous_item = NULL\<rparr>]\<rparr>,
     dev := (dev frame_world)\<lparr>send_queue := \<lparr>head = 2, tail = 2\<rparr>\<rparr>, pipe_data := [0, 0]\<rparr>"

lemmas example_worlds = queued_world_def frame_world_def idle_world_def init_heap_def conbee_queue_init_def

lemma frame_world_ok:
  "abstracts [] [] frame_world (goto 0 CLockSequence (quiet_system header_frame))" "avail (mem frame_world) = 5"
  "frames (mem frame_world) 1 = Some header_frame"
  "pipe_data frame_world = []"
  by (simp_all add: abstracts_def queues_def example_worlds quiet_system_def goto_def roomy_def sizeof_ptr_def heap_ok_def live_def)

lemma queued_world_queues: "queues queued_world [1] []"
  unfolding queues_def
  by (intro conjI exI [of _ "[2]"] exI [of _ "[]"])
    (auto simp: example_worlds roomy_def sizeof_ptr_def heap_ok_def live_def queue_at_def)

lemma queued_world_ok:
  "abstracts [1] [] queued_world ((quiet_system header_frame)\<lparr>sendq := [header_frame], pipe_bytes := 2\<rparr>)"
  "sends_ok queued_world" "pipe_data queued_world = [0, 0]" "frame_is (mem queued_world) 1 header_frame []"
  "tty_out queued_world = []"
  using queued_world_queues
  by (simp_all add: abstracts_def example_worlds quiet_system_def sends_ok_def connected_def frame_is_def header_frame_def
      request_frame_def conbee_const)

theorem enqueue_is_a_run_witness:
  "\<exists>w' s'. conbee_enqueue_frame frame_world 1 = Inr (int (unat (cseq (callers s' 0))), w') \<and>
     (caller_step 0)\<^sup>*\<^sup>* (goto 0 CLockSequence (quiet_system header_frame)) s' \<and> abstracts [1] [] w' s' \<and>
     cpc (callers s' 0) = CLockReceive"
proof -
  let ?s = "goto 0 CLockSequence (quiet_system header_frame)"
  have "cframe (callers ?s 0) = header_frame" "cpc (callers ?s 0) = CLockSequence"
    by (simp_all add: goto_def quiet_system_def)
  then show ?thesis
    using enqueue_is_a_run [OF frame_world_ok(1), of 1 0] frame_world_ok(2-4) by simp
qed

theorem worker_sends_all_announced_witness:
  "\<exists>s'. (worker_step 1)\<^sup>*\<^sup>* (between_locks header_frame 7) s' \<and> pipe_bytes s' = 0 \<and> sent s' = [header_frame] \<and> sendq s' = []"
proof -
  let ?s = "between_locks header_frame 7"
  have s: "wpc ?s = WSelect" "owner ?s MutexSend = None" "pushed ?s = [header_frame]" "(\<Sum>i<1. unannounced (callers ?s i)) = 0"
    by (simp_all add: between_locks_def quiet_system_def header_frame_def request_frame_def unannounced_def)
  then show ?thesis using worker_sends_all_announced [OF reachable_between_locks s(1,2)] by fastforce
qed

end
