(* ===== verification/Heap_Threads.thy ===== *)
theory Heap_Threads
  imports Interleaving
begin

text \<open>
  The interleaved threads of \<open>Threads\<close> once more, now on the real heap: frames are addresses, the two
  queues are the linked queues of \<open>Queue\<close>, and a statement that touches memory is the operation of
  the component that has it, \<open>conbee_queue_push\<close>, \<open>conbee_queue_delete\<close>, \<open>build_request\<close>, \<open>conbee_read_frame\<close>,
  \<open>conbee_write_frame\<close> and so on. A step ends in a new state or in undefined behaviour. What the
  worker does to a frame nobody else has seen yet is one step; statements on shared state are single steps.
\<close>

subsection \<open>State\<close>

text \<open>A caller as in \<open>Threads\<close>, with the addresses of the frame it sends and of the response it got.\<close>

record hcaller =
  hpc :: caller_pc
  hframe :: addr
  hseq :: u8
  hcmd :: u8
  hfound :: "addr option"

datatype hworker_pc =
    HSelect
  | HLockReceive addr | HPush addr | HSignal | HUnlockReceive
  | HReadPipe | HLockSend | HPop | HUnlockSend addr | HWrite addr

record hsystem =
  howner :: "mutex \<Rightarrow> thread option"
  hworld :: world
  hcallers :: "nat \<Rightarrow> hcaller"
  hwpc :: hworker_pc

abbreviation hmem :: "hsystem \<Rightarrow> heap" where "hmem s \<equiv> mem (hworld s)"
abbreviation hsendq :: "hsystem \<Rightarrow> conbee_queue_root" where "hsendq s \<equiv> send_queue (dev (hworld s))"
abbreviation hrecvq :: "hsystem \<Rightarrow> conbee_queue_root" where "hrecvq s \<equiv> receive_queue (dev (hworld s))"

definition hlock :: "mutex \<Rightarrow> thread \<Rightarrow> hsystem \<Rightarrow> hsystem" where
  "hlock m t s = s\<lparr>howner := (howner s)(m := Some t)\<rparr>"

definition hunlock :: "mutex \<Rightarrow> hsystem \<Rightarrow> hsystem" where
  "hunlock m s = s\<lparr>howner := (howner s)(m := None)\<rparr>"

definition hgoto :: "nat \<Rightarrow> caller_pc \<Rightarrow> hsystem \<Rightarrow> hsystem" where
  "hgoto i pc s = s\<lparr>hcallers := (hcallers s)(i := (hcallers s i)\<lparr>hpc := pc\<rparr>)\<rparr>"

definition hupd :: "nat \<Rightarrow> (hcaller \<Rightarrow> hcaller) \<Rightarrow> hsystem \<Rightarrow> hsystem" where
  "hupd i f s = s\<lparr>hcallers := (hcallers s)(i := f (hcallers s i))\<rparr>"

definition set_mem :: "heap \<Rightarrow> hsystem \<Rightarrow> hsystem" where
  "set_mem h s = s\<lparr>hworld := (hworld s)\<lparr>mem := h\<rparr>\<rparr>"

definition set_send :: "heap \<Rightarrow> conbee_queue_root \<Rightarrow> hsystem \<Rightarrow> hsystem" where
  "set_send h q s = s\<lparr>hworld := (hworld s)\<lparr>mem := h, dev := (dev (hworld s))\<lparr>send_queue := q\<rparr>\<rparr>\<rparr>"

definition set_receive :: "heap \<Rightarrow> conbee_queue_root \<Rightarrow> hsystem \<Rightarrow> hsystem" where
  "set_receive h q s = s\<lparr>hworld := (hworld s)\<lparr>mem := h, dev := (dev (hworld s))\<lparr>receive_queue := q\<rparr>\<rparr>\<rparr>"

subsection \<open>Statements on the heap\<close>

definition stamp_request :: "nat \<Rightarrow> hsystem \<Rightarrow> ub + hsystem" where
  "stamp_request i s =
     bindE (update_frame (hmem s) (hframe (hcallers s i)) (\<lambda>f. f\<lparr>sequence_number := hseq (hcallers s i)\<rparr>))
       (\<lambda>h. Inr (hgoto i CLockSend (set_mem h s)))"

definition push_request :: "nat \<Rightarrow> hsystem \<Rightarrow> ub + hsystem" where
  "push_request i s =
     bindE (conbee_queue_push (hmem s) (hsendq s) (hframe (hcallers s i)))
       (\<lambda>(h, q). Inr (hgoto i CUnlockSend (set_send h q s)))"

text \<open>One turn of the inner loop of \<open>conbee_wait_for_frame\<close>; the item stays the head of the queue.\<close>

definition scan_head :: "nat \<Rightarrow> hsystem \<Rightarrow> ub + hsystem" where
  "scan_head i s =
     (if head (hrecvq s) = NULL then Inr (hgoto i CUnlockReceive s)
      else bindE (get_contents (hmem s) (head (hrecvq s))) (\<lambda>help_frame.
           bindE (deref (frames (hmem s)) help_frame) (\<lambda>fr.
           if wanted (hseq (hcallers s i)) (hcmd (hcallers s i)) fr
           then bindE (conbee_queue_delete (hmem s) (hrecvq s) (head (hrecvq s))) (\<lambda>(h, q).
                Inr (hgoto i CUnlockReceive (hupd i (\<lambda>c. c\<lparr>hfound := Some help_frame\<rparr>) (set_receive h q s))))
           else Inr s)))"

text \<open>
  Between two exchanges a caller frees its response, unless the function it called forgets to
  (\<open>keep\<close>), and builds its next request.
\<close>

definition next_exchange :: "nat \<Rightarrow> bool \<Rightarrow> request \<Rightarrow> u8 \<Rightarrow> hsystem \<Rightarrow> ub + hsystem" where
  "next_exchange i keep req cmd s =
     bindE (case hfound (hcallers s i) of
              None \<Rightarrow> Inr (hmem s)
            | Some f \<Rightarrow> if keep then Inr (hmem s) else conbee_free_frame (hmem s) f) (\<lambda>h.
     bindE (build_request req h) (\<lambda>(frame, h).
     Inr (hupd i (\<lambda>c. \<lparr>hpc = CLockSequence, hframe = frame, hseq = hseq c, hcmd = cmd, hfound = None\<rparr>) (set_mem h s))))"

definition push_received_frame :: "addr \<Rightarrow> hsystem \<Rightarrow> ub + hsystem" where
  "push_received_frame frame s =
     bindE (conbee_queue_push (hmem s) (hrecvq s) frame) (\<lambda>(h, q). Inr ((set_receive h q s)\<lparr>hwpc := HSignal\<rparr>))"

definition pop_request :: "hsystem \<Rightarrow> ub + hsystem" where
  "pop_request s =
     bindE (conbee_queue_pop (hmem s) (hsendq s)) (\<lambda>(frame, h, q). Inr ((set_send h q s)\<lparr>hwpc := HUnlockSend frame\<rparr>))"

definition write_request :: "u8 list \<Rightarrow> addr \<Rightarrow> hsystem \<Rightarrow> ub + hsystem" where
  "write_request stack frame s =
     (if frame \<noteq> NULL
      then bindE (conbee_write_frame stack (hworld s) frame) (\<lambda>(retval, w).
           bindE (conbee_free_frame (mem w) frame) (\<lambda>h.
           Inr (s\<lparr>hworld := w\<lparr>mem := h\<rparr>, hwpc := HSelect\<rparr>)))
      else Inr (s\<lparr>hwpc := HSelect\<rparr>))"

text \<open>\<open>None\<close>: the thread blocks in \<open>read\<close>. \<open>evs\<close> is what the line delivers meanwhile.\<close>

definition read_packet :: "u8 list \<Rightarrow> read_event list \<Rightarrow> hsystem \<Rightarrow> (ub + hsystem) option" where
  "read_packet stack evs s =
     (case conbee_init_frame (hmem s) of
        Inl e \<Rightarrow> Some (Inl e)
      | Inr (frame, h) \<Rightarrow>
          map_option (\<lambda>r. bindE r (\<lambda>(retval, w). Inr (s\<lparr>hworld := w, hwpc := HLockReceive frame\<rparr>)))
            (conbee_read_frame stack ((hworld s)\<lparr>mem := h, tty_in := evs\<rparr>) frame))"

subsection \<open>Steps\<close>

inductive hcaller_step :: "nat \<Rightarrow> hsystem \<Rightarrow> ub + hsystem \<Rightarrow> bool" for i where
  h_lock_sequence: "hpc (hcallers s i) = CLockSequence \<Longrightarrow> howner s MutexSequence = None \<Longrightarrow>
     hcaller_step i s (Inr (hgoto i CReadSequence (hlock MutexSequence (Caller i) s)))"
| h_read_sequence: "hpc (hcallers s i) = CReadSequence \<Longrightarrow>
     hcaller_step i s (Inr (hgoto i CIncSequence (hupd i (\<lambda>c. c\<lparr>hseq := next_sequence (dev (hworld s))\<rparr>) s)))"
| h_inc_sequence: "hpc (hcallers s i) = CIncSequence \<Longrightarrow>
     hcaller_step i s (Inr (hgoto i CUnlockSequence (s\<lparr>hworld := (hworld s)\<lparr>dev :=
       (dev (hworld s))\<lparr>next_sequence := next_sequence (dev (hworld s)) + 1\<rparr>\<rparr>\<rparr>)))"
| h_unlock_sequence: "hpc (hcallers s i) = CUnlockSequence \<Longrightarrow>
     hcaller_step i s (Inr (hgoto i CStamp (hunlock MutexSequence s)))"
| h_stamp: "hpc (hcallers s i) = CStamp \<Longrightarrow> hcaller_step i s (stamp_request i s)"
| h_lock_send: "hpc (hcallers s i) = CLockSend \<Longrightarrow> howner s MutexSend = None \<Longrightarrow>
     hcaller_step i s (Inr (hgoto i CPush (hlock MutexSend (Caller i) s)))"
| h_push: "hpc (hcallers s i) = CPush \<Longrightarrow> hcaller_step i s (push_request i s)"
| h_unlock_send: "hpc (hcallers s i) = CUnlockSend \<Longrightarrow>
     hcaller_step i s (Inr (hgoto i CLockPipe (hunlock MutexSend s)))"
| h_lock_pipe: "hpc (hcallers s i) = CLockPipe \<Longrightarrow> howner s MutexPipe = None \<Longrightarrow>
     hcaller_step i s (Inr (hgoto i CWritePipe (hlock MutexPipe (Caller i) s)))"
| h_write_pipe: "hpc (hcallers s i) = CWritePipe \<Longrightarrow> length (pipe_data (hworld s)) + 2 \<le> pipe_capacity \<Longrightarrow>
     hcaller_step i s (Inr (hgoto i CUnlockPipe (s\<lparr>hworld := (hworld s)\<lparr>pipe_data := pipe_data (hworld s) @ [0, 0]\<rparr>\<rparr>)))"
| h_unlock_pipe: "hpc (hcallers s i) = CUnlockPipe \<Longrightarrow>
     hcaller_step i s (Inr (hgoto i CLockReceive (hunlock MutexPipe s)))"
| h_lock_receive: "hpc (hcallers s i) = CLockReceive \<Longrightarrow> howner s MutexReceive = None \<Longrightarrow>
     hcaller_step i s (Inr (hgoto i CScan (hlock MutexReceive (Caller i) s)))"
| h_scan: "hpc (hcallers s i) = CScan \<Longrightarrow> hcaller_step i s (scan_head i s)"
| h_unlock_receive: "hpc (hcallers s i) = CUnlockReceive \<Longrightarrow>
     hcaller_step i s (Inr (hgoto i (if hfound (hcallers s i) \<noteq> None then CDone else CRelock) (hunlock MutexReceive s)))"
| h_relock: "hpc (hcallers s i) = CRelock \<Longrightarrow> howner s MutexReceive = None \<Longrightarrow>
     hcaller_step i s (Inr (hgoto i CCondWait (hlock MutexReceive (Caller i) s)))"
| h_cond_wait: "hpc (hcallers s i) = CCondWait \<Longrightarrow>
     hcaller_step i s (Inr (hgoto i CSleep (hunlock MutexReceive s)))"
| h_spurious: "hpc (hcallers s i) = CSleep \<Longrightarrow> hcaller_step i s (Inr (hgoto i CWoken s))"
| h_woken: "hpc (hcallers s i) = CWoken \<Longrightarrow> howner s MutexReceive = None \<Longrightarrow>
     hcaller_step i s (Inr (hgoto i CScan (hlock MutexReceive (Caller i) s)))"
| h_next: "hpc (hcallers s i) = CDone \<Longrightarrow> request_fits req \<Longrightarrow> hcaller_step i s (next_exchange i keep req cmd s)"

inductive hworker_step :: "nat \<Rightarrow> hsystem \<Rightarrow> ub + hsystem \<Rightarrow> bool" for n where
  h_read_packet: "hwpc s = HSelect \<Longrightarrow> length stack = 1500 \<Longrightarrow> read_packet stack evs s = Some r \<Longrightarrow> hworker_step n s r"
| h_wlock_receive: "hwpc s = HLockReceive a \<Longrightarrow> howner s MutexReceive = None \<Longrightarrow>
     hworker_step n s (Inr ((hlock MutexReceive Worker s)\<lparr>hwpc := HPush a\<rparr>))"
| h_wpush: "hwpc s = HPush a \<Longrightarrow> hworker_step n s (push_received_frame a s)"
| h_wsignal: "hwpc s = HSignal \<Longrightarrow> i < n \<Longrightarrow> hpc (hcallers s i) = CSleep \<Longrightarrow>
     hworker_step n s (Inr ((hgoto i CWoken s)\<lparr>hwpc := HUnlockReceive\<rparr>))"
| h_wsignal_nobody: "hwpc s = HSignal \<Longrightarrow> \<forall>i<n. hpc (hcallers s i) \<noteq> CSleep \<Longrightarrow>
     hworker_step n s (Inr (s\<lparr>hwpc := HUnlockReceive\<rparr>))"
| h_wunlock_receive: "hwpc s = HUnlockReceive \<Longrightarrow>
     hworker_step n s (Inr ((hunlock MutexReceive s)\<lparr>hwpc := HSelect\<rparr>))"
| h_select_pipe: "hwpc s = HSelect \<Longrightarrow> pipe_data (hworld s) \<noteq> [] \<Longrightarrow>
     hworker_step n s (Inr (s\<lparr>hwpc := HReadPipe\<rparr>))"
| h_wread_pipe: "hwpc s = HReadPipe \<Longrightarrow> pipe_data (hworld s) \<noteq> [] \<Longrightarrow>
     hworker_step n s (Inr (s\<lparr>hworld := (hworld s)\<lparr>pipe_data := drop 2 (pipe_data (hworld s))\<rparr>, hwpc := HLockSend\<rparr>))"
| h_wlock_send: "hwpc s = HLockSend \<Longrightarrow> howner s MutexSend = None \<Longrightarrow>
     hworker_step n s (Inr ((hlock MutexSend Worker s)\<lparr>hwpc := HPop\<rparr>))"
| h_wpop: "hwpc s = HPop \<Longrightarrow> hworker_step n s (pop_request s)"
| h_wunlock_send: "hwpc s = HUnlockSend a \<Longrightarrow>
     hworker_step n s (Inr ((hunlock MutexSend s)\<lparr>hwpc := HWrite a\<rparr>))"
| h_wwrite: "hwpc s = HWrite a \<Longrightarrow> length stack = 1000 \<Longrightarrow> hworker_step n s (write_request stack a s)"

definition hsys_step :: "nat \<Rightarrow> hsystem \<Rightarrow> ub + hsystem \<Rightarrow> bool" where
  "hsys_step n s r \<longleftrightarrow> hworker_step n s r \<or> (\<exists>i<n. hcaller_step i s r)"

text \<open>Every payload pointer points at a block of its own.\<close>

definition payloads_ok :: "heap \<Rightarrow> bool" where
  "payloads_ok h \<longleftrightarrow>
     (\<forall>a fr. frames h a = Some fr \<longrightarrow> payload fr \<noteq> NULL \<longrightarrow> blocks h (payload fr) \<noteq> None) \<and>
     (\<forall>a b fa fb. frames h a = Some fa \<longrightarrow> frames h b = Some fb \<longrightarrow> payload fa \<noteq> NULL \<longrightarrow>
        payload fa = payload fb \<longrightarrow> a = b)"

text \<open>What \<open>conbee_connect\<close> leaves, on a heap whose allocator rounds up far enough.\<close>

definition hinitial :: "hsystem \<Rightarrow> bool" where
  "hinitial s \<longleftrightarrow> howner s = (\<lambda>_. None) \<and> roomy (hmem s) \<and> heap_ok (hmem s) \<and> payloads_ok (hmem s) \<and>
     hsendq s = conbee_queue_init \<and> hrecvq s = conbee_queue_init \<and> next_sequence (dev (hworld s)) = 0 \<and>
     pipe_data (hworld s) = [] \<and> hwpc s = HSelect \<and>
     (\<forall>i. hpc (hcallers s i) = CDone \<and> hfound (hcallers s i) = None)"

text \<open>The states reached without undefined behaviour.\<close>

inductive hreachable :: "nat \<Rightarrow> hsystem \<Rightarrow> bool" for n where
  hstart: "hinitial s \<Longrightarrow> hreachable n s"
| hstep: "hreachable n s \<Longrightarrow> hsys_step n s (Inr s') \<Longrightarrow> hreachable n s'"

inductive_cases hcaller_stepE: "hcaller_step i s r"
inductive_cases hworker_stepE: "hworker_step n s r"

lemmas hstate_ops = hlock_def hunlock_def hgoto_def hupd_def set_mem_def set_send_def set_receive_def

end
