(* ===== verification/Heap_Refinement.thy ===== *)
theory Heap_Refinement
  imports Heap_Threads
begin

text \<open>
  The threads on the heap implement the threads on lists: every defined step of \<open>Heap_Threads\<close> is a step
  of \<open>Threads\<close>, over a relation that says which thread or queue holds which frame. The same proof says
  which steps can be undefined.
\<close>

subsection \<open>What the operations do to the heap\<close>

definition good_heap :: "heap \<Rightarrow> bool" where
  "good_heap h \<longleftrightarrow> roomy h \<and> heap_ok h \<and> payloads_ok h"

lemma payloads_okD:
  "payloads_ok h \<Longrightarrow> frames h a = Some fr \<Longrightarrow> payload fr \<noteq> NULL \<Longrightarrow> \<exists>bs. blocks h (payload fr) = Some bs"
  "payloads_ok h \<Longrightarrow> frames h a = Some fa \<Longrightarrow> frames h b = Some fb \<Longrightarrow> payload fa \<noteq> NULL \<Longrightarrow> payload fa = payload fb \<Longrightarrow> a = b"
  by (auto simp: payloads_ok_def)

lemma payloads_ok_cong: "frames h' = frames h \<Longrightarrow> blocks h' = blocks h \<Longrightarrow> payloads_ok h' = payloads_ok h"
  by (simp add: payloads_ok_def)

lemma items_only_payloads: "items_only S h h' \<Longrightarrow> payloads_ok h' = payloads_ok h"
  by (intro payloads_ok_cong) (simp_all add: items_only_def)

lemma payloads_ok_update:
  "payloads_ok h \<Longrightarrow> frames h a = Some fr \<Longrightarrow> payload fr' = payload fr \<Longrightarrow>
   payloads_ok (h\<lparr>frames := (frames h)(a \<mapsto> fr')\<rparr>)"
  unfolding payloads_ok_def by (auto split: if_splits)

lemma payloads_ok_free:
  assumes "payloads_ok h" "frames h a = Some fr"
  shows "payloads_ok (without_frame h a (payload fr))"
  using assms unfolding payloads_ok_def without_frame_def by (auto split: if_splits)

lemma good_frame_is: "good_heap h \<Longrightarrow> frames h a = Some fr \<Longrightarrow> \<exists>bs. frame_is h a fr bs"
  using heap_ok_live(1) [of h a fr] payloads_okD(1) [of h a fr]
  by (cases "payload fr = NULL") (auto simp: good_heap_def frame_is_def)

lemma good_free:
  assumes "good_heap h" "frames h a = Some fr"
  shows "conbee_free_frame h a = Inr (without_frame h a (payload fr))" "good_heap (without_frame h a (payload fr))"
proof -
  obtain bs where "frame_is h a fr bs" using good_frame_is [OF assms] by blast
  then show "conbee_free_frame h a = Inr (without_frame h a (payload fr))" by (rule conbee_free_frame_ok)
  show "good_heap (without_frame h a (payload fr))"
    using assms without_frame_ok payloads_ok_free by (auto simp: good_heap_def roomy_def)
qed

text \<open>A new frame at the next address, with or without a new block.\<close>

definition new_frame :: "heap \<Rightarrow> conbee_frame \<Rightarrow> heap \<Rightarrow> bool" where
  "new_frame h fr h' \<longleftrightarrow> frames h' = (frames h)(brk h \<mapsto> fr) \<and> items h' = items h \<and> min_chunk h' = min_chunk h \<and>
     brk h < brk h' \<and> avail h \<le> avail h' + 2 \<and>
     (payload fr = NULL \<and> blocks h' = blocks h \<or>
      payload fr = Suc (brk h) \<and> Suc (brk h) < brk h' \<and> (\<exists>bs. blocks h' = (blocks h)(Suc (brk h) \<mapsto> bs)))"

lemma new_frame_good:
  assumes "good_heap h" "new_frame h fr h'"
  shows "good_heap h'"
proof -
  have ok: "heap_ok h" "0 < brk h" using assms(1) heap_ok_brk by (auto simp: good_heap_def)
  have "heap_ok h'"
    by (rule heap_okI [OF ok(1)]) (use assms(2) ok(2) in \<open>auto simp: new_frame_def live_def split: if_splits\<close>)
  moreover have "payload f \<noteq> Suc (brk h)" if "frames h a = Some f" for a f
    using payloads_okD(1) [of h a f] that assms(1) heap_ok_live(2) [OF ok(1), of "payload f"]
    by (auto simp: good_heap_def)
  then have "payloads_ok h'"
    using assms unfolding new_frame_def good_heap_def payloads_ok_def
    by (auto split: if_splits)
  ultimately show ?thesis using assms by (simp add: good_heap_def new_frame_def roomy_def)
qed

lemma conbee_init_frame_cases:
  assumes "heap_ok h"
  shows "conbee_init_frame h = (if avail h = 0 then Inl NullDeref else Inr (brk h, blank_heap h))"
  using assms init_frame_blank [of h] by (simp add: conbee_init_frame_def malloc_def)

definition request_blocks :: "request \<Rightarrow> nat" where
  "request_blocks req = (if req = ReadFirmware then 1 else 2)"

lemma build_request_new:
  assumes "heap_ok h" "request_fits req" "build_request req h = Inr (a, h')"
  shows "a = brk h \<and> h' = request_heap req h"
proof (cases "2 \<le> avail h")
  case True
  then show ?thesis using build_request_eq [OF True assms(1,2)] assms(3) by simp
next
  case False
  show ?thesis
  proof (cases req)
    case ReadFirmware
    then have "0 < avail h" using assms(1,3) conbee_init_frame_cases [OF assms(1)]
      by (cases "avail h") (simp_all add: conbee_read_firmware_request_def)
    then show ?thesis using conbee_read_firmware_request_ok [OF _ assms(1)] ReadFirmware assms(3)
      by (auto simp: request_heap_def)
  qed (use False assms in \<open>auto simp: bindE_eq_Inr conbee_init_frame_cases set_payload_def malloc_bytes_def
      malloc_def update_frame_def Let_def blank_heap_def conbee_read_parameter_request_def conbee_write_parameter_request_def
      conbee_device_status_request_def conbee_device_network_join_create_request_def
      conbee_device_network_leave_request_def conbee_device_get_aps_data_request_def split: if_splits\<close>)
qed

lemma request_heap_new: "new_frame h ((request_header req)\<lparr>payload := request_pointer req h\<rparr>) (request_heap req h)"
  by (auto simp: new_frame_def request_heap_def with_frame_def request_pointer_def request_frame_def)

text \<open>Reading a packet fills the new frame and changes nothing else, whatever comes over the line.\<close>

lemma set_payload_new:
  assumes "set_payload h a bs = Inr h'" and "frames h a = Some fr" and "a \<noteq> NULL"
  shows "h' = h\<lparr>brk := Suc (brk h), avail := avail h - 1, blocks := (blocks h)(brk h \<mapsto> bs),
           frames := (frames h)(a \<mapsto> fr\<lparr>payload := brk h\<rparr>)\<rparr>"
  using assms by (auto simp: set_payload_def malloc_bytes_def malloc_def update_frame_def Let_def split: if_splits)

lemma conbee_fill_frame_new:
  assumes fill: "conbee_fill_frame n buffer w a = Inr (e, w')" and "heap_ok h" and a: "a = brk h" and w: "mem w = blank_heap h"
  shows "dev w' = dev w \<and> pipe_data w' = pipe_data w \<and> (\<exists>fr. new_frame h fr (mem w'))"
proof -
  have nn: "a \<noteq> NULL" using heap_ok_brk [OF assms(2)] a by simp
  obtain hdr where hdr: "buf_read buffer 0 5 = Inr hdr"
    using fill by (cases "buf_read buffer 0 5") (simp_all add: conbee_fill_frame_def)
  let ?f = "blank_frame\<lparr>command := hdr ! 0, sequence_number := hdr ! 1, status := hdr ! 2, frame_length := le_word (drop 3 hdr)\<rparr>"
  let ?h1 = "(blank_heap h)\<lparr>frames := (frames h)(a \<mapsto> ?f)\<rparr>"
  have upd: "update_frame (mem w) a (\<lambda>f. f\<lparr>command := hdr ! 0, sequence_number := hdr ! 1, status := hdr ! 2,
      frame_length := le_word (drop 3 hdr)\<rparr>) = Inr ?h1"
    using nn by (simp add: update_frame_def w a)
  show ?thesis
  proof (cases "n > 5")
    case False
    then have "w' = w\<lparr>mem := ?h1\<rparr>" using fill hdr upd by (simp add: conbee_fill_frame_def)
    then show ?thesis by (intro conjI exI [of _ ?f]) (simp_all add: new_frame_def blank_heap_def blank_frame_def a)
  next
    case True
    let ?plen = "word_of_int (n - 5 - 2) :: u16"
    let ?h2 = "?h1\<lparr>frames := (frames h)(a \<mapsto> ?f\<lparr>payload_length := ?plen\<rparr>)\<rparr>"
    have "update_frame ?h1 a (\<lambda>f. f\<lparr>payload_length := ?plen\<rparr>) = Inr ?h2"
      using nn by (simp add: update_frame_def)
    then obtain bs h3 where "set_payload ?h2 a bs = Inr h3" "w' = w\<lparr>mem := h3\<rparr>"
      using fill hdr upd True by (auto simp: conbee_fill_frame_def bindE_eq_Inr Let_def simp del: fun_upd_apply)
    then have "mem w' = ?h2\<lparr>brk := Suc (brk ?h2), avail := avail ?h2 - 1, blocks := (blocks ?h2)(brk ?h2 \<mapsto> bs),
        frames := (frames ?h2)(a \<mapsto> ?f\<lparr>payload_length := ?plen, payload := brk ?h2\<rparr>)\<rparr>" "dev w' = dev w" "pipe_data w' = pipe_data w"
      using set_payload_new [of ?h2 a bs h3] nn by simp_all
    then show ?thesis
      by (intro conjI exI [of _ "?f\<lparr>payload_length := ?plen, payload := brk ?h2\<rparr>"]; simp add: new_frame_def blank_heap_def a)
        (intro conjI; (arith | blast))
  qed
qed

lemma blank_heap_new: "new_frame h blank_frame (blank_heap h)"
  by (simp add: new_frame_def blank_heap_def blank_frame_def)

lemma conbee_parse_packet_new:
  assumes "conbee_parse_packet n buffer w a = Inr (e, w')" and "heap_ok h" and "a = brk h" and "mem w = blank_heap h"
  shows "dev w' = dev w \<and> pipe_data w' = pipe_data w \<and> (\<exists>fr. new_frame h fr (mem w'))"
proof -
  have "w' = w \<or> conbee_fill_frame n buffer w a = Inr (e, w')"
    using assms(1) by (auto simp: conbee_parse_packet_def bindE_eq_Inr split: if_splits)
  then show ?thesis using conbee_fill_frame_new [OF _ assms(2-4)] blank_heap_new [of h] assms(4) by metis
qed

text \<open>The part of the world that a read or write of a byte does not change.\<close>

definition same_state :: "world \<Rightarrow> world \<Rightarrow> bool" where
  "same_state w w' \<longleftrightarrow> mem w' = mem w \<and> dev w' = dev w \<and> pipe_data w' = pipe_data w"

lemma read_byte_same_state: "conbee_read_byte w c = Some (r, c', w') \<Longrightarrow> same_state v w \<Longrightarrow> same_state v w'"
  by (auto simp: conbee_read_byte_def sys_read_def same_state_def bind_eq_Some_conv split: if_splits list.splits read_event.splits)

lemma write_byte_same_state: "conbee_write_byte w b = (r, w') \<Longrightarrow> same_state v w \<Longrightarrow> same_state v w'"
  by (auto simp: conbee_write_byte_def sys_write_def same_state_def split: if_splits list.splits)

lemma conbee_read_frame_new:
  assumes "conbee_read_frame stack w a = Some (Inr (e, w'))" and "heap_ok h" and "a = brk h" and "mem w = blank_heap h"
  shows "dev w' = dev w \<and> pipe_data w' = pipe_data w \<and> (\<exists>fr. new_frame h fr (mem w'))"
proof (cases "tty_status (dev w) = TTY_DISCONNECTED")
  case True
  then show ?thesis using assms(1,4) blank_heap_new [of h] by (auto simp: conbee_read_frame_def)
next
  case False
  then obtain n buffer v where v: "slip_receive_packet conbee_read_byte w stack 1500 = Some (Inr (n, buffer, v))"
    "conbee_parse_packet n buffer v a = Inr (e, w')"
    using assms(1) by (auto simp: conbee_read_frame_def bindE_eq_Inr)
  have "same_state w v"
    using slip_receive_keeps [where I = "same_state w", OF read_byte_same_state v(1) [unfolded slip_receive_packet_def]]
    by (simp add: same_state_def)
  then show ?thesis
    using conbee_parse_packet_new [OF v(2) assms(2,3)] assms(4) by (simp add: same_state_def)
qed

text \<open>Writing a frame that fits the buffer is defined, whatever becomes of the bytes, and stores only its status.\<close>

lemma slip_transmit_loop_defined:
  "n \<le> length buffer \<Longrightarrow> \<exists>r. slip_transmit_loop write_byte d buffer n err = Inr r"
  by (induction write_byte d buffer n err rule: slip_transmit_loop.induct) (auto simp: Let_def split: prod.splits)

lemma slip_transmit_packet_defined:
  "unat n \<le> length buffer \<Longrightarrow> \<exists>e d'. slip_transmit_packet write_byte d buffer n = Inr (e, d')"
proof -
  assume n: "unat n \<le> length buffer"
  obtain e1 d1 where 1: "write_byte d END = (e1, d1)" by (cases "write_byte d END")
  obtain e2 d2 where 2: "slip_transmit_loop write_byte d1 buffer (unat n) e1 = Inr (e2, d2)"
    using slip_transmit_loop_defined [OF n, of write_byte d1 e1] by auto
  obtain e3 d3 where "write_byte d2 END = (e3, d3)" by (cases "write_byte d2 END")
  then show ?thesis using 1 2 by (simp add: slip_transmit_packet_def)
qed

lemma slip_transmit_same_state:
  assumes "slip_transmit_packet conbee_write_byte w buffer len = Inr (e, w')" "same_state v w"
  shows "same_state v w'"
proof -
  obtain r1 w1 where 1: "conbee_write_byte w END = (r1, w1)" by (cases "conbee_write_byte w END")
  then obtain e2 w2 where 2: "slip_transmit_loop conbee_write_byte w1 buffer (unat len) r1 = Inr (e2, w2)"
    "(case conbee_write_byte w2 END of (r, d) \<Rightarrow> Inr (e2, d)) = (Inr (e, w') :: ub + int \<times> world)"
    using assms(1) by (auto simp: slip_transmit_packet_def bindE_eq_Inr Let_def)
  obtain r3 where 3: "conbee_write_byte w2 END = (r3, w')" using 2(2) by (cases "conbee_write_byte w2 END") auto
  have w1: "same_state v w1" by (rule write_byte_same_state [OF 1 assms(2)])
  have "same_state v w2"
    by (rule slip_transmit_keeps [where I = "same_state v", OF _ 2(1) w1]) (rule write_byte_same_state)
  then show ?thesis by (rule write_byte_same_state [OF 3])
qed

text \<open>A frame that \<open>conbee_write_frame\<close> can lay out in its buffer.\<close>

definition sendable :: "heap \<Rightarrow> addr \<Rightarrow> bool" where
  "sendable h a \<longleftrightarrow> (\<exists>fr bs. frame_is h a fr bs \<and> unat (payload_length fr) = length bs \<and> length bs \<le> 993 \<and>
     unat (frame_length fr) \<le> 998)"

lemma conbee_write_frame_defined:
  assumes "sendable (mem w) a" and "length stack = 1000" and "frames (mem w) a = Some fr"
  obtains e w' where "conbee_write_frame stack w a = Inr (e, w')" "dev w' = dev w" "pipe_data w' = pipe_data w"
    "mem w' = mem w \<or> mem w' = (mem w)\<lparr>frames := (frames (mem w))(a \<mapsto> fr\<lparr>status := 0\<rparr>)\<rparr>"
proof (cases "tty_status (dev w) = TTY_DISCONNECTED")
  case True
  then show ?thesis using that [of "-2" w] by (simp add: conbee_write_frame_def)
next
  case False
  obtain bs where bs: "frame_is (mem w) a fr bs" "unat (payload_length fr) = length bs" "length bs \<le> 993"
    "unat (frame_length fr) \<le> 998"
    using assms(1,3) by (auto simp: sendable_def frame_is_def)
  let ?h = "(mem w)\<lparr>frames := (frames (mem w))(a \<mapsto> fr\<lparr>status := 0\<rparr>)\<rparr>"
  let ?buf = "frame_bytes fr bs @ drop (length (frame_bytes fr bs)) stack"
  let ?n = "unat (frame_length fr)"
  let ?put = "take ?n ?buf @ le_bytes 2 (checksum (take ?n ?buf)) @ drop (?n + 2) ?buf"
  have len: "length ?buf = 1000" using assms(2) bs(3) by (auto simp: frame_bytes_def)
  have upd: "update_frame (mem w) a (\<lambda>f. f\<lparr>status := 0\<rparr>) = Inr ?h" "a \<noteq> NULL"
    using bs(1) by (simp_all add: frame_is_def update_frame_def)
  have crc: "crc16 ?buf (ucast (frame_length fr)) = Inr (checksum (take ?n ?buf))"
    using len bs(4) by (subst crc16_ok) simp_all
  have put: "buf_write ?buf ?n (le_bytes 2 (checksum (take ?n ?buf))) = Inr ?put"
    using len bs(4) by (simp add: buf_write_ok)
  have pay: "payload_length fr > 0 \<Longrightarrow> read_bytes ?h (payload fr) 0 (unat (payload_length fr)) = Inr bs"
    using read_payload [OF bs(1,2)] by simp
  have "length ?put = 1000" using buf_write_length [OF put] len by simp
  then have room: "unat (ucast (frame_length fr) + 2 :: u32) \<le> length ?put"
    using bs(4) by (simp only: unat_length_plus_2)
  obtain e w' where send: "slip_transmit_packet conbee_write_byte (w\<lparr>mem := ?h\<rparr>) ?put (ucast (frame_length fr) + 2) = Inr (e, w')"
    using slip_transmit_packet_defined [OF room, of conbee_write_byte "w\<lparr>mem := ?h\<rparr>"] by blast
  have "same_state (w\<lparr>mem := ?h\<rparr>) w'" by (rule slip_transmit_same_state [OF send]) (simp add: same_state_def)
  moreover have "conbee_write_frame stack w a = bindE (crc16 ?buf (ucast (frame_length fr))) (\<lambda>crc.
           bindE (buf_write ?buf (unat (frame_length fr)) (le_bytes 2 crc)) (\<lambda>buffer.
           bindE (slip_transmit_packet conbee_write_byte (w\<lparr>mem := ?h\<rparr>) buffer (ucast (frame_length fr) + 2))
             (\<lambda>(err, w). Inr (0, w))))"
    using False fill_buffer [OF assms(2) bs(3), of fr]
    by (simp add: conbee_write_frame_def upd pay cong: if_cong)
  then have "conbee_write_frame stack w a = Inr (0, w')"
    by (simp only: crc put send bindE.simps prod.case)
  ultimately show ?thesis using that [of 0 w'] by (simp add: same_state_def)
qed

lemma request_sendable:
  assumes "heap_ok h" "request_fits req"
  shows "sendable (request_heap req h) (brk h)"
  using request_heap_is [OF assms(1), of req] request_payload_length [OF assms(2)] request_frame_length [OF assms(2)]
    request_payload_small [OF assms(2)]
  unfolding sendable_def by (intro exI conjI) (assumption, simp_all)

lemma write_request_frees:
  assumes good: "good_heap (hmem s)" and "sendable (hmem s) a" and "length stack = 1000" and "frames (hmem s) a = Some fr"
  obtains w where "write_request stack a s = Inr (s\<lparr>hworld := w, hwpc := HSelect\<rparr>)" "dev w = dev (hworld s)"
    "pipe_data w = pipe_data (hworld s)" "mem w = without_frame (hmem s) a (payload fr)"
proof -
  obtain e w where w: "conbee_write_frame stack (hworld s) a = Inr (e, w)" "dev w = dev (hworld s)" "pipe_data w = pipe_data (hworld s)"
    "mem w = hmem s \<or> mem w = (hmem s)\<lparr>frames := (frames (hmem s))(a \<mapsto> fr\<lparr>status := 0\<rparr>)\<rparr>"
    by (rule conbee_write_frame_defined [OF assms(2-4)])
  have "a \<noteq> NULL" using assms(2) by (auto simp: sendable_def frame_is_def)
  moreover have "good_heap ((hmem s)\<lparr>frames := (frames (hmem s))(a \<mapsto> fr\<lparr>status := 0\<rparr>)\<rparr>)"
    using good assms(4) by (simp add: good_heap_def heap_ok_update_frame payloads_ok_update)
  then have "conbee_free_frame (mem w) a = Inr (without_frame (hmem s) a (payload fr))"
    using w(4) good_free(1) [OF good assms(4)] good_free(1) [of "(hmem s)\<lparr>frames := (frames (hmem s))(a \<mapsto> fr\<lparr>status := 0\<rparr>)\<rparr>" a]
    by (auto simp: without_frame_def)
  ultimately show ?thesis
    using w that [of "w\<lparr>mem := without_frame (hmem s) a (payload fr)\<rparr>"] by (simp add: write_request_def)
qed

subsection \<open>Who holds which frame\<close>

datatype holder = HeldCaller nat | HeldFound nat | HeldWorker | HeldSend | HeldReceive

text \<open>A caller has its request from building it to pushing it.\<close>

fun has_request :: "caller_pc \<Rightarrow> bool" where
  "has_request pc \<longleftrightarrow> pc \<in> {CLockSequence, CReadSequence, CIncSequence, CUnlockSequence, CStamp, CLockSend, CPush}"

definition request_held :: "(addr \<rightharpoonup> holder) \<Rightarrow> heap \<Rightarrow> nat \<Rightarrow> hcaller \<Rightarrow> caller \<Rightarrow> bool" where
  "request_held own h i c a \<longleftrightarrow> (has_request (hpc c) \<longrightarrow> own (hframe c) = Some (HeldCaller i) \<and>
     frames h (hframe c) = Some (cframe a) \<and> sendable h (hframe c))"

definition found_held :: "(addr \<rightharpoonup> holder) \<Rightarrow> heap \<Rightarrow> nat \<Rightarrow> hcaller \<Rightarrow> caller \<Rightarrow> bool" where
  "found_held own h i c a \<longleftrightarrow> (hfound c = None \<longleftrightarrow> cfound a = None) \<and>
     (\<forall>f. hfound c = Some f \<longrightarrow> own f = Some (HeldFound i) \<and> frames h f = cfound a)"

definition same_caller :: "hcaller \<Rightarrow> caller \<Rightarrow> bool" where
  "same_caller c a \<longleftrightarrow> hpc c = cpc a \<and> hseq c = cseq a \<and> hcmd c = ccmd a"

fun worker_held :: "(addr \<rightharpoonup> holder) \<Rightarrow> heap \<Rightarrow> hworker_pc \<Rightarrow> worker_pc \<Rightarrow> bool" where
  "worker_held own h HSelect pc \<longleftrightarrow> pc = WSelect"
| "worker_held own h (HLockReceive a) pc \<longleftrightarrow> own a = Some HeldWorker \<and> (\<exists>fr. frames h a = Some fr \<and> pc = WLockReceive fr)"
| "worker_held own h (HPush a) pc \<longleftrightarrow> own a = Some HeldWorker \<and> (\<exists>fr. frames h a = Some fr \<and> pc = WPush fr)"
| "worker_held own h HSignal pc \<longleftrightarrow> pc = WSignal"
| "worker_held own h HUnlockReceive pc \<longleftrightarrow> pc = WUnlockReceive"
| "worker_held own h HReadPipe pc \<longleftrightarrow> pc = WReadPipe"
| "worker_held own h HLockSend pc \<longleftrightarrow> pc = WLockSend"
| "worker_held own h HPop pc \<longleftrightarrow> pc = WPop"
| "worker_held own h (HUnlockSend a) pc \<longleftrightarrow> a = NULL \<and> pc = WUnlockSend None \<or>
     own a = Some HeldWorker \<and> sendable h a \<and> pc = WUnlockSend (frames h a)"
| "worker_held own h (HWrite a) pc \<longleftrightarrow> a = NULL \<and> pc = WWrite None \<or>
     own a = Some HeldWorker \<and> sendable h a \<and> pc = WWrite (frames h a)"

definition send_held :: "(addr \<rightharpoonup> holder) \<Rightarrow> heap \<Rightarrow> addr list \<Rightarrow> conbee_frame list \<Rightarrow> bool" where
  "send_held own h cs frs \<longleftrightarrow> distinct cs \<and> (\<forall>c\<in>set cs. own c = Some HeldSend \<and> sendable h c) \<and>
     map (frames h) cs = map Some frs"

definition receive_held :: "(addr \<rightharpoonup> holder) \<Rightarrow> heap \<Rightarrow> addr list \<Rightarrow> conbee_frame list \<Rightarrow> bool" where
  "receive_held own h ds frs \<longleftrightarrow> distinct ds \<and> (\<forall>d\<in>set ds. own d = Some HeldReceive) \<and>
     map (frames h) ds = map Some frs"

text \<open>
  The items of the two queues; \<open>prev\<close> is what the first item of the receive queue has as its
  predecessor: nothing, or an item that has been deleted.
\<close>

definition links :: "heap \<Rightarrow> conbee_queue_root \<Rightarrow> conbee_queue_root \<Rightarrow> addr list \<Rightarrow> addr list \<Rightarrow> addr \<Rightarrow> addr list \<Rightarrow> addr list \<Rightarrow> bool" where
  "links h sq rq as cs prev bs ds \<longleftrightarrow> queue_at h sq as cs \<and> queue_at h rq bs ds \<and> set as \<inter> set bs = {} \<and>
     linked (items h) prev (head rq) bs \<and> (prev \<noteq> NULL \<longrightarrow> items h prev = None \<and> prev < brk h)"

definition simulates ::
  "(addr \<rightharpoonup> holder) \<Rightarrow> addr list \<Rightarrow> addr list \<Rightarrow> addr \<Rightarrow> addr list \<Rightarrow> addr list \<Rightarrow> hsystem \<Rightarrow> system \<Rightarrow> bool" where
  "simulates own as cs prev bs ds s t \<longleftrightarrow> good_heap (hmem s) \<and> links (hmem s) (hsendq s) (hrecvq s) as cs prev bs ds \<and>
     send_held own (hmem s) cs (sendq t) \<and> receive_held own (hmem s) ds (recvq t) \<and>
     worker_held own (hmem s) (hwpc s) (wpc t) \<and>
     (\<forall>i. same_caller (hcallers s i) (callers t i) \<and> request_held own (hmem s) i (hcallers s i) (callers t i) \<and>
        found_held own (hmem s) i (hcallers s i) (callers t i)) \<and>
     howner s = owner t \<and> next_sequence (dev (hworld s)) = sequence t \<and> length (pipe_data (hworld s)) = pipe_bytes t"

definition sim :: "hsystem \<Rightarrow> system \<Rightarrow> bool" where
  "sim s t \<longleftrightarrow> (\<exists>own as cs prev bs ds. simulates own as cs prev bs ds s t)"

text \<open>From one heap to another, the frames of the holders in \<open>H\<close> stay with them and stay as they are.\<close>

definition kept :: "holder set \<Rightarrow> (addr \<rightharpoonup> holder) \<Rightarrow> heap \<Rightarrow> (addr \<rightharpoonup> holder) \<Rightarrow> heap \<Rightarrow> bool" where
  "kept H own h own' h' \<longleftrightarrow> (\<forall>a x fr. own a = Some x \<longrightarrow> x \<in> H \<longrightarrow> frames h a = Some fr \<longrightarrow>
     own' a = Some x \<and> frames h' a = Some fr \<and> (payload fr \<noteq> NULL \<longrightarrow> blocks h' (payload fr) = blocks h (payload fr)))"

lemma keptD:
  "kept H own h own' h' \<Longrightarrow> own a = Some x \<Longrightarrow> x \<in> H \<Longrightarrow> frames h a = Some fr \<Longrightarrow> own' a = Some x \<and> frames h' a = Some fr"
  by (simp add: kept_def)

lemma sendable_cong: "frames h' = frames h \<Longrightarrow> blocks h' = blocks h \<Longrightarrow> sendable h' a = sendable h a"
  by (simp only: sendable_def frame_is_def)

lemma kept_sendable:
  "kept H own h own' h' \<Longrightarrow> own a = Some x \<Longrightarrow> x \<in> H \<Longrightarrow> sendable h a \<Longrightarrow> sendable h' a"
  unfolding sendable_def frame_is_def kept_def by metis

lemma sendable_frame: "sendable h a \<Longrightarrow> \<exists>fr. frames h a = Some fr"
  by (auto simp: sendable_def frame_is_def)

lemma request_held_kept:
  "request_held own h i c a \<Longrightarrow> kept H own h own' h' \<Longrightarrow> HeldCaller i \<in> H \<Longrightarrow> request_held own' h' i c a"
  unfolding request_held_def using keptD kept_sendable by metis

lemma found_held_kept:
  "found_held own h i c a \<Longrightarrow> kept H own h own' h' \<Longrightarrow> HeldFound i \<in> H \<Longrightarrow> found_held own' h' i c a"
  unfolding found_held_def using keptD [of H own h own' h'] by (cases "cfound a") auto

lemma kept_frames: "kept H own h own' h' \<Longrightarrow> own a = Some x \<Longrightarrow> x \<in> H \<Longrightarrow> sendable h a \<Longrightarrow> frames h' a = frames h a"
  using sendable_frame keptD by metis

lemma worker_held_kept:
  assumes "worker_held own h pc wp" "kept H own h own' h'" "HeldWorker \<in> H"
  shows "worker_held own' h' pc wp"
proof -
  have frame: "own' a = Some HeldWorker \<and> frames h' a = Some fr" if "own a = Some HeldWorker" "frames h a = Some fr" for a fr
    using keptD [OF assms(2) that(1) assms(3) that(2)] .
  have sendable: "own' a = Some HeldWorker \<and> sendable h' a \<and> frames h' a = frames h a" if "own a = Some HeldWorker" "sendable h a" for a
    using that frame kept_sendable [OF assms(2) _ assms(3)] sendable_frame by metis
  show ?thesis
    using assms(1) by (cases pc) (auto simp: frame sendable)
qed

lemma kept_map:
  assumes "kept H own h own' h'" "x \<in> H"
  shows "map (frames h) cs = map Some frs \<Longrightarrow> \<forall>c\<in>set cs. own c = Some x \<Longrightarrow>
    map (frames h') cs = map Some frs \<and> (\<forall>c\<in>set cs. own' c = Some x)"
proof (induction cs arbitrary: frs)
  case Nil
  then show ?case by simp
next
  case (Cons c cs)
  then obtain fr frs' where "frs = fr # frs'" "frames h c = Some fr" by (cases frs) auto
  then show ?case using Cons keptD [OF assms(1) _ assms(2), of c fr] by simp
qed

lemma send_held_kept:
  "send_held own h cs frs \<Longrightarrow> kept H own h own' h' \<Longrightarrow> HeldSend \<in> H \<Longrightarrow> send_held own' h' cs frs"
  unfolding send_held_def using kept_map [of H own h own' h' HeldSend cs frs] kept_sendable by metis

lemma receive_held_kept:
  "receive_held own h cs frs \<Longrightarrow> kept H own h own' h' \<Longrightarrow> HeldReceive \<in> H \<Longrightarrow> receive_held own' h' cs frs"
  unfolding receive_held_def using kept_map [of H own h own' h' HeldReceive cs frs] by metis

subsection \<open>The operations on the two queues\<close>

lemma links_cong: "links h sq rq as cs prev bs ds \<Longrightarrow> items h' = items h \<Longrightarrow> brk h \<le> brk h' \<Longrightarrow> links h' sq rq as cs prev bs ds"
  by (auto simp: links_def queue_at_def)

lemma queue_push_no_memory: "avail h = 0 \<Longrightarrow> conbee_queue_push h q c = Inl NullDeref"
  by (simp add: conbee_queue_push_def malloc_def set_contents_def set_item_field_def item_field_def)

lemma linked_items_only:
  "linked (items h) prev p bs \<Longrightarrow> items_only S h h' \<Longrightarrow> S \<inter> set bs = {} \<Longrightarrow> linked (items h') prev p bs"
  unfolding items_only_def by (metis linked_cong disjoint_iff)

lemma items_only_good: "items_only S h h' \<Longrightarrow> good_heap h \<Longrightarrow> heap_ok h' \<Longrightarrow> good_heap h'"
  using items_only_roomy items_only_payloads by (auto simp: good_heap_def)

lemma queue_at_dom: "queue_at h q as cs \<Longrightarrow> set as \<subseteq> dom (items h)"
  using queue_at_live(2) by blast

text \<open>An item that has been deleted is not brought back.\<close>

lemma items_only_dead:
  assumes "items_only S h h'" "S \<subseteq> insert (brk h) (dom (items h))" "brk h \<le> brk h'"
    and "prev \<noteq> NULL \<longrightarrow> items h prev = None \<and> prev < brk h"
  shows "prev \<noteq> NULL \<longrightarrow> items h' prev = None \<and> prev < brk h'"
proof
  assume "prev \<noteq> NULL"
  then have p: "items h prev = None" "prev < brk h" using assms(4) by simp_all
  then have "prev \<notin> S" using assms(2) by auto
  then show "items h' prev = None \<and> prev < brk h'" using p assms(1,3) by (simp add: items_only_def)
qed

lemma links_push_send:
  assumes l: "links h sq rq as cs prev bs ds" and good: "good_heap h" and av: "0 < avail h"
  obtains h' q' where "conbee_queue_push h sq c = Inr (h', q')" "links h' q' rq (as @ [brk h]) (cs @ [c]) prev bs ds"
    "good_heap h'" "frames h' = frames h" "blocks h' = blocks h"
proof -
  have ok: "roomy h" "heap_ok h" using good by (simp_all add: good_heap_def)
  note lk = l [unfolded links_def]
  have q: "queue_at h sq as cs" using lk by simp
  obtain h' q' where push: "conbee_queue_push h sq c = Inr (h', q')" "queue_at h' q' (as @ [brk h]) (cs @ [c])" "heap_ok h'"
    "items_only (insert (brk h) (set as)) h h'" "brk h' = Suc (brk h)"
    using conbee_queue_push_ok [OF ok(1) av ok(2) q, of c] by metis
  have fresh: "brk h \<notin> set bs" using lk queue_at_fresh ok(2) by blast
  then have out: "insert (brk h) (set as) \<inter> set bs = {}" using lk by auto
  have "prev \<noteq> NULL \<longrightarrow> items h' prev = None \<and> prev < brk h'"
    by (rule items_only_dead [OF push(4)]) (use lk push(5) queue_at_dom [OF q] in auto)
  moreover have "queue_at h' rq bs ds" using lk queue_at_items_only [OF _ push(4) out] by blast
  moreover have "linked (items h') prev (head rq) bs" using lk linked_items_only [OF _ push(4) out] by blast
  ultimately have "links h' q' rq (as @ [brk h]) (cs @ [c]) prev bs ds"
    using push(2) out lk by (auto simp: links_def)
  then show ?thesis
    using that push(1,4) items_only_good [OF push(4) good push(3)] by (simp add: items_only_def)
qed

lemma links_push_receive:
  assumes l: "links h sq rq as cs prev bs ds" and good: "good_heap h" and av: "0 < avail h"
  obtains h' q' prev' where "conbee_queue_push h rq d = Inr (h', q')" "links h' sq q' as cs prev' (bs @ [brk h]) (ds @ [d])"
    "good_heap h'" "frames h' = frames h" "blocks h' = blocks h" "prev' = (if bs = [] then NULL else prev)"
proof -
  have ok: "roomy h" "heap_ok h" using good by (simp_all add: good_heap_def)
  note lk = l [unfolded links_def]
  have q: "queue_at h rq bs ds" using lk by simp
  obtain h' q' where push: "conbee_queue_push h rq d = Inr (h', q')" "queue_at h' q' (bs @ [brk h]) (ds @ [d])" "heap_ok h'"
    "items_only (insert (brk h) (set bs)) h h'" "brk h' = Suc (brk h)"
    using conbee_queue_push_ok [OF ok(1) av ok(2) q, of d] by metis
  have fresh: "brk h \<notin> set as" using lk queue_at_fresh ok(2) by blast
  then have out: "insert (brk h) (set bs) \<inter> set as = {}" using lk by auto
  have "queue_at h' sq as cs" using lk queue_at_items_only [OF _ push(4) out] by blast
  moreover have "linked (items h') (if bs = [] then NULL else prev) (head q') (bs @ [brk h])"
    using conbee_queue_push_linked_from [OF ok(1) av ok(2) q _ _ push(1), of prev]
      conbee_queue_push_linked [OF ok(1) av ok(2) q _ push(1)] lk by (auto simp: linked_at_def)
  moreover have "prev \<noteq> NULL \<longrightarrow> items h' prev = None \<and> prev < brk h'"
    by (rule items_only_dead [OF push(4)]) (use lk push(5) queue_at_dom [OF q] in auto)
  ultimately have "links h' sq q' as cs (if bs = [] then NULL else prev) (bs @ [brk h]) (ds @ [d])"
    using push(2) out by (auto simp: links_def)
  then show ?thesis
    using that push(1,4) items_only_good [OF push(4) good push(3)] by (simp add: items_only_def)
qed

lemma links_pop_send:
  assumes l: "links h sq rq (a # as) (c # cs) prev bs ds" and good: "good_heap h"
  obtains h' q' where "conbee_queue_pop h sq = Inr (c, h', q')" "links h' q' rq as cs prev bs ds"
    "good_heap h'" "frames h' = frames h" "blocks h' = blocks h"
proof -
  have ok: "roomy h" "heap_ok h" using good by (simp_all add: good_heap_def)
  note lk = l [unfolded links_def]
  obtain h' q' where pop: "conbee_queue_pop h sq = Inr (c, h', q')" "queue_at h' q' as cs" "heap_ok h'"
    "items_only {a} h h'" "brk h' = brk h"
    using conbee_queue_pop_ok [OF ok, of sq a as c cs] lk by metis
  have out: "{a} \<inter> set bs = {}" using lk by auto
  have "prev \<noteq> NULL \<longrightarrow> items h' prev = None \<and> prev < brk h'"
    by (rule items_only_dead [OF pop(4)]) (use lk pop(5) queue_at_dom [of h sq "a # as"] in auto)
  moreover have "queue_at h' rq bs ds" using lk queue_at_items_only [OF _ pop(4) out] by blast
  moreover have "linked (items h') prev (head rq) bs" using lk linked_items_only [OF _ pop(4) out] by blast
  ultimately have "links h' q' rq as cs prev bs ds" using pop(2) lk by (auto simp: links_def)
  then show ?thesis
    using that pop(1,4) items_only_good [OF pop(4) good pop(3)] by (simp add: items_only_def)
qed

lemma links_delete_head:
  assumes l: "links h sq rq as cs NULL (b # bs) (d # ds)" and good: "good_heap h"
  obtains h' q' where "conbee_queue_delete h rq b = Inr (h', q')" "links h' sq q' as cs b bs ds"
    "good_heap h'" "frames h' = frames h" "blocks h' = blocks h"
proof -
  have ok: "roomy h" "heap_ok h" using good by (simp_all add: good_heap_def)
  note lk = l [unfolded links_def]
  obtain it where it: "items h b = Some it" "previous_item it = NULL" "linked (items h) b (next_item it) bs" "b \<noteq> NULL"
    using lk by auto
  have q: "queue_at h rq (b # bs) (d # ds)" and dist: "b \<notin> set bs" "b \<notin> set as" using lk by (auto simp: queue_at_def)
  let ?h = "h\<lparr>items := (items h)(b := None), avail := Suc (avail h)\<rparr>" and ?q = "rq\<lparr>head := next_item it\<rparr>"
  note del = conbee_queue_delete_head_ok [OF ok q it(1,2)]
  have "linked (items ?h) b (head ?q) bs"
    using it(3) linked_cong [of bs "items h" "items ?h" b "next_item it"] dist(1) by (simp add: fun_upd_def) metis
  moreover have "queue_at ?h sq as cs"
    by (rule queue_at_items_only [where S = "{b}" and h = h]) (use lk in \<open>auto simp: items_only_def\<close>)
  ultimately have "links ?h sq ?q as cs b bs ds"
    using del(2) lk heap_ok_live(3) [OF ok(2) it(1)] by (auto simp: links_def)
  moreover have "good_heap ?h" using good heap_ok_free by (auto simp: good_heap_def payloads_ok_def)
  ultimately show ?thesis using that del(1) by simp
qed

lemma links_delete_stale:
  assumes "links h sq rq as cs prev (b # bs) ds" and "good_heap h" and "prev \<noteq> NULL"
  shows "conbee_queue_delete h rq b = Inl UseAfterFree"
  using assms conbee_queue_delete_stale by (auto simp: links_def good_heap_def)

subsection \<open>Holders after an operation\<close>

lemma kept_refl: "kept H own h own h"
  by (simp add: kept_def)

lemma kept_update: "own a = Some x \<Longrightarrow> kept (- {x}) own h own (h\<lparr>frames := (frames h)(a \<mapsto> fr)\<rparr>)"
  by (auto simp: kept_def)

lemma kept_give: "own a = Some x \<Longrightarrow> frames h' = frames h \<Longrightarrow> blocks h' = blocks h \<Longrightarrow> kept (- {x}) own h (own(a \<mapsto> y)) h'"
  by (auto simp: kept_def)

lemma kept_free:
  assumes "own a = Some x" "good_heap h" "frames h a = Some fr"
  shows "kept (- {x}) own h (own(a := None)) (without_frame h a (payload fr))"
proof -
  have "payload f \<noteq> payload fr" if "b \<noteq> a" "frames h b = Some f" "payload f \<noteq> NULL" for b f
    using payloads_okD(2) [of h b f a fr] assms(2,3) that by (auto simp: good_heap_def)
  then show ?thesis using assms(1) by (auto simp: kept_def without_frame_def)
qed

lemma kept_new:
  assumes "good_heap h" "new_frame h fr h'"
  shows "kept UNIV own h (own(brk h \<mapsto> y)) h'"
proof -
  have ok: "heap_ok h" using assms(1) by (simp add: good_heap_def)
  have "b \<noteq> brk h \<and> (payload f \<noteq> NULL \<longrightarrow> payload f \<noteq> Suc (brk h))" if "frames h b = Some f" for b f
    using heap_ok_live(1) [OF ok that] payloads_okD(1) [of h b f] heap_ok_live(2) [OF ok, of "payload f"] that assms(1)
    by (auto simp: good_heap_def)
  then show ?thesis using assms(2) by (auto simp: kept_def new_frame_def)
qed

lemma kept_trans: "kept H own h own1 h1 \<Longrightarrow> kept H own1 h1 own2 h2 \<Longrightarrow> kept H own h own2 h2"
  unfolding kept_def by metis

lemma kept_mono: "kept H own h own' h' \<Longrightarrow> G \<subseteq> H \<Longrightarrow> kept G own h own' h'"
  by (auto simp: kept_def)

text \<open>A frame with the same lengths and the same payload is as good to send.\<close>

lemma sendable_update:
  "sendable h a \<Longrightarrow> frames h a = Some fr \<Longrightarrow> payload fr' = payload fr \<Longrightarrow> payload_length fr' = payload_length fr \<Longrightarrow>
   frame_length fr' = frame_length fr \<Longrightarrow> sendable (h\<lparr>frames := (frames h)(a \<mapsto> fr')\<rparr>) a"
  by (auto simp: sendable_def frame_is_def)

subsection \<open>Steps that leave the heap alone\<close>

lemma simulates_hlock: "simulates own as cs prev bs ds s t \<Longrightarrow> simulates own as cs prev bs ds (hlock m th s) (lock_mutex m th t)"
  by (simp add: simulates_def hlock_def lock_mutex_def)

lemma simulates_hunlock: "simulates own as cs prev bs ds s t \<Longrightarrow> simulates own as cs prev bs ds (hunlock m s) (unlock_mutex m t)"
  by (simp add: simulates_def hunlock_def unlock_mutex_def)

lemma simulates_hgoto:
  "simulates own as cs prev bs ds s t \<Longrightarrow> has_request pc \<longrightarrow> has_request (hpc (hcallers s i)) \<Longrightarrow>
   simulates own as cs prev bs ds (hgoto i pc s) (goto i pc t)"
  by (auto simp: simulates_def hgoto_def goto_def same_caller_def request_held_def found_held_def simp del: has_request.simps)

lemma simulates_hwpc:
  "simulates own as cs prev bs ds s t \<Longrightarrow> worker_held own (hmem s) pc wp \<Longrightarrow>
   simulates own as cs prev bs ds (s\<lparr>hwpc := pc\<rparr>) (t\<lparr>wpc := wp\<rparr>)"
  by (simp add: simulates_def)

lemma simulatesD:
  assumes "simulates own as cs prev bs ds s t"
  shows "good_heap (hmem s)" and "links (hmem s) (hsendq s) (hrecvq s) as cs prev bs ds"
    and "send_held own (hmem s) cs (sendq t)" and "receive_held own (hmem s) ds (recvq t)"
    and "worker_held own (hmem s) (hwpc s) (wpc t)" and "hpc (hcallers s i) = cpc (callers t i)"
    and "hseq (hcallers s i) = cseq (callers t i)" and "hcmd (hcallers s i) = ccmd (callers t i)"
    and "request_held own (hmem s) i (hcallers s i) (callers t i)" and "found_held own (hmem s) i (hcallers s i) (callers t i)"
    and "howner s = owner t" and "next_sequence (dev (hworld s)) = sequence t" and "length (pipe_data (hworld s)) = pipe_bytes t"
  using assms by (simp_all add: simulates_def same_caller_def)

text \<open>
  What a step from a simulated state may lead to. Once the predecessor of the first item of the receive queue has been
  deleted, that item stays; and it has been deleted as soon as the queue has lost its first item and is not empty.
\<close>

definition follows :: "addr \<Rightarrow> addr list \<Rightarrow> hsystem \<Rightarrow> system \<Rightarrow> bool" where
  "follows prev bs s t \<longleftrightarrow> (\<exists>own as cs prev' bs' ds. simulates own as cs prev' bs' ds s t \<and>
     (prev \<noteq> NULL \<and> bs \<noteq> [] \<longrightarrow> prev' = prev \<and> bs' \<noteq> []) \<and>
     (prev' \<noteq> NULL \<and> bs' \<noteq> [] \<longleftrightarrow> (if length bs' < length bs then bs' \<noteq> [] else prev \<noteq> NULL \<and> bs \<noteq> [])))"

lemma followsI: "simulates own as cs prev bs ds s t \<Longrightarrow> follows prev bs s t"
  unfolding follows_def by (intro exI conjI) (assumption, simp_all)

lemma followsI':
  "simulates own as cs prev' bs' ds s t \<Longrightarrow> (prev \<noteq> NULL \<Longrightarrow> bs \<noteq> [] \<Longrightarrow> prev' = prev \<and> bs' \<noteq> []) \<Longrightarrow>
   (prev' \<noteq> NULL \<and> bs' \<noteq> [] \<longleftrightarrow> (if length bs' < length bs then bs' \<noteq> [] else prev \<noteq> NULL \<and> bs \<noteq> [])) \<Longrightarrow> follows prev bs s t"
  unfolding follows_def by blast

subsection \<open>Steps of a caller on the heap\<close>

text \<open>Caller \<open>i\<close> has moved, the frames of the other callers are kept.\<close>

lemma simulatesI:
  assumes sim: "simulates own as cs prev bs ds s t" and k: "kept H own (hmem s) own' (hmem s')"
    and "\<And>j. j \<noteq> i \<Longrightarrow> HeldCaller j \<in> H \<and> HeldFound j \<in> H"
    and "\<And>j. j \<noteq> i \<Longrightarrow> hcallers s' j = hcallers s j \<and> callers t' j = callers t j"
    and "same_caller (hcallers s' i) (callers t' i)" and "request_held own' (hmem s') i (hcallers s' i) (callers t' i)"
    and "found_held own' (hmem s') i (hcallers s' i) (callers t' i)"
    and "good_heap (hmem s')" and "links (hmem s') (hsendq s') (hrecvq s') as' cs' prev' bs' ds'"
    and "send_held own' (hmem s') cs' (sendq t')" and "receive_held own' (hmem s') ds' (recvq t')"
    and "worker_held own' (hmem s') (hwpc s') (wpc t')" and "howner s' = owner t'"
    and "next_sequence (dev (hworld s')) = sequence t'" and "length (pipe_data (hworld s')) = pipe_bytes t'"
  shows "simulates own' as' cs' prev' bs' ds' s' t'"
proof -
  have "same_caller (hcallers s' j) (callers t' j) \<and> request_held own' (hmem s') j (hcallers s' j) (callers t' j) \<and>
      found_held own' (hmem s') j (hcallers s' j) (callers t' j)" for j
  proof (cases "j = i")
    case True
    then show ?thesis using assms by simp
  next
    case False
    then show ?thesis
      using assms(3,4) [OF False] simulatesD(6-8) [OF sim, of j] request_held_kept [OF simulatesD(9) [OF sim] k]
        found_held_kept [OF simulatesD(10) [OF sim] k] by (simp add: same_caller_def)
  qed
  then show ?thesis using assms by (simp add: simulates_def)
qed

text \<open>The same when no caller has moved and all frames of callers are kept.\<close>

lemma simulatesI_worker:
  assumes sim: "simulates own as cs prev bs ds s t" and k: "kept H own (hmem s) own' (hmem s')"
    and "\<And>j. HeldCaller j \<in> H \<and> HeldFound j \<in> H" and "hcallers s' = hcallers s" "callers t' = callers t"
    and "good_heap (hmem s')" and "links (hmem s') (hsendq s') (hrecvq s') as' cs' prev' bs' ds'"
    and "send_held own' (hmem s') cs' (sendq t')" and "receive_held own' (hmem s') ds' (recvq t')"
    and "worker_held own' (hmem s') (hwpc s') (wpc t')" and "howner s' = owner t'"
    and "next_sequence (dev (hworld s')) = sequence t'" and "length (pipe_data (hworld s')) = pipe_bytes t'"
  shows "simulates own' as' cs' prev' bs' ds' s' t'"
  by (rule simulatesI [OF sim k, where i = 0])
    (use assms(3-) simulatesD(6-8) [OF sim, of 0] request_held_kept [OF simulatesD(9) [OF sim] k, of 0]
       found_held_kept [OF simulatesD(10) [OF sim] k, of 0] in \<open>simp_all add: same_caller_def\<close>)

lemma stamp_simulated:
  assumes sim: "simulates own as cs prev bs ds s t" and pc: "hpc (hcallers s i) = CStamp"
  obtains s' where "stamp_request i s = Inr s'"
    "simulates own as cs prev bs ds s' (goto i CLockSend (upd_caller i (\<lambda>c. c\<lparr>cframe := (cframe c)\<lparr>sequence_number := cseq c\<rparr>\<rparr>) t))"
proof -
  note S = simulatesD [OF sim]
  let ?a = "hframe (hcallers s i)" and ?h = "hmem s"
  let ?fr = "(cframe (callers t i))\<lparr>sequence_number := cseq (callers t i)\<rparr>"
  have a: "own ?a = Some (HeldCaller i)" "frames ?h ?a = Some (cframe (callers t i))" "sendable ?h ?a"
    using S(9) [of i] pc by (simp_all add: request_held_def)
  have "?a \<noteq> NULL" using a(3) by (auto simp: sendable_def frame_is_def)
  let ?h' = "?h\<lparr>frames := (frames ?h)(?a \<mapsto> ?fr)\<rparr>"
  have step: "stamp_request i s = Inr (hgoto i CLockSend (set_mem ?h' s))"
    using a(2) \<open>?a \<noteq> NULL\<close> S(7) by (simp add: stamp_request_def update_frame_def)
  have k: "kept (- {HeldCaller i}) own ?h own ?h'" using a(1) by (rule kept_update)
  have good: "good_heap ?h'"
    using S(1) a(2) by (simp add: good_heap_def heap_ok_update_frame payloads_ok_update)
  have "sendable ?h' ?a" by (rule sendable_update [OF a(3,2)]) simp_all
  then have "simulates own as cs prev bs ds (hgoto i CLockSend (set_mem ?h' s))
      (goto i CLockSend (upd_caller i (\<lambda>c. c\<lparr>cframe := (cframe c)\<lparr>sequence_number := cseq c\<rparr>\<rparr>) t))"
    by (intro simulatesI [OF sim, where i = i and H = "- {HeldCaller i}"])
      (use S(6-8) [of i] S(11-13) a good k send_held_kept [OF S(3) k] receive_held_kept [OF S(4) k] worker_held_kept [OF S(5) k]
        found_held_kept [OF S(10) [of i] k] links_cong [OF S(2), of ?h']
        in \<open>simp_all add: hstate_ops state_ops same_caller_def request_held_def found_held_def\<close>)
  then show ?thesis using that step by blast
qed

lemma push_simulated:
  assumes sim: "simulates own as cs prev bs ds s t" and pc: "hpc (hcallers s i) = CPush"
  shows "if avail (hmem s) = 0 then push_request i s = Inl NullDeref
    else \<exists>s'. push_request i s = Inr s' \<and> follows prev bs s' (goto i CUnlockSend (t\<lparr>sendq := sendq t @ [cframe (callers t i)],
      pushed := pushed t @ [cframe (callers t i)]\<rparr>))"
proof (cases "avail (hmem s) = 0")
  case True
  then show ?thesis by (simp add: push_request_def queue_push_no_memory)
next
  case False
  note S = simulatesD [OF sim]
  let ?a = "hframe (hcallers s i)" and ?t' = "goto i CUnlockSend (t\<lparr>sendq := sendq t @ [cframe (callers t i)],
      pushed := pushed t @ [cframe (callers t i)]\<rparr>)"
  have a: "own ?a = Some (HeldCaller i)" "frames (hmem s) ?a = Some (cframe (callers t i))" "sendable (hmem s) ?a"
    using S(9) [of i] pc by (simp_all add: request_held_def)
  obtain h' q' where push: "conbee_queue_push (hmem s) (hsendq s) ?a = Inr (h', q')"
    "links h' q' (hrecvq s) (as @ [brk (hmem s)]) (cs @ [?a]) prev bs ds" "good_heap h'" "frames h' = frames (hmem s)" "blocks h' = blocks (hmem s)"
    by (rule links_push_send [OF S(2,1)]) (use False in auto)
  let ?own = "own(?a \<mapsto> HeldSend)"
  have k: "kept (- {HeldCaller i}) own (hmem s) ?own h'" using a(1) push(4,5) by (rule kept_give)
  have "?a \<notin> set cs" using S(3) a(1) by (auto simp: send_held_def)
  moreover have "sendable h' ?a" using a(3) sendable_cong [OF push(4,5)] by simp
  ultimately have "send_held ?own h' (cs @ [?a]) (sendq t @ [cframe (callers t i)])"
    using send_held_kept [OF S(3) k] a(2) push(4) by (simp add: send_held_def)
  then have "simulates ?own (as @ [brk (hmem s)]) (cs @ [?a]) prev bs ds (hgoto i CUnlockSend (set_send h' q' s)) ?t'"
    by (intro simulatesI [OF sim, where i = i and H = "- {HeldCaller i}"])
      (use S(6-8) [of i] S(11-13) k push receive_held_kept [OF S(4) k] worker_held_kept [OF S(5) k] found_held_kept [OF S(10) [of i] k]
        in \<open>simp_all add: hstate_ops state_ops same_caller_def request_held_def found_held_def\<close>)
  then show ?thesis using False push(1) by (auto simp: push_request_def intro: followsI)
qed

text \<open>The three ways in which a look at the receive queue can end, and the fourth, which is undefined.\<close>

lemma scan_simulated:
  assumes sim: "simulates own as cs prev bs ds s t" and pc: "hpc (hcallers s i) = CScan"
  shows "(\<exists>s' t'. scan_head i s = Inr s' \<and> caller_step i t t' \<and> follows prev bs s' t') \<or>
    scan_head i s = Inl UseAfterFree \<and> prev \<noteq> NULL \<and> bs \<noteq> []"
proof (cases bs)
  case Nil
  note S = simulatesD [OF sim]
  have "head (hrecvq s) = NULL" "ds = []" using S(2) Nil by (cases ds; auto simp: links_def queue_at_def)+
  moreover from this have "recvq t = []" using S(4) by (simp add: receive_held_def)
  moreover have "cpc (callers t i) = CScan" using S(6) [of i] pc by simp
  ultimately show ?thesis
    using scan_empty [of t i] simulates_hgoto [OF sim, of CUnlockReceive i]
    by (auto simp: scan_head_def intro!: followsI)
next
  case (Cons b bs')
  note S = simulatesD [OF sim] and lk = simulatesD(2) [OF sim, unfolded links_def Cons]
  have tpc: "cpc (callers t i) = CScan" using S(6) [of i] pc by simp
  obtain d ds' where ds: "ds = d # ds'" using lk by (cases ds) (auto simp: queue_at_def)
  then obtain fr rest where fr: "recvq t = fr # rest" "frames (hmem s) d = Some fr" "own d = Some HeldReceive"
    using S(4) by (cases "recvq t") (auto simp: receive_held_def)
  obtain it where it: "head (hrecvq s) = b" "b \<noteq> NULL" "items (hmem s) b = Some it" "contents it = d"
    using lk ds by (auto simp: queue_at_def)
  have ok: "roomy (hmem s)" "heap_ok (hmem s)" using S(1) by (simp_all add: good_heap_def)
  have "d \<noteq> NULL" using heap_ok_live(1) [OF ok(2) fr(2)] by simp
  then have scan: "scan_head i s = (if wanted (hseq (hcallers s i)) (hcmd (hcallers s i)) fr
      then bindE (conbee_queue_delete (hmem s) (hrecvq s) b) (\<lambda>(h, q).
           Inr (hgoto i CUnlockReceive (hupd i (\<lambda>c. c\<lparr>hfound := Some d\<rparr>) (set_receive h q s)))) else Inr s)"
    using it fr(2) ok(1) by (simp add: scan_head_def)
  show ?thesis
  proof (cases "wanted (cseq (callers t i)) (ccmd (callers t i)) fr")
    case False
    then have "scan_head i s = Inr s" using scan S(7,8) by simp
    then show ?thesis using scan_again [OF tpc fr(1) False] followsI [OF sim] by blast
  next
    case True
    note found = scan_found [OF tpc fr(1) True]
    show ?thesis
    proof (cases "prev = NULL")
      case False
      then have "conbee_queue_delete (hmem s) (hrecvq s) b = Inl UseAfterFree"
        using links_delete_stale S(1,2) Cons by blast
      then show ?thesis using False True scan S(7,8) Cons by simp
    next
      case null: True
      obtain h' q' where del: "conbee_queue_delete (hmem s) (hrecvq s) b = Inr (h', q')" "links h' (hsendq s) q' as cs b bs' ds'"
        "good_heap h'" "frames h' = frames (hmem s)" "blocks h' = blocks (hmem s)"
        by (rule links_delete_head [OF S(2) [unfolded Cons ds null] S(1)])
      let ?own = "own(d \<mapsto> HeldFound i)"
      let ?s' = "hgoto i CUnlockReceive (hupd i (\<lambda>c. c\<lparr>hfound := Some d\<rparr>) (set_receive h' q' s))"
      let ?t' = "goto i CUnlockReceive (upd_caller i (\<lambda>c. c\<lparr>cfound := Some fr\<rparr>) (t\<lparr>recvq := rest\<rparr>))"
      have k: "kept (- {HeldReceive}) own (hmem s) ?own h'" using fr(3) del(4,5) by (rule kept_give)
      have "d \<notin> set ds'" "receive_held own (hmem s) ds' rest" using S(4) ds fr(1) by (auto simp: receive_held_def)
      then have "receive_held ?own h' ds' rest" using del(4) by (auto simp: receive_held_def)
      then have "simulates ?own as cs b bs' ds' ?s' ?t'"
        by (intro simulatesI [OF sim, where i = i and H = "- {HeldReceive}"])
          (use S(6-8) [of i] S(11-13) k del fr send_held_kept [OF S(3) k] worker_held_kept [OF S(5) k]
            in \<open>simp_all add: hstate_ops state_ops same_caller_def request_held_def found_held_def\<close>)
      then have "follows prev bs ?s' ?t'" by (rule followsI') (simp_all add: null Cons it(2))
      moreover have "scan_head i s = Inr ?s'" using True scan del(1) S(7,8) by simp
      ultimately show ?thesis using found by blast
    qed
  qed
qed

lemma next_simulated:
  assumes sim: "simulates own as cs prev bs ds s t" and "request_fits req"
  shows "(\<exists>s' fr. next_exchange i keep req cmd s = Inr s' \<and> (req = ReadFirmware \<longrightarrow> fr = request_header req) \<and> follows prev bs s'
      (upd_caller i (\<lambda>c. \<lparr>cpc = CLockSequence, cframe = fr, cseq = cseq c, ccmd = cmd, cfound = None\<rparr>) t)) \<or>
    (\<exists>e. next_exchange i keep req cmd s = Inl e \<and> avail (hmem s) < 2)"
proof -
  note S = simulatesD [OF sim]
  let ?free = "case hfound (hcallers s i) of None \<Rightarrow> Inr (hmem s) | Some f \<Rightarrow> if keep then Inr (hmem s) else conbee_free_frame (hmem s) f"
  obtain own1 h1 where h1: "?free = Inr h1" "kept (- {HeldFound i}) own (hmem s) own1 h1" "good_heap h1" "items h1 = items (hmem s)"
    "brk h1 = brk (hmem s)" "avail (hmem s) \<le> avail h1"
  proof (cases "hfound (hcallers s i)")
    case None
    then show ?thesis using that [of "hmem s" own] S(1) by (simp add: kept_refl)
  next
    case (Some f)
    then obtain fr where f: "own f = Some (HeldFound i)" "frames (hmem s) f = Some fr"
      using S(10) [of i] by (auto simp: found_held_def)
    note free = good_free [OF S(1) f(2)]
    show ?thesis
    proof (cases keep)
      case True
      then show ?thesis using that [of "hmem s" own] S(1) Some by (simp add: kept_refl)
    next
      case False
      then show ?thesis
        using that [of "without_frame (hmem s) f (payload fr)" "own(f := None)"] Some free kept_free [where own = own and a = f, OF f(1) S(1) f(2)] by simp
    qed
  qed
  have ok: "heap_ok h1" using h1(3) by (simp add: good_heap_def)
  let ?next = "\<lambda>(frame, h). Inr (hupd i (\<lambda>c. \<lparr>hpc = CLockSequence, hframe = frame, hseq = hseq c, hcmd = cmd, hfound = None\<rparr>) (set_mem h s))
      :: ub + hsystem"
  have eq: "next_exchange i keep req cmd s = bindE (build_request req h1) ?next"
    unfolding next_exchange_def h1(1) by simp
  show ?thesis
  proof (cases "build_request req h1")
    case (Inl e)
    then have "avail h1 < 2" using build_request_eq [OF _ ok assms(2)] by (cases "2 \<le> avail h1") auto
    then show ?thesis using eq Inl h1(6) by simp
  next
    case (Inr r)
    then have r: "r = (brk h1, request_heap req h1)" using build_request_new [OF ok assms(2)] by (cases r) auto
    let ?fr = "(request_header req)\<lparr>payload := request_pointer req h1\<rparr>" and ?h = "request_heap req h1"
    let ?own = "own1(brk h1 \<mapsto> HeldCaller i)"
    let ?s' = "hupd i (\<lambda>c. \<lparr>hpc = CLockSequence, hframe = brk h1, hseq = hseq c, hcmd = cmd, hfound = None\<rparr>) (set_mem ?h s)"
    let ?t' = "upd_caller i (\<lambda>c. \<lparr>cpc = CLockSequence, cframe = ?fr, cseq = cseq c, ccmd = cmd, cfound = None\<rparr>) t"
    note new = request_heap_new [of h1 req]
    have "kept (- {HeldFound i}) own1 h1 ?own ?h" by (rule kept_mono [OF kept_new [OF h1(3) new]]) simp
    then have k: "kept (- {HeldFound i}) own (hmem s) ?own ?h" by (rule kept_trans [OF h1(2)])
    have "simulates ?own as cs prev bs ds ?s' ?t'"
      by (intro simulatesI [OF sim, where i = i and H = "- {HeldFound i}"])
        (use S(6-8) [of i] S(11-13) k new_frame_good [OF h1(3) new] new h1(4,5) send_held_kept [OF S(3) k] receive_held_kept [OF S(4) k]
          worker_held_kept [OF S(5) k] request_sendable [OF ok assms(2)] links_cong [OF S(2), of ?h]
          in \<open>simp_all add: hstate_ops state_ops same_caller_def request_held_def found_held_def new_frame_def\<close>)
    moreover have "req = ReadFirmware \<Longrightarrow> ?fr = request_header req" by (simp add: request_pointer_def request_frame_def)
    ultimately show ?thesis
      using eq Inr r by (intro disjI1 exI [of _ ?s'] exI [of _ ?fr]) (simp add: followsI)
  qed
qed

lemma caller_simulated:
  assumes sim: "simulates own as cs prev bs ds s t" and step: "hcaller_step i s r"
  shows "(\<exists>s' t'. r = Inr s' \<and> caller_step i t t' \<and> follows prev bs s' t') \<or>
    (\<exists>e. r = Inl e \<and> (avail (hmem s) < 2 \<or> e = UseAfterFree \<and> hpc (hcallers s i) = CScan \<and> prev \<noteq> NULL \<and> bs \<noteq> []))"
proof -
  note S = simulatesD [OF sim]
  have moved: "(\<exists>s' t'. Inr u = (Inr s' :: ub + hsystem) \<and> caller_step i t t' \<and> follows prev bs s' t') \<or>
      (\<exists>e. Inr u = (Inl e :: ub + hsystem) \<and> (avail (hmem s) < 2 \<or> e = UseAfterFree \<and> hpc (hcallers s i) = CScan \<and> prev \<noteq> NULL \<and> bs \<noteq> []))"
    if "caller_step i t v" "simulates own as cs prev bs ds u v" for u v
    by (intro disjI1 exI [of _ u] exI [of _ v]) (simp add: that(1) followsI [OF that(2)])
  note free = S(11) [THEN fun_cong] and pc = S(6) [of i, symmetric]
  from step show ?thesis
  proof cases
    case h_lock_sequence
    then have "cpc (callers t i) = CLockSequence" "owner t MutexSequence = None" using free pc by simp_all
    from lock_sequence [OF this] simulates_hgoto [OF simulates_hlock [OF sim]] show ?thesis
      unfolding h_lock_sequence(1) by (rule moved) (simp add: hlock_def h_lock_sequence(2))
  next
    case h_read_sequence
    then have "cpc (callers t i) = CReadSequence" using pc by simp
    from read_sequence [OF this] show ?thesis
      unfolding h_read_sequence(1)
      by (rule moved) (rule simulatesI [OF sim, where i = i and H = UNIV],
        use S S(6-8) [of i] S(9,10) [of i] h_read_sequence(2) in \<open>simp_all add: kept_refl hstate_ops state_ops same_caller_def request_held_def found_held_def\<close>)
  next
    case h_inc_sequence
    then have "cpc (callers t i) = CIncSequence" using pc by simp
    from inc_sequence [OF this] show ?thesis
      unfolding h_inc_sequence(1)
      by (rule moved) (rule simulatesI [OF sim, where i = i and H = UNIV],
        use S S(6-8) [of i] S(9,10) [of i] h_inc_sequence(2) in \<open>simp_all add: kept_refl hstate_ops state_ops same_caller_def request_held_def found_held_def\<close>)
  next
    case h_unlock_sequence
    then have "cpc (callers t i) = CUnlockSequence" using pc by simp
    from unlock_sequence [OF this] simulates_hgoto [OF simulates_hunlock [OF sim]] show ?thesis
      unfolding h_unlock_sequence(1) by (rule moved) (simp add: hlock_def hunlock_def h_unlock_sequence(2))
  next
    case h_stamp
    then have "cpc (callers t i) = CStamp" using pc by simp
    note st = stamp [OF this]
    obtain s' where "stamp_request i s = Inr s'"
      "simulates own as cs prev bs ds s' (goto i CLockSend (upd_caller i (\<lambda>c. c\<lparr>cframe := (cframe c)\<lparr>sequence_number := cseq c\<rparr>\<rparr>) t))"
      by (rule stamp_simulated [OF sim h_stamp(2)])
    then show ?thesis unfolding h_stamp(1) using moved [OF st] by simp
  next
    case h_lock_send
    then have "cpc (callers t i) = CLockSend" "owner t MutexSend = None" using free pc by simp_all
    from lock_send [OF this] simulates_hgoto [OF simulates_hlock [OF sim]] show ?thesis
      unfolding h_lock_send(1) by (rule moved) (simp add: hlock_def h_lock_send(2))
  next
    case h_push
    then have "cpc (callers t i) = CPush" using pc by simp
    from push [OF this] push_simulated [OF sim h_push(2)] show ?thesis
      unfolding h_push(1) by (auto split: if_splits)
  next
    case h_unlock_send
    then have "cpc (callers t i) = CUnlockSend" using pc by simp
    from unlock_send [OF this] simulates_hgoto [OF simulates_hunlock [OF sim]] show ?thesis
      unfolding h_unlock_send(1) by (rule moved) (simp add: hlock_def hunlock_def h_unlock_send(2))
  next
    case h_lock_pipe
    then have "cpc (callers t i) = CLockPipe" "owner t MutexPipe = None" using free pc by simp_all
    from lock_pipe [OF this] simulates_hgoto [OF simulates_hlock [OF sim]] show ?thesis
      unfolding h_lock_pipe(1) by (rule moved) (simp add: hlock_def h_lock_pipe(2))
  next
    case h_write_pipe
    then have "cpc (callers t i) = CWritePipe" "pipe_bytes t + 2 \<le> pipe_capacity" using pc S(13) by simp_all
    from write_pipe [OF this] show ?thesis
      unfolding h_write_pipe(1)
      by (rule moved) (rule simulatesI [OF sim, where i = i and H = UNIV],
        use S S(6-8) [of i] S(9,10) [of i] h_write_pipe(2) in \<open>simp_all add: kept_refl hstate_ops state_ops same_caller_def request_held_def found_held_def\<close>)
  next
    case h_unlock_pipe
    then have "cpc (callers t i) = CUnlockPipe" using pc by simp
    from unlock_pipe [OF this] simulates_hgoto [OF simulates_hunlock [OF sim]] show ?thesis
      unfolding h_unlock_pipe(1) by (rule moved) (simp add: hlock_def hunlock_def h_unlock_pipe(2))
  next
    case h_lock_receive
    then have "cpc (callers t i) = CLockReceive" "owner t MutexReceive = None" using free pc by simp_all
    from lock_receive [OF this] simulates_hgoto [OF simulates_hlock [OF sim]] show ?thesis
      unfolding h_lock_receive(1) by (rule moved) (simp add: hlock_def h_lock_receive(2))
  next
    case h_scan
    then show ?thesis using scan_simulated [OF sim h_scan(2)] by auto
  next
    case h_unlock_receive
    then have "cpc (callers t i) = CUnlockReceive" "(hfound (hcallers s i) = None) = (cfound (callers t i) = None)"
      using pc S(10) [of i] by (simp_all add: found_held_def)
    then have "caller_step i t (goto i (if hfound (hcallers s i) \<noteq> None then CDone else CRelock) (unlock_mutex MutexReceive t))"
      using unlock_receive [of t i] by simp
    from this simulates_hgoto [OF simulates_hunlock [OF sim]] show ?thesis
      unfolding h_unlock_receive(1) by (rule moved) simp
  next
    case h_relock
    then have "cpc (callers t i) = CRelock" "owner t MutexReceive = None" using free pc by simp_all
    from relock [OF this] simulates_hgoto [OF simulates_hlock [OF sim]] show ?thesis
      unfolding h_relock(1) by (rule moved) (simp add: hlock_def h_relock(2))
  next
    case h_cond_wait
    then have "cpc (callers t i) = CCondWait" using pc by simp
    from cond_wait [OF this] simulates_hgoto [OF simulates_hunlock [OF sim]] show ?thesis
      unfolding h_cond_wait(1) by (rule moved) (simp add: hlock_def hunlock_def h_cond_wait(2))
  next
    case h_spurious
    then have "cpc (callers t i) = CSleep" using pc by simp
    from spurious [OF this] simulates_hgoto [OF sim] show ?thesis
      unfolding h_spurious(1) by (rule moved) (simp add: hlock_def hunlock_def h_spurious(2))
  next
    case h_woken
    then have "cpc (callers t i) = CWoken" "owner t MutexReceive = None" using free pc by simp_all
    from woken [OF this] simulates_hgoto [OF simulates_hlock [OF sim]] show ?thesis
      unfolding h_woken(1) by (rule moved) (simp add: hlock_def h_woken(2))
  next
    case (h_next req keep cmd)
    then have "cpc (callers t i) = CDone" using pc by simp
    from next_request [OF this] next_simulated [OF sim h_next(3), of i keep cmd] show ?thesis
      unfolding h_next(1) by blast
  qed
qed

subsection \<open>Steps of the worker on the heap\<close>

lemma read_simulated:
  assumes sim: "simulates own as cs prev bs ds s t" and read: "read_packet stack evs s = Some r"
  shows "(\<exists>s' fr. r = Inr s' \<and> frames (hmem s') (brk (hmem s)) = Some fr \<and> follows prev bs s' (t\<lparr>wpc := WLockReceive fr\<rparr>)) \<or>
    (\<exists>e. r = Inl e)"
proof (cases r)
  case (Inl e)
  then show ?thesis by simp
next
  case (Inr s')
  note S = simulatesD [OF sim]
  let ?h = "hmem s" and ?a = "brk (hmem s)"
  have ok: "heap_ok ?h" using S(1) by (simp add: good_heap_def)
  have av: "avail ?h \<noteq> 0" using read Inr by (rule_tac notI) (simp add: read_packet_def conbee_init_frame_cases [OF ok])
  then obtain e w where w: "conbee_read_frame stack ((hworld s)\<lparr>mem := blank_heap ?h, tty_in := evs\<rparr>) ?a = Some (Inr (e, w))"
    "s' = s\<lparr>hworld := w, hwpc := HLockReceive ?a\<rparr>"
    using read Inr by (auto simp: read_packet_def conbee_init_frame_cases [OF ok] bindE_eq_Inr)
  obtain fr where new: "dev w = dev (hworld s)" "pipe_data w = pipe_data (hworld s)" "new_frame ?h fr (mem w)"
    using conbee_read_frame_new [OF w(1) ok] by auto
  let ?own = "own(?a \<mapsto> HeldWorker)"
  have k: "kept UNIV own ?h ?own (mem w)" by (rule kept_new [OF S(1) new(3)])
  have "simulates ?own as cs prev bs ds s' (t\<lparr>wpc := WLockReceive fr\<rparr>)"
    by (rule simulatesI_worker [OF sim, where H = UNIV])
      (use w(2) new k S S(11-13) new_frame_good [OF S(1) new(3)] send_held_kept [OF S(3) k] receive_held_kept [OF S(4) k]
        links_cong [OF S(2), of "mem w"] in \<open>simp_all add: new_frame_def\<close>)
  moreover have "frames (hmem s') ?a = Some fr" using w(2) new(3) by (simp add: new_frame_def)
  ultimately show ?thesis using Inr followsI by blast
qed

lemma wpush_simulated:
  assumes sim: "simulates own as cs prev bs ds s t" and pc: "hwpc s = HPush a"
  obtains fr where "wpc t = WPush fr"
    "if avail (hmem s) = 0 then push_received_frame a s = Inl NullDeref
     else \<exists>s'. push_received_frame a s = Inr s' \<and> follows prev bs s' (t\<lparr>recvq := recvq t @ [fr], wpc := WSignal\<rparr>)"
proof -
  note S = simulatesD [OF sim]
  obtain fr where a: "own a = Some HeldWorker" "frames (hmem s) a = Some fr" "wpc t = WPush fr"
    using S(5) pc by auto
  show ?thesis
  proof (cases "avail (hmem s) = 0")
    case True
    then show ?thesis using that [OF a(3)] by (simp add: push_received_frame_def queue_push_no_memory)
  next
    case False
    obtain h' q' prev' where push: "conbee_queue_push (hmem s) (hrecvq s) a = Inr (h', q')"
      "links h' (hsendq s) q' as cs prev' (bs @ [brk (hmem s)]) (ds @ [a])" "good_heap h'" "frames h' = frames (hmem s)"
      "blocks h' = blocks (hmem s)" "prev' = (if bs = [] then NULL else prev)"
      using links_push_receive [OF S(2,1)] False by blast
    let ?own = "own(a \<mapsto> HeldReceive)" and ?s' = "(set_receive h' q' s)\<lparr>hwpc := HSignal\<rparr>"
    have k: "kept (- {HeldWorker}) own (hmem s) ?own h'" using a(1) push(4,5) by (rule kept_give)
    have "a \<notin> set ds" using S(4) a(1) by (auto simp: receive_held_def)
    then have "receive_held ?own h' (ds @ [a]) (recvq t @ [fr])"
      using receive_held_kept [OF S(4) k] a(2) push(4) by (simp add: receive_held_def)
    then have "simulates ?own as cs prev' (bs @ [brk (hmem s)]) (ds @ [a]) ?s' (t\<lparr>recvq := recvq t @ [fr], wpc := WSignal\<rparr>)"
      by (intro simulatesI_worker [OF sim, where H = "- {HeldWorker}"])
        (use S(11-13) k push send_held_kept [OF S(3) k] in \<open>simp_all add: hstate_ops\<close>)
    then have "follows prev bs ?s' (t\<lparr>recvq := recvq t @ [fr], wpc := WSignal\<rparr>)"
      by (rule followsI') (simp_all add: push(6))
    then show ?thesis using that [OF a(3)] push(1) False by (simp add: push_received_frame_def)
  qed
qed

lemma wpop_simulated:
  assumes sim: "simulates own as cs prev bs ds s t" and pc: "hwpc s = HPop"
  shows "\<exists>s'. pop_request s = Inr s' \<and> follows prev bs s'
    (t\<lparr>sendq := tl (sendq t), wpc := WUnlockSend (case sendq t of [] \<Rightarrow> None | fr # _ \<Rightarrow> Some fr)\<rparr>)"
proof (cases cs)
  case Nil
  note S = simulatesD [OF sim]
  have "as = []" "head (hsendq s) = NULL" using S(2) Nil by (auto simp: links_def)
  moreover have "sendq t = []" using S(3) Nil by (simp add: send_held_def)
  moreover have "simulates own as cs prev bs ds ((set_send (hmem s) (hsendq s) s)\<lparr>hwpc := HUnlockSend NULL\<rparr>)
      (t\<lparr>sendq := [], wpc := WUnlockSend None\<rparr>)"
    by (rule simulatesI_worker [OF sim, where H = UNIV])
      (use S(1-4) S(11-13) calculation in \<open>simp_all add: kept_refl hstate_ops\<close>)
  ultimately show ?thesis by (auto simp: pop_request_def conbee_queue_pop_empty intro: followsI)
next
  case (Cons c cs')
  note S = simulatesD [OF sim]
  obtain b as' where as: "as = b # as'" using S(2) Cons by (cases as) (auto simp: links_def queue_at_def)
  obtain fr rest where fr: "sendq t = fr # rest" "frames (hmem s) c = Some fr" "own c = Some HeldSend" "sendable (hmem s) c"
    using S(3) Cons by (cases "sendq t") (auto simp: send_held_def)
  obtain h' q' where pop: "conbee_queue_pop (hmem s) (hsendq s) = Inr (c, h', q')" "links h' q' (hrecvq s) as' cs' prev bs ds"
    "good_heap h'" "frames h' = frames (hmem s)" "blocks h' = blocks (hmem s)"
    by (rule links_pop_send [OF S(2) [unfolded as Cons] S(1)])
  let ?own = "own(c \<mapsto> HeldWorker)"
  have k: "kept (- {HeldSend}) own (hmem s) ?own h'" using fr(3) pop(4,5) by (rule kept_give)
  have "c \<notin> set cs'" "send_held own (hmem s) cs' rest" using S(3) Cons fr(1) by (auto simp: send_held_def)
  then have "send_held ?own h' cs' rest" using pop(4) sendable_cong [OF pop(4,5)] by (auto simp: send_held_def)
  moreover have "sendable h' c" using fr(4) sendable_cong [OF pop(4,5)] by simp
  ultimately have "simulates ?own as' cs' prev bs ds ((set_send h' q' s)\<lparr>hwpc := HUnlockSend c\<rparr>) (t\<lparr>sendq := rest, wpc := WUnlockSend (Some fr)\<rparr>)"
    by (intro simulatesI_worker [OF sim, where H = "- {HeldSend}"])
      (use S(11-13) k pop fr(2) receive_held_kept [OF S(4) k] in \<open>simp_all add: hstate_ops\<close>)
  then show ?thesis using pop(1) fr(1) by (auto simp: pop_request_def intro: followsI)
qed

lemma wwrite_simulated:
  assumes sim: "simulates own as cs prev bs ds s t" and pc: "hwpc s = HWrite a" and "length stack = 1000"
  shows "\<exists>s' fr. wpc t = WWrite fr \<and> write_request stack a s = Inr s' \<and> follows prev bs s'
    (t\<lparr>sent := sent t @ (case fr of None \<Rightarrow> [] | Some f \<Rightarrow> [f]), wpc := WSelect\<rparr>)"
proof (cases "a = NULL")
  case True
  note S = simulatesD [OF sim]
  have "\<not> sendable (hmem s) NULL" by (simp add: sendable_def frame_is_def)
  then have "wpc t = WWrite None" using S(5) pc True by auto
  moreover have "simulates own as cs prev bs ds (s\<lparr>hwpc := HSelect\<rparr>) (t\<lparr>sent := sent t @ [], wpc := WSelect\<rparr>)"
    by (rule simulatesI_worker [OF sim, where H = UNIV]) (use S in \<open>simp_all add: kept_refl\<close>)
  ultimately show ?thesis using True by (auto simp: write_request_def intro: followsI)
next
  case False
  note S = simulatesD [OF sim]
  obtain fr where a: "own a = Some HeldWorker" "frames (hmem s) a = Some fr" "sendable (hmem s) a" "wpc t = WWrite (Some fr)"
    using S(5) pc False sendable_frame by fastforce
  obtain w where w: "write_request stack a s = Inr (s\<lparr>hworld := w, hwpc := HSelect\<rparr>)" "dev w = dev (hworld s)"
    "pipe_data w = pipe_data (hworld s)" "mem w = without_frame (hmem s) a (payload fr)"
    by (rule write_request_frees [OF S(1) a(3) assms(3) a(2)])
  let ?own = "own(a := None)"
  have k: "kept (- {HeldWorker}) own (hmem s) ?own (mem w)"
    unfolding w(4) using a(1) S(1) a(2) by (rule kept_free)
  have "simulates ?own as cs prev bs ds (s\<lparr>hworld := w, hwpc := HSelect\<rparr>) (t\<lparr>sent := sent t @ [fr], wpc := WSelect\<rparr>)"
    by (rule simulatesI_worker [OF sim, where H = "- {HeldWorker}"])
      (use S(11-13) w k good_free(2) [OF S(1) a(2)] send_held_kept [OF S(3) k] receive_held_kept [OF S(4) k]
        links_cong [OF S(2), of "mem w"] in simp_all)
  then show ?thesis using a(4) w(1) by (auto intro: followsI)
qed

lemma worker_simulated:
  assumes sim: "simulates own as cs prev bs ds s t" and step: "hworker_step n s r"
  shows "(\<exists>s' t'. r = Inr s' \<and> worker_step n t t' \<and> follows prev bs s' t') \<or>
    (\<exists>e. r = Inl e \<and> (avail (hmem s) < 2 \<or> hwpc s = HSelect \<and> (\<exists>stack evs. read_packet stack evs s = Some (Inl e))))"
proof -
  note S = simulatesD [OF sim]
  have moved: "(\<exists>s' t'. Inr u = (Inr s' :: ub + hsystem) \<and> worker_step n t t' \<and> follows prev bs s' t') \<or>
      (\<exists>e. Inr u = (Inl e :: ub + hsystem) \<and> (avail (hmem s) < 2 \<or> hwpc s = HSelect \<and> (\<exists>stack evs. read_packet stack evs s = Some (Inl e))))"
    if "worker_step n t v" "simulates own as cs prev bs ds u v" for u v
    by (intro disjI1 exI [of _ u] exI [of _ v]) (simp add: that(1) followsI [OF that(2)])
  note free = S(11) [THEN fun_cong]
  from step show ?thesis
  proof cases
    case (h_read_packet stack evs)
    then have "wpc t = WSelect" using S(5) by simp
    from select_tty [OF this] read_simulated [OF sim h_read_packet(3)] h_read_packet(1,3) show ?thesis by blast
  next
    case (h_wlock_receive a)
    then obtain fr where a: "wpc t = WLockReceive fr" "own a = Some HeldWorker" "frames (hmem s) a = Some fr" using S(5) by auto
    then have "owner t MutexReceive = None" using free h_wlock_receive(3) by simp
    from wlock_receive [OF a(1) this] simulates_hwpc [OF simulates_hlock [OF sim]] show ?thesis
      unfolding h_wlock_receive(1) by (rule moved) (use a in \<open>simp add: hlock_def\<close>)
  next
    case (h_wpush a)
    obtain fr where fr: "wpc t = WPush fr"
      "if avail (hmem s) = 0 then push_received_frame a s = Inl NullDeref
       else \<exists>s'. push_received_frame a s = Inr s' \<and> follows prev bs s' (t\<lparr>recvq := recvq t @ [fr], wpc := WSignal\<rparr>)"
      by (rule wpush_simulated [OF sim h_wpush(2)])
    from wpush [OF fr(1)] fr(2) h_wpush(1) show ?thesis by (auto split: if_splits)
  next
    case (h_wsignal i)
    then have "wpc t = WSignal" "cpc (callers t i) = CSleep" using S(5) S(6) [of i] by simp_all
    from wsignal [OF this(1) h_wsignal(3) this(2)] simulates_hwpc [OF simulates_hgoto [OF sim]] show ?thesis
      unfolding h_wsignal(1) by (rule moved) (simp_all add: hgoto_def)
  next
    case h_wsignal_nobody
    then have "wpc t = WSignal" "\<forall>i<n. cpc (callers t i) \<noteq> CSleep" using S(5) S(6) by simp_all
    from wsignal_nobody [OF this] simulates_hwpc [OF sim] show ?thesis
      unfolding h_wsignal_nobody(1) by (rule moved) simp
  next
    case h_wunlock_receive
    then have "wpc t = WUnlockReceive" using S(5) by simp
    from wunlock_receive [OF this] simulates_hwpc [OF simulates_hunlock [OF sim]] show ?thesis
      unfolding h_wunlock_receive(1) by (rule moved) simp
  next
    case h_select_pipe
    then have "wpc t = WSelect" "0 < pipe_bytes t" using S(5) S(13) by (simp_all flip: length_greater_0_conv)
    from select_pipe [OF this] simulates_hwpc [OF sim] show ?thesis
      unfolding h_select_pipe(1) by (rule moved) simp
  next
    case h_wread_pipe
    then have "wpc t = WReadPipe" "0 < pipe_bytes t" using S(5) S(13) by (simp_all flip: length_greater_0_conv)
    moreover have "simulates own as cs prev bs ds (s\<lparr>hworld := (hworld s)\<lparr>pipe_data := drop 2 (pipe_data (hworld s))\<rparr>, hwpc := HLockSend\<rparr>)
        (t\<lparr>pipe_bytes := pipe_bytes t - 2, wpc := WLockSend\<rparr>)"
      by (rule simulatesI_worker [OF sim, where H = UNIV]) (use S in \<open>simp_all add: kept_refl\<close>)
    ultimately show ?thesis unfolding h_wread_pipe(1) using moved [OF wread_pipe] by simp
  next
    case h_wlock_send
    then have "wpc t = WLockSend" "owner t MutexSend = None" using S(5) free by simp_all
    from wlock_send [OF this] simulates_hwpc [OF simulates_hlock [OF sim]] show ?thesis
      unfolding h_wlock_send(1) by (rule moved) simp
  next
    case h_wpop
    then have "wpc t = WPop" using S(5) by simp
    from wpop [OF this] wpop_simulated [OF sim h_wpop(2)] h_wpop(1) show ?thesis by blast
  next
    case (h_wunlock_send a)
    then obtain fr where fr: "wpc t = WUnlockSend fr" "worker_held own (hmem s) (HWrite a) (WWrite fr)" using S(5) by auto
    from wunlock_send [OF fr(1)] simulates_hwpc [OF simulates_hunlock [OF sim]] show ?thesis
      unfolding h_wunlock_send(1) by (rule moved) (use fr(2) in \<open>simp add: hunlock_def\<close>)
  next
    case (h_wwrite a stack)
    obtain s' fr where "wpc t = WWrite fr" "write_request stack a s = Inr s'"
      "follows prev bs s' (t\<lparr>sent := sent t @ (case fr of None \<Rightarrow> [] | Some f \<Rightarrow> [f]), wpc := WSelect\<rparr>)"
      using wwrite_simulated [OF sim h_wwrite(2,3)] by blast
    with wwrite h_wwrite(1) show ?thesis by blast
  qed
qed

subsection \<open>Refinement\<close>

text \<open>The lists of \<open>t\<close> are the linked queues of \<open>s\<close>, frame by frame, and all the rest is equal.\<close>

definition heap_shows :: "hsystem \<Rightarrow> system \<Rightarrow> bool" where
  "heap_shows s t \<longleftrightarrow>
     (\<exists>as cs bs ds. queue_at (hmem s) (hsendq s) as cs \<and> map (frames (hmem s)) cs = map Some (sendq t) \<and>
        queue_at (hmem s) (hrecvq s) bs ds \<and> map (frames (hmem s)) ds = map Some (recvq t) \<and> distinct (cs @ ds) \<and>
        (\<forall>i f. hfound (hcallers s i) = Some f \<longrightarrow> f \<notin> set (cs @ ds) \<and> (\<forall>j. hfound (hcallers s j) = Some f \<longrightarrow> j = i))) \<and>
     howner s = owner t \<and> next_sequence (dev (hworld s)) = sequence t \<and> length (pipe_data (hworld s)) = pipe_bytes t \<and>
     (\<forall>i. hpc (hcallers s i) = cpc (callers t i) \<and> hseq (hcallers s i) = cseq (callers t i) \<and>
        hcmd (hcallers s i) = ccmd (callers t i) \<and> (hfound (hcallers s i) = None \<longleftrightarrow> cfound (callers t i) = None) \<and>
        (\<forall>f. hfound (hcallers s i) = Some f \<longrightarrow> frames (hmem s) f = cfound (callers t i)))"

lemma sim_shows: "sim s t \<Longrightarrow> heap_shows s t"
proof -
  assume "sim s t"
  then obtain own as cs prev bs ds where sim: "simulates own as cs prev bs ds s t" by (auto simp: sim_def)
  note S = simulatesD [OF sim]
  have "set cs \<inter> set ds = {}" using S(3,4) by (auto simp: send_held_def receive_held_def)
  then have "queue_at (hmem s) (hsendq s) as cs \<and> map (frames (hmem s)) cs = map Some (sendq t) \<and>
      queue_at (hmem s) (hrecvq s) bs ds \<and> map (frames (hmem s)) ds = map Some (recvq t) \<and> distinct (cs @ ds)"
    using S(2-4) by (simp add: links_def send_held_def receive_held_def)
  moreover have "f \<notin> set (cs @ ds) \<and> (\<forall>j. hfound (hcallers s j) = Some f \<longrightarrow> j = i)" if "hfound (hcallers s i) = Some f" for i f
  proof -
    have owned: "own f = Some (HeldFound j)" if "hfound (hcallers s j) = Some f" for j
      using S(10) [of j] that by (simp add: found_held_def)
    show ?thesis using owned [OF that] S(3,4) by (auto simp: send_held_def receive_held_def dest: owned)
  qed
  ultimately have "\<exists>as cs bs ds. queue_at (hmem s) (hsendq s) as cs \<and> map (frames (hmem s)) cs = map Some (sendq t) \<and>
      queue_at (hmem s) (hrecvq s) bs ds \<and> map (frames (hmem s)) ds = map Some (recvq t) \<and> distinct (cs @ ds) \<and>
      (\<forall>i f. hfound (hcallers s i) = Some f \<longrightarrow> f \<notin> set (cs @ ds) \<and> (\<forall>j. hfound (hcallers s j) = Some f \<longrightarrow> j = i))"
    by (intro exI [of _ as] exI [of _ cs] exI [of _ bs] exI [of _ ds]) simp
  then show ?thesis
    unfolding heap_shows_def using S(6-8) S(10-13) by (intro conjI) (assumption, auto simp: found_held_def)
qed

lemma follows_sim: "follows prev bs s t \<Longrightarrow> sim s t"
  unfolding follows_def sim_def by blast

lemma sim_step:
  assumes "sim s t" and "hsys_step n s (Inr s')"
  shows "\<exists>t'. sys_step n t t' \<and> sim s' t'"
proof -
  obtain own as cs prev bs ds where sim: "simulates own as cs prev bs ds s t" using assms(1) by (auto simp: sim_def)
  show ?thesis
    using assms(2) caller_simulated [OF sim] worker_simulated [OF sim] follows_sim
    by (auto simp: hsys_step_def sys_step_def) blast+
qed

lemma hinitial_sim:
  assumes "hinitial s"
  shows "\<exists>t. initial t \<and> sim s t"
proof -
  let ?t = "\<lparr>owner = (\<lambda>_. None), sequence = 0, sendq = [], recvq = [], pipe_bytes = 0,
     callers = (\<lambda>i. \<lparr>cpc = CDone, cframe = blank_frame, cseq = hseq (hcallers s i), ccmd = hcmd (hcallers s i), cfound = None\<rparr>),
     wpc = WSelect, handed_out = [], pushed = [], sent = []\<rparr>"
  have "simulates Map.empty [] [] NULL [] [] s ?t"
    using assms by (simp add: simulates_def hinitial_def good_heap_def links_def send_held_def receive_held_def same_caller_def
        request_held_def found_held_def conbee_queue_init_def)
  then have "sim s ?t" unfolding sim_def by blast
  then show ?thesis by (intro exI [of _ ?t]) (simp add: initial_def)
qed

lemma hreachable_sim: "hreachable n s \<Longrightarrow> \<exists>t. reachable n t \<and> sim s t"
proof (induction rule: hreachable.induct)
  case (hstart s)
  then show ?case using hinitial_sim reachable.start by blast
next
  case (hstep s s')
  then show ?case using sim_step reachable.step by blast
qed

subsection \<open>A pointer to a deleted item\<close>

text \<open>The first item of the receive queue has a predecessor that has been deleted.\<close>

definition dangling_head :: "hsystem \<Rightarrow> bool" where
  "dangling_head s \<longleftrightarrow> (case items (hmem s) (head (hrecvq s)) of None \<Rightarrow> False
     | Some it \<Rightarrow> head (hrecvq s) \<noteq> NULL \<and> previous_item it \<noteq> NULL \<and> items (hmem s) (previous_item it) = None)"

lemma simulates_dangling:
  assumes "simulates own as cs prev bs ds s t"
  shows "dangling_head s \<longleftrightarrow> prev \<noteq> NULL \<and> bs \<noteq> []"
proof -
  note S = simulatesD(2) [OF assms, unfolded links_def]
  show ?thesis
  proof (cases bs)
    case Nil
    then show ?thesis using S by (auto simp: dangling_head_def split: option.splits)
  next
    case (Cons b bs')
    then show ?thesis using S by (auto simp: dangling_head_def)
  qed
qed

text \<open>A step that ends in a new state keeps the dangling pointer, and nobody gets a response.\<close>

lemma dangling_step:
  assumes "sim s t" and "dangling_head s" and "hsys_step n s (Inr s')"
  shows "\<exists>t'. sim s' t' \<and> dangling_head s'"
proof -
  obtain own as cs prev bs ds where sim: "simulates own as cs prev bs ds s t" using assms(1) by (auto simp: sim_def)
  have stale: "prev \<noteq> NULL" "bs \<noteq> []" using simulates_dangling [OF sim] assms(2) by simp_all
  obtain t' where "follows prev bs s' t'"
    using assms(3) caller_simulated [OF sim] worker_simulated [OF sim] by (auto simp: hsys_step_def) blast+
  then show ?thesis
    using stale simulates_dangling by (fastforce simp: follows_def sim_def)
qed

lemma dangling_no_response:
  assumes "sim s t" and "dangling_head s" and "hsys_step n s (Inr s')"
  shows "hfound (hcallers s' i) = None \<or> hfound (hcallers s' i) = hfound (hcallers s i)"
proof -
  obtain own as cs prev bs ds where sim: "simulates own as cs prev bs ds s t" using assms(1) by (auto simp: sim_def)
  note S = simulatesD [OF sim]
  have stale: "prev \<noteq> NULL" "bs \<noteq> []" using simulates_dangling [OF sim] assms(2) by simp_all
  then obtain b bs' where b: "bs = b # bs'" by (cases bs) auto
  then have "head (hrecvq s) = b" using S(2) by (simp add: links_def)
  moreover have "conbee_queue_delete (hmem s) (hrecvq s) b = Inl UseAfterFree"
    by (rule links_delete_stale [OF S(2) [unfolded b] S(1) stale(1)])
  ultimately have scan: "scan_head j s = Inr s' \<Longrightarrow> hfound (hcallers s' i) = hfound (hcallers s i)" for j
    by (auto simp: scan_head_def bindE_eq_Inr hstate_ops split: if_splits)
  consider (worker) "hworker_step n s (Inr s')" | (caller) j where "hcaller_step j s (Inr s')"
    using assms(3) by (auto simp: hsys_step_def)
  then show ?thesis
  proof cases
    case worker
    then have "hfound (hcallers s' i) = hfound (hcallers s i)"
      by (elim hworker_stepE) (auto simp: hstate_ops read_packet_def push_received_frame_def pop_request_def write_request_def
          bindE_eq_Inr eq_commute [of "Inr s'"] split: sum.splits if_splits)
    then show ?thesis by simp
  next
    case caller
    then show ?thesis
      by (elim hcaller_stepE) (auto simp: hstate_ops stamp_request_def push_request_def next_exchange_def bindE_eq_Inr eq_commute [of "Inr s'"] dest: scan)
  qed
qed

end
