(* ===== verification/Heap_Runs.thy ===== *)
theory Heap_Runs
  imports Heap_Refinement
begin

text \<open>
  What the refinement gives for the threads on the heap, and runs of \<open>Threads\<close> carried over to the heap:
  with enough memory the steps of a caller there have steps here.
\<close>

subsection \<open>Carrying steps over\<close>

lemma simulates_lengths:
  assumes "simulates own as cs prev bs ds s t"
  shows "length bs = length (recvq t)"
proof -
  note S = simulatesD [OF assms]
  have "length bs = length ds" using S(2) chain_length by (auto simp: links_def queue_at_def)
  moreover have "length ds = length (recvq t)" using S(4) map_eq_imp_length_eq [of "frames (hmem s)" ds Some] by (simp add: receive_held_def)
  ultimately show ?thesis by simp
qed

lemma follows_dangling:
  assumes "simulates own as cs prev bs ds s t" and "follows prev bs s' t'"
  shows "dangling_head s' \<longleftrightarrow> (if length (recvq t') < length (recvq t) then recvq t' \<noteq> [] else dangling_head s)"
proof -
  obtain own' as' cs' prev' bs' ds' where sim': "simulates own' as' cs' prev' bs' ds' s' t'"
    "prev' \<noteq> NULL \<and> bs' \<noteq> [] \<longleftrightarrow> (if length bs' < length bs then bs' \<noteq> [] else prev \<noteq> NULL \<and> bs \<noteq> [])"
    using assms(2) unfolding follows_def by blast
  have "bs' = [] \<longleftrightarrow> recvq t' = []" using simulates_lengths [OF sim'(1)] by auto
  then show ?thesis
    using sim' simulates_dangling [OF assms(1)] simulates_dangling [OF sim'(1)] simulates_lengths [OF assms(1)] simulates_lengths [OF sim'(1)]
    by simp
qed

lemma caller_step_det: "caller_step i t u \<Longrightarrow> caller_step i t v \<Longrightarrow> cpc (callers t i) \<noteq> CDone \<Longrightarrow> u = v"
  by (elim caller_stepE) simp_all

lemma caller_enabled:
  assumes sim: "simulates own as cs prev bs ds s t" and "caller_step i t t'" and "cpc (callers t i) \<noteq> CDone"
  shows "\<exists>r. hcaller_step i s r"
proof -
  note S = simulatesD [OF sim]
  have pc: "cpc (callers t i) = hpc (hcallers s i)" using S(6) [of i] by simp
  from assms(2) show ?thesis
  proof cases
    case write_pipe
    then show ?thesis using pc S(13) h_write_pipe [of s i] by auto
  qed (use pc S(11) [symmetric] assms(3) in \<open>auto intro: hcaller_step.intros\<close>)
qed

text \<open>How much memory a step can use.\<close>

lemma set_item_avail:
  "set_contents h a v = Inr h' \<Longrightarrow> avail h' = avail h" "set_next h a v = Inr h' \<Longrightarrow> avail h' = avail h"
  "set_previous h a v = Inr h' \<Longrightarrow> avail h' = avail h"
  by (auto simp: set_contents_def set_next_def set_previous_def set_item_field_def bindE_eq_Inr)

lemma conbee_queue_push_avail:
  assumes "conbee_queue_push h q c = Inr (h', q')"
  shows "avail h \<le> avail h' + 1"
proof -
  obtain item g where m: "malloc h = (item, g)" by (cases "malloc h")
  define h0 where "h0 = (if item = NULL then g else g\<lparr>items := (items g)(item \<mapsto> \<lparr>contents = NULL, next_item = NULL, previous_item = NULL\<rparr>)\<rparr>)"
  have h0: "avail h \<le> avail h0 + 1" using m by (auto simp: malloc_def h0_def split: if_splits)
  obtain h1 h2 h3 where "set_contents h0 item c = Inr h1" "set_next h1 item NULL = Inr h2" "set_previous h2 item NULL = Inr h3"
    and rest: "(if head q = NULL then Inr (h3, \<lparr>head = item, tail = item\<rparr>)
      else bindE (set_previous h3 item (tail q)) (\<lambda>h. bindE (set_next h (tail q) item) (\<lambda>h. Inr (h, q\<lparr>tail := item\<rparr>)))) = Inr (h', q')"
    using assms unfolding conbee_queue_push_def m Let_def prod.case h0_def [symmetric] by (auto simp: bindE_eq_Inr)
  then have "avail h3 = avail h0" using set_item_avail by metis
  moreover have "avail h' = avail h3"
    using rest by (cases "head q = NULL") (auto simp: bindE_eq_Inr dest!: set_item_avail)
  ultimately show ?thesis using h0 by simp
qed

lemma conbee_queue_pop_avail: "conbee_queue_pop h q = Inr (c, h', q') \<Longrightarrow> avail h \<le> avail h'"
  by (auto simp: conbee_queue_pop_def free_item_def bindE_eq_Inr Let_def split: if_splits option.splits)

lemma conbee_queue_delete_avail: "conbee_queue_delete h q a = Inr (h', q') \<Longrightarrow> avail h \<le> avail h'"
  by (auto simp: conbee_queue_delete_def free_item_def bindE_eq_Inr dest!: set_item_avail split: if_splits option.splits)

lemma hcaller_step_avail:
  assumes sim: "simulates own as cs prev bs ds s t" and step: "hcaller_step i s (Inr s')"
  shows "avail (hmem s) \<le> avail (hmem s') + 2 \<and> tty_status (dev (hworld s')) = tty_status (dev (hworld s))"
  using step
proof cases
  case (h_next req keep cmd)
  note S = simulatesD [OF sim]
  let ?free = "case hfound (hcallers s i) of None \<Rightarrow> Inr (hmem s) | Some f \<Rightarrow> if keep then Inr (hmem s) else conbee_free_frame (hmem s) f"
  obtain h a h' where h: "?free = Inr h" "build_request req h = Inr (a, h')" "s' = hupd i (\<lambda>c. \<lparr>hpc = CLockSequence, hframe = a,
      hseq = hseq c, hcmd = cmd, hfound = None\<rparr>) (set_mem h' s)"
    using h_next(1) by (auto simp: next_exchange_def bindE_eq_Inr eq_commute [of "Inr s'"])
  have "good_heap h \<and> avail (hmem s) \<le> avail h"
  proof (cases "hfound (hcallers s i)")
    case None
    then show ?thesis using h(1) S(1) by simp
  next
    case (Some f)
    then obtain fr where "frames (hmem s) f = Some fr" using S(10) [of i] by (auto simp: found_held_def)
    then show ?thesis using h(1) S(1) Some good_free [OF S(1)] by (cases keep) auto
  qed
  then have "h' = request_heap req h" "avail (hmem s) \<le> avail h"
    using build_request_new [OF _ h_next(3) h(2)] by (auto simp: good_heap_def)
  then show ?thesis using h(3) request_heap_avail [of h req] by (simp add: hstate_ops)
qed (auto simp: hstate_ops stamp_request_def push_request_def scan_head_def update_frame_def bindE_eq_Inr eq_commute [of "Inr s'"]
    split: if_splits dest!: conbee_queue_push_avail conbee_queue_delete_avail)

subsection \<open>Runs with enough memory\<close>

text \<open>
  However much memory is to be left, the heap has a reachable state for \<open>t\<close>, connected, whose receive queue
  begins as \<open>dng\<close> says.
\<close>

definition realised :: "nat \<Rightarrow> bool \<Rightarrow> system \<Rightarrow> bool" where
  "realised n dng t \<longleftrightarrow> (\<forall>m. \<exists>s. hreachable n s \<and> sim s t \<and> m \<le> avail (hmem s) \<and> dangling_head s = dng \<and> connected (hworld s))"

lemma caller_matched:
  assumes "sim s t" and room: "m + 2 \<le> avail (hmem s)" and step: "caller_step i t t'" and pc: "cpc (callers t i) \<noteq> CDone"
    and "cpc (callers t i) = CScan \<Longrightarrow> \<not> dangling_head s"
  shows "\<exists>s'. hcaller_step i s (Inr s') \<and> sim s' t' \<and> m \<le> avail (hmem s') \<and> connected (hworld s') = connected (hworld s) \<and>
    dangling_head s' = (if length (recvq t') < length (recvq t) then recvq t' \<noteq> [] else dangling_head s)"
proof -
  obtain own as cs prev bs ds where sim: "simulates own as cs prev bs ds s t" using assms(1) by (auto simp: sim_def)
  obtain r where r: "hcaller_step i s r" using caller_enabled [OF sim step pc] by blast
  have "\<not> (hpc (hcallers s i) = CScan \<and> prev \<noteq> NULL \<and> bs \<noteq> [])"
    using assms(5) simulatesD(6) [OF sim, of i] simulates_dangling [OF sim] by auto
  then obtain s' t'' where s': "r = Inr s'" "caller_step i t t''" "follows prev bs s' t''"
    using caller_simulated [OF sim r] room by auto
  have t'': "t'' = t'" by (rule caller_step_det [OF s'(2) step pc])
  have "m \<le> avail (hmem s')" "connected (hworld s') = connected (hworld s)"
    using hcaller_step_avail [OF sim r [unfolded s'(1)]] room by (simp_all add: connected_def)
  then show ?thesis
    using r s'(1) follows_sim [OF s'(3)] follows_dangling [OF sim s'(3)] unfolding t'' by (intro exI [of _ s']) simp
qed

lemma realised_caller:
  assumes real: "realised n dng t" and i: "i < n" and step: "caller_step i t t'" and pc: "cpc (callers t i) \<noteq> CDone"
    and scan: "cpc (callers t i) = CScan \<Longrightarrow> \<not> dng"
  shows "realised n (if length (recvq t') < length (recvq t) then recvq t' \<noteq> [] else dng) t'"
  unfolding realised_def
proof
  fix m
  obtain s where s: "hreachable n s" "sim s t" "m + 2 \<le> avail (hmem s)" "dangling_head s = dng" "connected (hworld s)"
    using real unfolding realised_def by blast
  from caller_matched [OF s(2,3) step pc] scan s(4) obtain s' where s': "hcaller_step i s (Inr s')" "sim s' t'"
    "m \<le> avail (hmem s')" "connected (hworld s') = connected (hworld s)"
    "dangling_head s' = (if length (recvq t') < length (recvq t) then recvq t' \<noteq> [] else dangling_head s)"
    by blast
  have "hreachable n s'" using hreachable.hstep [OF s(1)] s'(1) i by (auto simp: hsys_step_def)
  then show "\<exists>s. hreachable n s \<and> sim s t' \<and> m \<le> avail (hmem s) \<and>
      dangling_head s = (if length (recvq t') < length (recvq t) then recvq t' \<noteq> [] else dng) \<and> connected (hworld s)"
    using s' s(4,5) by blast
qed

lemma worker_step_det:
  assumes "worker_step n t u" and v: "worker_step n t v" and "wpc t \<noteq> WSelect"
    and "wpc t = WSignal \<longrightarrow> (\<forall>i<n. cpc (callers t i) \<noteq> CSleep)"
  shows "u = v"
  using assms(1)
proof cases
  case (wsignal i)
  then show ?thesis using assms(4) by blast
next
  case wsignal_nobody
  then show ?thesis using v by (auto elim: worker_stepE)
qed (use v assms(3) in \<open>auto elim: worker_stepE\<close>)

lemma worker_enabled:
  assumes sim: "simulates own as cs prev bs ds s t" and "worker_step n t t'" and "wpc t \<noteq> WSelect"
  shows "\<exists>r. hworker_step n s r \<and> hwpc s \<noteq> HSelect"
proof -
  note S = simulatesD [OF sim]
  have pc: "hwpc s \<noteq> HSelect" using S(5) assms(3) by auto
  have callers: "cpc (callers t i) = hpc (hcallers s i)" for i using S(6) [of i] by simp
  note free = S(11) [symmetric] and w = S(5)
  have pipe: "0 < pipe_bytes t \<Longrightarrow> pipe_data (hworld s) \<noteq> []" using S(13) by auto
  have stack: "length (replicate 1000 (0 :: u8)) = 1000" by simp
  show ?thesis
  proof (cases "hwpc s")
    case HSignal
    then show ?thesis
      using h_wsignal [OF HSignal, of _ n] h_wsignal_nobody [OF HSignal, of n] pc by (cases "\<exists>i<n. hpc (hcallers s i) = CSleep") blast+
  next
    case (HWrite a)
    then show ?thesis using h_wwrite [OF HWrite stack] pc by blast
  next
    case (HLockReceive a)
    then have "howner s MutexReceive = None" using w assms(2) free by (auto elim: worker_stepE)
    then show ?thesis using h_wlock_receive [OF HLockReceive] pc by blast
  next
    case HReadPipe
    then have "0 < pipe_bytes t" using w assms(2) by (auto elim: worker_stepE)
    then show ?thesis using h_wread_pipe [OF HReadPipe pipe] pc by blast
  next
    case HLockSend
    then have "howner s MutexSend = None" using w assms(2) free by (auto elim: worker_stepE)
    then show ?thesis using h_wlock_send [OF HLockSend] pc by blast
  qed (use pc in \<open>auto intro: hworker_step.intros\<close>)
qed

lemma hworker_step_avail:
  assumes sim: "simulates own as cs prev bs ds s t" and step: "hworker_step n s (Inr s')" and "hwpc s \<noteq> HSelect"
  shows "avail (hmem s) \<le> avail (hmem s') + 2 \<and> tty_status (dev (hworld s')) = tty_status (dev (hworld s))"
  using step
proof cases
  case (h_wwrite a stack)
  note S = simulatesD [OF sim]
  show ?thesis
  proof (cases "a = NULL")
    case True
    then show ?thesis using h_wwrite(1) by (simp add: write_request_def)
  next
    case False
    then obtain fr where "sendable (hmem s) a" "frames (hmem s) a = Some fr"
      using S(5) h_wwrite(2) sendable_frame by fastforce
    then obtain w where "write_request stack a s = Inr (s\<lparr>hworld := w, hwpc := HSelect\<rparr>)" "dev w = dev (hworld s)"
      "mem w = without_frame (hmem s) a (payload fr)"
      using write_request_frees [OF S(1) _ h_wwrite(3)] by metis
    then show ?thesis using h_wwrite(1) by simp
  qed
qed (use assms(3) in \<open>auto simp: hstate_ops push_received_frame_def pop_request_def bindE_eq_Inr eq_commute [of "Inr s'"]
    dest!: conbee_queue_push_avail conbee_queue_pop_avail\<close>)

lemma worker_matched:
  assumes "sim s t" and room: "m + 2 \<le> avail (hmem s)" and step: "worker_step n t t'" and pc: "wpc t \<noteq> WSelect"
    and nobody: "wpc t = WSignal \<longrightarrow> (\<forall>i<n. cpc (callers t i) \<noteq> CSleep)"
  shows "\<exists>s'. hworker_step n s (Inr s') \<and> sim s' t' \<and> m \<le> avail (hmem s') \<and> connected (hworld s') = connected (hworld s) \<and>
    hwpc s \<noteq> HSelect \<and> dangling_head s' = (if length (recvq t') < length (recvq t) then recvq t' \<noteq> [] else dangling_head s)"
proof -
  obtain own as cs prev bs ds where sim: "simulates own as cs prev bs ds s t" using assms(1) by (auto simp: sim_def)
  obtain r where r: "hworker_step n s r" "hwpc s \<noteq> HSelect" using worker_enabled [OF sim step pc] by blast
  obtain s' t'' where s': "r = Inr s'" "worker_step n t t''" "follows prev bs s' t''"
    using worker_simulated [OF sim r(1)] room r(2) by auto
  have t'': "t'' = t'" by (rule worker_step_det [OF s'(2) step pc nobody])
  have "m \<le> avail (hmem s')" "connected (hworld s') = connected (hworld s)"
    using hworker_step_avail [OF sim r(1) [unfolded s'(1)] r(2)] room by (simp_all add: connected_def)
  then show ?thesis
    using r s'(1) follows_sim [OF s'(3)] follows_dangling [OF sim s'(3)] unfolding t'' by (intro exI [of _ s']) simp
qed

lemma realised_worker:
  assumes real: "realised n dng t" and step: "worker_step n t t'" and pc: "wpc t \<noteq> WSelect"
    and nobody: "wpc t = WSignal \<longrightarrow> (\<forall>i<n. cpc (callers t i) \<noteq> CSleep)"
  shows "realised n (if length (recvq t') < length (recvq t) then recvq t' \<noteq> [] else dng) t'"
  unfolding realised_def
proof
  fix m
  obtain s where s: "hreachable n s" "sim s t" "m + 2 \<le> avail (hmem s)" "dangling_head s = dng" "connected (hworld s)"
    using real unfolding realised_def by blast
  from worker_matched [OF s(2,3) step pc nobody] obtain s' where s': "hworker_step n s (Inr s')" "sim s' t'"
    "m \<le> avail (hmem s')" "connected (hworld s') = connected (hworld s)"
    "dangling_head s' = (if length (recvq t') < length (recvq t) then recvq t' \<noteq> [] else dangling_head s)"
    by blast
  have "hreachable n s'" using hreachable.hstep [OF s(1)] s'(1) by (auto simp: hsys_step_def)
  then show "\<exists>s. hreachable n s \<and> sim s t' \<and> m \<le> avail (hmem s) \<and>
      dangling_head s = (if length (recvq t') < length (recvq t) then recvq t' \<noteq> [] else dng) \<and> connected (hworld s)"
    using s' s(4,5) by blast
qed

text \<open>The steps that \<open>Threads\<close> leaves open: which request comes next, what the stick sends, which descriptor is ready.\<close>

abbreviation asks_version :: "nat \<Rightarrow> u8 \<Rightarrow> system \<Rightarrow> system" where
  "asks_version i cmd \<equiv> upd_caller i (\<lambda>c. \<lparr>cpc = CLockSequence, cframe = request_header ReadFirmware, cseq = cseq c, ccmd = cmd, cfound = None\<rparr>)"

lemma next_matched:
  assumes "sim s t" and room: "m + 2 \<le> avail (hmem s)" and pc: "cpc (callers t i) = CDone"
  shows "\<exists>s'. hcaller_step i s (Inr s') \<and> sim s' (asks_version i cmd t) \<and> m \<le> avail (hmem s') \<and>
    connected (hworld s') = connected (hworld s) \<and> dangling_head s' = dangling_head s"
proof -
  obtain own as cs prev bs ds where sim: "simulates own as cs prev bs ds s t" using assms(1) by (auto simp: sim_def)
  have idle: "hpc (hcallers s i) = CDone" using simulatesD(6) [OF sim, of i] pc by simp
  obtain s' where s': "next_exchange i False ReadFirmware cmd s = Inr s'" "follows prev bs s' (asks_version i cmd t)"
    using next_simulated [OF sim, of ReadFirmware i False cmd] room by auto
  have step: "hcaller_step i s (Inr s')" using h_next [OF idle, of ReadFirmware False cmd] s'(1) by simp
  moreover have "m \<le> avail (hmem s')" "connected (hworld s') = connected (hworld s)"
    using hcaller_step_avail [OF sim step] room by (simp_all add: connected_def)
  moreover have "dangling_head s' = dangling_head s" using follows_dangling [OF sim s'(2)] by (simp add: upd_caller_def)
  ultimately show ?thesis using follows_sim [OF s'(2)] by blast
qed

lemma realised_next:
  assumes real: "realised n dng t" and i: "i < n" and pc: "cpc (callers t i) = CDone"
  shows "realised n dng (asks_version i cmd t)"
  unfolding realised_def
proof
  fix m
  obtain s where s: "hreachable n s" "sim s t" "m + 2 \<le> avail (hmem s)" "dangling_head s = dng" "connected (hworld s)"
    using real unfolding realised_def by blast
  from next_matched [OF s(2,3) pc] obtain s' where s': "hcaller_step i s (Inr s')" "sim s' (asks_version i cmd t)"
    "m \<le> avail (hmem s')" "connected (hworld s') = connected (hworld s)" "dangling_head s' = dangling_head s"
    by blast
  have "hreachable n s'" using hreachable.hstep [OF s(1)] s'(1) i by (auto simp: hsys_step_def)
  then show "\<exists>s. hreachable n s \<and> sim s (asks_version i cmd t) \<and> m \<le> avail (hmem s) \<and> dangling_head s = dng \<and> connected (hworld s)"
    using s' s(4,5) by blast
qed

text \<open>A packet of five bytes: command, sequence number, status and checksum.\<close>

definition short_answer :: "u8 \<Rightarrow> conbee_frame" where
  "short_answer seqn = \<lparr>command = COMMAND_VERSION, sequence_number = seqn, status = 0,
     frame_length = checksum [COMMAND_VERSION, seqn, 0], payload_length = 0, payload = NULL\<rparr>"

lemma conbee_read_short_answer:
  assumes "connected w" "length stack = 1500" "heap_ok h" "mem w = blank_heap h" "tty_in w = []"
  shows "conbee_read_frame stack (w\<lparr>tty_in := map Data (slip_encode (packet_of [COMMAND_VERSION, seqn, 0]))\<rparr>) (brk h) =
    Some (Inr (5, w\<lparr>mem := (blank_heap h)\<lparr>frames := (frames h)(brk h \<mapsto> short_answer seqn)\<rparr>\<rparr>))"
proof -
  let ?pkt = "packet_of [COMMAND_VERSION, seqn, 0]"
  let ?buf = "?pkt @ drop (length ?pkt) stack"
  have five: "length ?pkt = 5" by (simp add: eval_nat_numeral)
  have feed: "tty_feed (slip_encode ?pkt @ []) w = w\<lparr>tty_in := map Data (slip_encode ?pkt)\<rparr>" "tty_feed [] w = w"
    using assms(5) by (simp_all add: tty_feed_def)
  have read: "conbee_read_frame stack (w\<lparr>tty_in := map Data (slip_encode ?pkt)\<rparr>) (brk h) =
      Some (conbee_parse_packet 5 ?buf w (brk h))"
    using conbee_read_frame_packet [OF assms(1) packet_of_not_Nil, of "[COMMAND_VERSION, seqn, 0]" stack "[]" "brk h"] feed five assms(2)
    by simp
  have "conbee_parse_packet 5 ?buf w (brk h) = conbee_fill_frame 5 ?buf w (brk h)"
    using conbee_parse_packet_checked [of "[COMMAND_VERSION, seqn, 0]" "drop (length ?pkt) stack" w "brk h"] assms(2) five by simp
  also have "\<dots> = Inr (5, w\<lparr>mem := (blank_heap h)\<lparr>frames := (frames h)(brk h \<mapsto> short_answer seqn)\<rparr>\<rparr>)"
  proof -
    have hdr: "?buf ! 0 = COMMAND_VERSION" "?buf ! 1 = seqn" "?buf ! 2 = 0"
      "take 2 (drop 3 ?buf) = le_bytes 2 (checksum [COMMAND_VERSION, seqn, 0])"
      by (simp_all add: packet_of_def numeral_2_eq_2 numeral_3_eq_3)
    have "length ?buf = 1500" "brk h \<noteq> NULL" "frames (mem w) (brk h) = Some blank_frame"
      using assms(2-4) five heap_ok_brk by simp_all
    from conbee_fill_frame_short [OF this, of 5] show ?thesis
      unfolding hdr by (simp add: assms(4) blank_frame_def short_answer_def)
  qed
  finally show ?thesis using read by simp
qed

lemma read_matched:
  assumes "sim s t" and room: "m + 2 \<le> avail (hmem s)" and pc: "wpc t = WSelect" and conn: "connected (hworld s)"
  shows "\<exists>s'. hworker_step n s (Inr s') \<and> sim s' (t\<lparr>wpc := WLockReceive (short_answer seqn)\<rparr>) \<and> m \<le> avail (hmem s') \<and>
    connected (hworld s') \<and> hwpc s = HSelect \<and> dangling_head s' = dangling_head s \<and>
    (\<exists>a. hwpc s' = HLockReceive a \<and> frames (hmem s') a = Some (short_answer seqn))"
proof -
  obtain own as cs prev bs ds where sim: "simulates own as cs prev bs ds s t" using assms(1) by (auto simp: sim_def)
  have ok: "heap_ok (hmem s)" using simulatesD(1) [OF sim] by (simp add: good_heap_def)
  have select: "hwpc s = HSelect" using simulatesD(5) [OF sim] pc by (cases "hwpc s") auto
  let ?evs = "map Data (slip_encode (packet_of [COMMAND_VERSION, seqn, 0]))" and ?stack = "replicate 1500 0 :: u8 list"
  let ?w = "(hworld s)\<lparr>mem := (blank_heap (hmem s))\<lparr>frames := (frames (hmem s))(brk (hmem s) \<mapsto> short_answer seqn)\<rparr>, tty_in := []\<rparr>"
  let ?s' = "s\<lparr>hworld := ?w, hwpc := HLockReceive (brk (hmem s))\<rparr>"
  have "connected ((hworld s)\<lparr>mem := blank_heap (hmem s), tty_in := []\<rparr>)" using conn by simp
  then have read: "read_packet ?stack ?evs s = Some (Inr ?s')"
    using conbee_read_short_answer [of "(hworld s)\<lparr>mem := blank_heap (hmem s), tty_in := []\<rparr>" ?stack "hmem s" seqn] room ok
    by (simp add: read_packet_def conbee_init_frame_cases [OF ok])
  obtain fr where fr: "frames (hmem ?s') (brk (hmem s)) = Some fr" "follows prev bs ?s' (t\<lparr>wpc := WLockReceive fr\<rparr>)"
    using read_simulated [OF sim read] by blast
  have eq: "fr = short_answer seqn" using fr(1) by simp
  have "hworker_step n s (Inr ?s')" using h_read_packet [OF select _ read] by simp
  moreover have "dangling_head ?s' = dangling_head s" using follows_dangling [OF sim fr(2)] by simp
  ultimately show ?thesis
    using follows_sim [OF fr(2)] room conn select unfolding eq by (intro exI [of _ ?s']) simp
qed

lemma realised_read:
  assumes real: "realised n dng t" and pc: "wpc t = WSelect"
  shows "realised n dng (t\<lparr>wpc := WLockReceive (short_answer seqn)\<rparr>)"
  unfolding realised_def
proof
  fix m
  obtain s where s: "hreachable n s" "sim s t" "m + 2 \<le> avail (hmem s)" "dangling_head s = dng" "connected (hworld s)"
    using real unfolding realised_def by blast
  from read_matched [OF s(2,3) pc s(5)] obtain s' where s': "hworker_step n s (Inr s')"
    "sim s' (t\<lparr>wpc := WLockReceive (short_answer seqn)\<rparr>)" "m \<le> avail (hmem s')" "connected (hworld s')" "dangling_head s' = dangling_head s"
    by blast
  have "hreachable n s'" using hreachable.hstep [OF s(1)] s'(1) by (auto simp: hsys_step_def)
  then show "\<exists>s. hreachable n s \<and> sim s (t\<lparr>wpc := WLockReceive (short_answer seqn)\<rparr>) \<and> m \<le> avail (hmem s) \<and>
      dangling_head s = dng \<and> connected (hworld s)"
    using s' s(4) by blast
qed

lemma select_pipe_matched:
  assumes "sim s t" and pc: "wpc t = WSelect" "0 < pipe_bytes t"
  shows "hworker_step n s (Inr (s\<lparr>hwpc := HReadPipe\<rparr>)) \<and> hwpc s = HSelect \<and> sim (s\<lparr>hwpc := HReadPipe\<rparr>) (t\<lparr>wpc := WReadPipe\<rparr>) \<and>
    dangling_head (s\<lparr>hwpc := HReadPipe\<rparr>) = dangling_head s"
proof -
  obtain own as cs prev bs ds where sim: "simulates own as cs prev bs ds s t" using assms(1) by (auto simp: sim_def)
  have select: "hwpc s = HSelect" using simulatesD(5) [OF sim] pc by (cases "hwpc s") auto
  have "pipe_data (hworld s) \<noteq> []" using simulatesD(13) [OF sim] pc(2) by auto
  then have "hworker_step n s (Inr (s\<lparr>hwpc := HReadPipe\<rparr>))" by (rule h_select_pipe [OF select])
  moreover have "sim (s\<lparr>hwpc := HReadPipe\<rparr>) (t\<lparr>wpc := WReadPipe\<rparr>)"
    by (rule follows_sim [OF followsI [OF simulates_hwpc [OF sim]]]) simp
  moreover have "dangling_head (s\<lparr>hwpc := HReadPipe\<rparr>) = dangling_head s"
    by (cases "items (hmem s) (head (hrecvq s))") (simp_all add: dangling_head_def)
  ultimately show ?thesis using select by blast
qed

lemma realised_select_pipe:
  assumes real: "realised n dng t" and pc: "wpc t = WSelect" "0 < pipe_bytes t"
  shows "realised n dng (t\<lparr>wpc := WReadPipe\<rparr>)"
  unfolding realised_def
proof
  fix m
  obtain s where s: "hreachable n s" "sim s t" "m \<le> avail (hmem s)" "dangling_head s = dng" "connected (hworld s)"
    using real unfolding realised_def by blast
  note match = select_pipe_matched [OF s(2) pc, of n]
  then have "hreachable n (s\<lparr>hwpc := HReadPipe\<rparr>)"
    using hreachable.hstep [OF s(1)] by (auto simp: hsys_step_def)
  then show "\<exists>s. hreachable n s \<and> sim s (t\<lparr>wpc := WReadPipe\<rparr>) \<and> m \<le> avail (hmem s) \<and> dangling_head s = dng \<and> connected (hworld s)"
    using s(3-5) match by (intro exI [of _ "s\<lparr>hwpc := HReadPipe\<rparr>"]) simp
qed

subsection \<open>Two callers, two answers\<close>

text \<open>A caller alone, from the idle state to the wait; the worker alone, sending a frame and receiving an answer.\<close>

lemma realised_enqueue:
  assumes "realised n dng t" and "i < n" and "cpc (callers t i) = CDone" and "owner t = (\<lambda>_. None)" and "pipe_bytes t + 2 \<le> pipe_capacity"
  shows "\<exists>t'. realised n dng t' \<and> owner t' = (\<lambda>_. None) \<and> sequence t' = sequence t + 1 \<and>
    sendq t' = sendq t @ [(request_header ReadFirmware)\<lparr>sequence_number := sequence t\<rparr>] \<and> recvq t' = recvq t \<and>
    pipe_bytes t' = pipe_bytes t + 2 \<and> wpc t' = wpc t \<and> (\<forall>j. j \<noteq> i \<longrightarrow> callers t' j = callers t j) \<and>
    cpc (callers t' i) = CLockReceive \<and> cseq (callers t' i) = sequence t \<and> ccmd (callers t' i) = cmd \<and> cfound (callers t' i) = None"
proof -
  note r1 = realised_next [OF assms(1-3), where cmd = cmd, simplified state_ops, simplified]
  note r2 = realised_caller [OF r1 assms(2) lock_sequence, simplified state_ops assms(4), simplified]
  note r3 = realised_caller [OF r2 assms(2) read_sequence, simplified state_ops, simplified]
  note r4 = realised_caller [OF r3 assms(2) inc_sequence, simplified state_ops, simplified]
  note r5 = realised_caller [OF r4 assms(2) unlock_sequence, simplified state_ops, simplified all_free, simplified]
  note r6 = realised_caller [OF r5 assms(2) stamp, simplified state_ops, simplified]
  note r7 = realised_caller [OF r6 assms(2) lock_send, simplified state_ops, simplified]
  note r8 = realised_caller [OF r7 assms(2) push, simplified state_ops, simplified]
  note r9 = realised_caller [OF r8 assms(2) unlock_send, simplified state_ops, simplified all_free, simplified]
  note r10 = realised_caller [OF r9 assms(2) lock_pipe, simplified state_ops, simplified]
  note r11 = realised_caller [OF r10 assms(2) write_pipe, simplified state_ops, simplified]
  note r12 = realised_caller [OF r11 assms(2) unlock_pipe, simplified state_ops, simplified all_free, simplified]
  show ?thesis by (intro exI conjI, rule r12) (use assms(5) in \<open>simp_all add: assms(4)\<close>)
qed

lemma realised_transmit:
  assumes "realised n dng t" and "wpc t = WSelect" and "owner t = (\<lambda>_. None)" and "0 < pipe_bytes t" and "sendq t = fr # rest"
  shows "\<exists>t'. realised n dng t' \<and> owner t' = (\<lambda>_. None) \<and> sequence t' = sequence t \<and> sendq t' = rest \<and> recvq t' = recvq t \<and>
    pipe_bytes t' = pipe_bytes t - 2 \<and> wpc t' = WSelect \<and> callers t' = callers t"
proof -
  note r1 = realised_select_pipe [OF assms(1,2,4)]
  note r2 = realised_worker [OF r1 wread_pipe, simplified assms(4), simplified]
  note r3 = realised_worker [OF r2 wlock_send, simplified state_ops assms(3), simplified]
  note r4 = realised_worker [OF r3 wpop, simplified state_ops assms(5), simplified]
  note r5 = realised_worker [OF r4 wunlock_send [where fr = "Some fr"], simplified state_ops, simplified all_free, simplified]
  note r6 = realised_worker [OF r5 wwrite [where fr = "Some fr"], simplified state_ops, simplified]
  show ?thesis by (intro exI conjI, rule r6) (simp_all add: assms)
qed

lemma realised_answer:
  assumes "realised n dng t" and "wpc t = WSelect" and "owner t = (\<lambda>_. None)" and "\<forall>i<n. cpc (callers t i) \<noteq> CSleep"
  shows "\<exists>t'. realised n dng t' \<and> owner t' = (\<lambda>_. None) \<and> sequence t' = sequence t \<and> sendq t' = sendq t \<and>
    recvq t' = recvq t @ [short_answer k] \<and> pipe_bytes t' = pipe_bytes t \<and> wpc t' = WSelect \<and> callers t' = callers t"
proof -
  note r1 = realised_read [OF assms(1,2), where seqn = k]
  note r2 = realised_worker [OF r1 wlock_receive [where fr = "short_answer k"], simplified state_ops assms(3), simplified]
  note r3 = realised_worker [OF r2 wpush [where fr = "short_answer k"], simplified]
  note r4 = realised_worker [OF r3 wsignal_nobody, simplified, simplified assms(4), simplified]
  note r5 = realised_worker [OF r4 wunlock_receive, simplified state_ops, simplified all_free, simplified]
  show ?thesis by (intro exI conjI, rule r5) (use assms(4) in \<open>simp_all add: assms(3)\<close>)
qed

definition hstart_state :: "nat \<Rightarrow> hsystem" where
  "hstart_state m = \<lparr>howner = (\<lambda>_. None), hworld = idle_world m,
     hcallers = (\<lambda>_. \<lparr>hpc = CDone, hframe = NULL, hseq = 0, hcmd = 0, hfound = None\<rparr>), hwpc = HSelect\<rparr>"

lemma payloads_init_heap [simp]: "payloads_ok (init_heap n k)"
  by (simp add: payloads_ok_def)

lemma hstart_state_ok: "hinitial (hstart_state m)" "sim (hstart_state m) (quiet_system fr)" "\<not> dangling_head (hstart_state m)"
  "connected (hworld (hstart_state m))" "avail (hmem (hstart_state m)) = m"
proof -
  show "hinitial (hstart_state m)"
    by (simp add: hinitial_def hstart_state_def idle_world_def roomy_def sizeof_ptr_def)
  have "simulates Map.empty [] [] NULL [] [] (hstart_state m) (quiet_system fr)"
    by (simp add: simulates_def hstart_state_def quiet_system_def idle_world_def good_heap_def links_def send_held_def receive_held_def
        same_caller_def request_held_def found_held_def conbee_queue_init_def roomy_def sizeof_ptr_def)
  then show "sim (hstart_state m) (quiet_system fr)" by (rule follows_sim [OF followsI])
qed (simp_all add: hstart_state_def idle_world_def dangling_head_def conbee_queue_init_def connected_def conbee_const)

lemma realised_start: "realised n False (quiet_system fr)"
  unfolding realised_def
proof
  fix m
  show "\<exists>s. hreachable n s \<and> sim s (quiet_system fr) \<and> m \<le> avail (hmem s) \<and> dangling_head s = False \<and> connected (hworld s)"
    using hstart_state_ok(1,3-5) [of m] hstart_state_ok(2) [of m fr] hreachable.hstart by (intro exI [of _ "hstart_state m"]) simp
qed

lemma realised_two_answers:
  "\<exists>t. realised 2 False t \<and> owner t = (\<lambda>_. None) \<and> recvq t = [short_answer 0, short_answer 1] \<and>
    (\<forall>i<2. cpc (callers t i) = CLockReceive \<and> cseq (callers t i) = word_of_nat i \<and> ccmd (callers t i) = COMMAND_VERSION \<and>
       cfound (callers t i) = None)"
proof -
  let ?q = "quiet_system blank_frame"
  have q: "cpc (callers ?q i) = CDone" "owner ?q = (\<lambda>_. None)" "pipe_bytes ?q = 0" "wpc ?q = WSelect" "sendq ?q = []" "recvq ?q = []" "sequence ?q = 0" for i
    by (simp_all add: quiet_system_def)
  obtain t1 where t1: "realised 2 False t1" "owner t1 = (\<lambda>_. None)" "sequence t1 = 1" "length (sendq t1) = 1" "recvq t1 = []" "pipe_bytes t1 = 2"
    "wpc t1 = WSelect" "cpc (callers t1 1) = CDone" "cpc (callers t1 0) = CLockReceive" "cseq (callers t1 0) = 0" "ccmd (callers t1 0) = COMMAND_VERSION"
    "cfound (callers t1 0) = None"
    using realised_enqueue [OF realised_start _ q(1,2), where i = 0 and n = 2 and cmd = COMMAND_VERSION] q by auto
  obtain t2 where t2: "realised 2 False t2" "owner t2 = (\<lambda>_. None)" "length (sendq t2) = 2" "recvq t2 = []" "pipe_bytes t2 = 4"
    "wpc t2 = WSelect" "callers t2 0 = callers t1 0" "cpc (callers t2 1) = CLockReceive" "cseq (callers t2 1) = 1"
    "ccmd (callers t2 1) = COMMAND_VERSION" "cfound (callers t2 1) = None"
    using realised_enqueue [OF t1(1) _ t1(8,2), where cmd = COMMAND_VERSION] t1 by auto
  obtain f g where fg: "sendq t2 = [f, g]" using t2(3) by (auto simp: numeral_2_eq_2 length_Suc_conv)
  obtain t3 where t3: "realised 2 False t3" "owner t3 = (\<lambda>_. None)" "sendq t3 = [g]" "recvq t3 = []" "pipe_bytes t3 = 2" "wpc t3 = WSelect"
    "callers t3 = callers t2"
    using realised_transmit [OF t2(1,6,2) _ fg] t2 by auto
  obtain t4 where t4: "realised 2 False t4" "owner t4 = (\<lambda>_. None)" "recvq t4 = []" "wpc t4 = WSelect" "callers t4 = callers t2"
    using realised_transmit [OF t3(1,6,2) _ t3(3)] t3 by auto
  have awake: "\<forall>i<2. cpc (callers t2 i) \<noteq> CSleep" using t2 t1 by (auto simp: less_2_cases_iff)
  obtain t5 where t5: "realised 2 False t5" "owner t5 = (\<lambda>_. None)" "recvq t5 = [short_answer 0]" "wpc t5 = WSelect" "callers t5 = callers t2"
    using realised_answer [OF t4(1,4,2), of 0] t4 awake by auto
  obtain t6 where "realised 2 False t6" "owner t6 = (\<lambda>_. None)" "recvq t6 = [short_answer 0, short_answer 1]" "callers t6 = callers t2"
    using realised_answer [OF t5(1,4,2), of 1] t5 awake by auto
  then show ?thesis using t2 t1 by (intro exI [of _ t6]) (auto simp: less_2_cases_iff)
qed

text \<open>The first caller takes its answer and gives the mutex back; the second comes to the scan.\<close>

lemma realised_second_scan:
  "\<exists>t. realised 2 True t \<and> recvq t = [short_answer 1] \<and> cpc (callers t 1) = CScan \<and> cseq (callers t 1) = 1 \<and>
    ccmd (callers t 1) = COMMAND_VERSION \<and> cfound (callers t 1) = None \<and> cpc (callers t 0) = CDone"
proof -
  obtain t where t: "realised 2 False t" "owner t = (\<lambda>_. None)" "recvq t = [short_answer 0, short_answer 1]"
    "cpc (callers t 0) = CLockReceive" "cseq (callers t 0) = 0" "ccmd (callers t 0) = COMMAND_VERSION"
    "cpc (callers t 1) = CLockReceive" "cseq (callers t 1) = 1" "ccmd (callers t 1) = COMMAND_VERSION" "cfound (callers t 1) = None"
    using realised_two_answers by (auto simp: less_2_cases_iff)
  have wanted: "wanted 0 COMMAND_VERSION (short_answer 0)" by (simp add: wanted_def short_answer_def)
  have i: "(0 :: nat) < 2" "Suc 0 < 2" by simp_all
  note now = t(2-) [unfolded One_nat_def] wanted
  note r1 = realised_caller [OF t(1) i(1) lock_receive, simplified state_ops, simplified now, simplified]
  note r2 = realised_caller [OF r1 i(1) scan_found [where fr = "short_answer 0" and rest = "[short_answer 1]"], simplified state_ops, simplified now, simplified]
  note r3 = realised_caller [OF r2 i(1) unlock_receive, simplified state_ops, simplified all_free now, simplified]
  note r4 = realised_caller [OF r3 i(2) lock_receive, simplified state_ops, simplified now, simplified]
  show ?thesis by (intro exI conjI, rule r4) (simp_all add: now)
qed

text \<open>The use after free.\<close>

lemma second_scan_undefined:
  "\<exists>s. hreachable 2 s \<and> m \<le> avail (hmem s) \<and> dangling_head s \<and> hcaller_step 1 s (Inl UseAfterFree) \<and> hpc (hcallers s 0) = CDone"
proof -
  obtain t where t: "realised 2 True t" "recvq t = [short_answer 1]" "cpc (callers t 1) = CScan" "cseq (callers t 1) = 1"
    "ccmd (callers t 1) = COMMAND_VERSION" "cfound (callers t 1) = None" "cpc (callers t 0) = CDone"
    using realised_second_scan by blast
  obtain s where s: "hreachable 2 s" "sim s t" "m \<le> avail (hmem s)" "dangling_head s" using t(1) unfolding realised_def by blast
  obtain own as cs prev bs ds where sim: "simulates own as cs prev bs ds s t" using s(2) by (auto simp: sim_def)
  have pc: "hpc (hcallers s 1) = CScan" using simulatesD(6) [OF sim, of 1] t(3) by simp
  have step: "hcaller_step 1 s (scan_head 1 s)" by (rule h_scan [OF pc])
  have "scan_head 1 s \<noteq> Inr s'" if c: "caller_step 1 t t'" and f: "follows prev bs s' t'" for s' t'
  proof
    assume found: "scan_head 1 s = Inr s'"
    have "wanted 1 COMMAND_VERSION (short_answer 1)" by (simp add: wanted_def short_answer_def)
    then have "cfound (callers t' 1) \<noteq> None"
      using c t by (auto elim!: caller_stepE simp: state_ops)
    moreover obtain own' as' cs' prev' bs' ds' where "simulates own' as' cs' prev' bs' ds' s' t'" using follows_sim [OF f] unfolding sim_def by blast
    then have "(hfound (hcallers s' 1) = None) = (cfound (callers t' 1) = None)"
      using simulatesD(10) [of own' as' cs' prev' bs' ds' s' t' 1] by (simp add: found_held_def)
    moreover have "hfound (hcallers s 1) = None" using simulatesD(10) [OF sim, of 1] t(6) by (simp add: found_held_def)
    moreover have "hfound (hcallers s' 1) = None \<or> hfound (hcallers s' 1) = hfound (hcallers s 1)"
      by (rule dangling_no_response [OF s(2,4), of 2]) (use step found in \<open>auto simp: hsys_step_def\<close>)
    ultimately show False by simp
  qed
  then have "scan_head 1 s = Inl UseAfterFree" using scan_simulated [OF sim pc] by blast
  then show ?thesis using s step simulatesD(6) [OF sim, of 0] t(7) by auto
qed

subsection \<open>Properties\<close>

text \<open>C3: Every state that the threads reach on the heap, with linked queues, allocation and freeing, shows a state that
  the threads of \<open>Threads\<close> reach with lists of frames: the two queues hold the same frames in the same order and no frame twice,
  every caller is at the same statement with the same sequence number and response. So what is proved of the
  interleaved system, exclusion, distinct numbers, order, holds of the pointers as long as no step was undefined.\<close>

theorem heap_threads_refine_lists:
  assumes "hreachable n s"
  shows "\<exists>t. reachable n t \<and> heap_shows s t"
  using hreachable_sim [OF assms] sim_shows by blast

text \<open>C6: Where the threads can run into undefined behaviour: when memory has run out, while the worker takes a packet apart,
  and when a caller takes out the first item of the receive queue after the item before it has been taken
  out. Everything else is defined in every interleaving: no frame is freed twice or used
  after it was freed, the send queue never has a bad pointer, and every request fits the buffer it is laid out in.\<close>

theorem undefined_steps_of_threads:
  assumes "hreachable n s" and "hsys_step n s (Inl e)"
  shows "avail (hmem s) < 2 \<or> hwpc s = HSelect \<and> (\<exists>stack evs. read_packet stack evs s = Some (Inl e)) \<or>
    e = UseAfterFree \<and> dangling_head s \<and> (\<exists>i<n. hpc (hcallers s i) = CScan)"
proof -
  obtain t own as cs prev bs ds where sim: "simulates own as cs prev bs ds s t"
    using hreachable_sim [OF assms(1)] by (auto simp: sim_def)
  show ?thesis
    using assms(2) caller_simulated [OF sim] worker_simulated [OF sim] simulates_dangling [OF sim]
    by (auto simp: hsys_step_def) blast+
qed

text \<open>C22: Once a response has been taken out of the receive queue while another frame was behind it, no caller ever gets a
  response again: in every further run the dangling pointer stays at the front of the queue, whatever else arrives,
  and the only way to take that frame is a use after free.\<close>

theorem leftover_frame_ends_reception:
  assumes "hreachable n s" and "dangling_head s" and "(\<lambda>u v. hsys_step n u (Inr v))\<^sup>*\<^sup>* s s'"
  shows "dangling_head s' \<and> (\<forall>i. hfound (hcallers s' i) = None \<or> hfound (hcallers s' i) = hfound (hcallers s i))"
proof -
  obtain t where t: "sim s t" using hreachable_sim [OF assms(1)] by blast
  have "\<exists>t'. sim s' t' \<and> dangling_head s' \<and> (\<forall>i. hfound (hcallers s' i) = None \<or> hfound (hcallers s' i) = hfound (hcallers s i))"
    using assms(3)
  proof (induction rule: rtranclp_induct)
    case base
    then show ?case using t assms(2) by blast
  next
    case (step u v)
    then obtain t' where t': "sim u t'" "dangling_head u" "\<forall>i. hfound (hcallers u i) = None \<or> hfound (hcallers u i) = hfound (hcallers s i)"
      by blast
    then show ?case
      using dangling_step [OF t'(1,2) step.hyps(2)] dangling_no_response [OF t'(1,2) step.hyps(2)] by metis
  qed
  then show ?thesis by blast
qed


theorem heap_threads_refine_lists_witness:
  "\<exists>s t. hreachable 2 s \<and> reachable 2 t \<and> heap_shows s t"
proof -
  obtain s where "hreachable 2 s" using realised_second_scan unfolding realised_def by blast
  then show ?thesis using heap_threads_refine_lists by blast
qed

text \<open>C21: The use after free happens. Two callers ask for the firmware version, the worker sends both requests and queues both answers,
  the first caller takes its own; however much memory is left, the second caller's look at the queue, which finds
  its answer at the head, then writes to the item the first has freed.\<close>

theorem second_answer_use_after_free:
  "\<exists>s. hreachable 2 s \<and> m \<le> avail (hmem s) \<and> dangling_head s \<and> hcaller_step 1 s (Inl UseAfterFree)"
  using second_scan_undefined by blast

theorem undefined_steps_of_threads_witness:
  "\<exists>s. hreachable 2 s \<and> hsys_step 2 s (Inl UseAfterFree) \<and> (hwpc s = HSelect \<or> dangling_head s \<and> (\<exists>i<2. hpc (hcallers s i) = CScan))"
proof -
  obtain s where s: "hreachable 2 s" "2 \<le> avail (hmem s)" "hcaller_step 1 s (Inl UseAfterFree)"
    using second_scan_undefined [of 2] by blast
  then have "hsys_step 2 s (Inl UseAfterFree)" by (auto simp: hsys_step_def)
  then show ?thesis using undefined_steps_of_threads [OF s(1)] s by fastforce
qed

theorem leftover_frame_ends_reception_witness:
  "\<exists>s s'. hreachable 2 s \<and> hsys_step 2 s (Inr s') \<and> hpc (hcallers s 0) = CDone \<and> hpc (hcallers s' 0) = CLockSequence \<and> dangling_head s'"
proof -
  obtain s where s: "hreachable 2 s" "2 \<le> avail (hmem s)" "dangling_head s" "hpc (hcallers s 0) = CDone"
    using second_scan_undefined [of 2] by blast
  obtain t where "sim s t" using hreachable_sim [OF s(1)] by blast
  then obtain own as cs prev bs ds where sim: "simulates own as cs prev bs ds s t" by (auto simp: sim_def)
  obtain s' where s': "next_exchange 0 False ReadFirmware COMMAND_VERSION s = Inr s'"
    using next_simulated [OF sim, of ReadFirmware 0 False COMMAND_VERSION] s(2) by auto
  then have step: "hsys_step 2 s (Inr s')"
    using h_next [OF s(4), of ReadFirmware False COMMAND_VERSION] by (auto simp: hsys_step_def)
  have "hpc (hcallers s' 0) = CLockSequence"
    using s' by (auto simp: next_exchange_def bindE_eq_Inr hstate_ops)
  then show ?thesis
    using leftover_frame_ends_reception [OF s(1,3) r_into_rtranclp, where s' = s'] step s by blast
qed

end
