(* ===== verification/Single_Caller.thy ===== *)
theory Single_Caller
  imports Interleaving
begin

text \<open>
  What the library does for one caller at a time and a stick that answers every request once and says
  nothing else: the environment \<open>src/conbee-functions.c\<close> is written for. The threads are those of \<open>Threads\<close>;
  only the frames the stick may deliver are restricted. In this environment no scan meets a foreign frame, and an
  exchange ends after a number of steps bounded by the wake-ups without a signal it meets, with its answer or in a
  lost wake-up.
\<close>

subsection \<open>The caller, the worker and the stick\<close>

text \<open>The answer to a request has its sequence number and its command.\<close>

definition answers :: "conbee_frame \<Rightarrow> conbee_frame \<Rightarrow> bool" where
  "answers req fr \<longleftrightarrow> sequence_number fr = sequence_number req \<and> command fr = command req"

text \<open>
  The steps of an exchange, with the number of answers the stick has given so far. The stick answers a
  request that has been sent, in the order in which they were sent. The start of the next exchange is no step of
  this one. The wake-up without a signal, which \<open>caller_step\<close> allows as well, needs nobody to do anything: it is kept
  apart from the steps that bring the exchange on, as a step of \<open>alone\<close> and of the runs \<open>lone_run\<close> below.
\<close>

inductive exchange_step :: "nat \<times> system \<Rightarrow> nat \<times> system \<Rightarrow> bool" where
  by_caller: "caller_step 0 s s' \<Longrightarrow> cpc (callers s 0) \<notin> {CDone, CSleep} \<Longrightarrow> exchange_step (k, s) (k, s')"
| by_worker: "worker_step 1 s s' \<Longrightarrow> wpc s \<noteq> WSelect \<or> wpc s' = WReadPipe \<Longrightarrow> exchange_step (k, s) (k, s')"
| by_stick: "wpc s = WSelect \<Longrightarrow> k < length (sent s) \<Longrightarrow> answers (sent s ! k) fr \<Longrightarrow>
     exchange_step (k, s) (Suc k, s\<lparr>wpc := WLockReceive fr\<rparr>)"

text \<open>The next exchange: every function of \<open>conbee-functions.c\<close> waits for the command it has put into its request.\<close>

definition new_call :: "conbee_frame \<Rightarrow> system \<Rightarrow> system" where
  "new_call fr s = upd_caller 0 (\<lambda>c. \<lparr>cpc = CLockSequence, cframe = fr, cseq = cseq c, ccmd = command fr, cfound = None\<rparr>) s"

inductive alone :: "nat \<times> system \<Rightarrow> bool" where
  alone_start: "initial s \<Longrightarrow> cfound (callers s 0) = None \<Longrightarrow> alone (0, s)"
| alone_call: "alone (k, s) \<Longrightarrow> cpc (callers s 0) = CDone \<Longrightarrow> alone (k, new_call fr s)"
| alone_step: "alone x \<Longrightarrow> exchange_step x y \<Longrightarrow> alone y"
| alone_wake: "alone (k, s) \<Longrightarrow> cpc (callers s 0) = CSleep \<Longrightarrow> alone (k, goto 0 CWoken s)"

inductive_cases exchange_stepE: "exchange_step (k, s) y"

lemma alone_induct [consumes 1, case_names start call step wake]:
  assumes "alone (k, s)"
    and "\<And>s. initial s \<Longrightarrow> cfound (callers s 0) = None \<Longrightarrow> P 0 s"
    and "\<And>k s fr. alone (k, s) \<Longrightarrow> P k s \<Longrightarrow> cpc (callers s 0) = CDone \<Longrightarrow> P k (new_call fr s)"
    and "\<And>k s k' s'. alone (k, s) \<Longrightarrow> P k s \<Longrightarrow> exchange_step (k, s) (k', s') \<Longrightarrow> P k' s'"
    and "\<And>k s. alone (k, s) \<Longrightarrow> P k s \<Longrightarrow> cpc (callers s 0) = CSleep \<Longrightarrow> P k (goto 0 CWoken s)"
  shows "P k s"
  using assms(1) by (induction "(k, s)" arbitrary: k s rule: alone.induct) (use assms(2-5) in \<open>auto split: prod.splits\<close>)

lemma exchange_is_step: "exchange_step (k, s) (k', s') \<Longrightarrow> sys_step 1 s s'"
  by (auto simp: sys_step_def elim!: exchange_stepE intro: select_tty)

lemma alone_reachable: "alone (k, s) \<Longrightarrow> reachable 1 s"
proof (induction rule: alone_induct)
  case (call k s fr)
  have "caller_step 0 s (new_call fr s)" unfolding new_call_def by (rule next_request [OF call.hyps(2)])
  with call.IH show ?case by (blast intro: reachable_caller)
next
  case (wake k s)
  then show ?case using spurious [OF wake.hyps(2)] by (blast intro: reachable_caller)
next
  case (step k s k' s')
  then show ?case using exchange_is_step reachable.step by blast
qed (rule reachable.start)

subsection \<open>At most one answer is on its way\<close>

definition preparing :: "caller_pc set" where
  "preparing = {CLockSequence, CReadSequence, CIncSequence, CUnlockSequence, CStamp, CLockSend, CPush}"

fun arriving :: "worker_pc \<Rightarrow> conbee_frame list" where
  "arriving (WLockReceive fr) = [fr]"
| "arriving (WPush fr) = [fr]"
| "arriving _ = []"

definition awaited :: "caller \<Rightarrow> conbee_frame \<Rightarrow> bool" where
  "awaited c fr \<longleftrightarrow> sequence_number fr = cseq c \<and> command fr = ccmd c"

text \<open>
  \<open>got\<close> is what has come from the stick and is not taken out yet: nothing before the request is pushed and after
  the answer has been taken; in between the stick still owes the answer or it is there.
\<close>

definition alone_inv :: "nat \<Rightarrow> system \<Rightarrow> bool" where
  "alone_inv k s \<longleftrightarrow> (let c = callers s 0; got = recvq s @ arriving (wpc s) in
     k \<le> length (sent s) \<and>
     (if cpc c \<in> preparing
      then length (pushed s) = k \<and> got = [] \<and> cfound c = None \<and> command (cframe c) = ccmd c \<and>
        (cpc c \<in> {CLockSend, CPush} \<longrightarrow> sequence_number (cframe c) = cseq c)
      else if cpc c = CDone \<or> cfound c \<noteq> None
      then length (pushed s) = k \<and> got = [] \<and> cpc c \<in> {CDone, CUnlockReceive} \<and> (\<forall>fr. cfound c = Some fr \<longrightarrow> awaited c fr)
      else length (pushed s) = Suc k \<and> got = [] \<and> awaited c (last (pushed s)) \<or>
        length (pushed s) = k \<and> (\<exists>fr. got = [fr] \<and> awaited c fr)))"

lemma alone_inv_caller:
  assumes "caller_step 0 s s'" and "cpc (callers s 0) \<noteq> CDone" and "alone_inv k s"
  shows "alone_inv k s'"
  using assms by (elim caller_stepE) (auto simp: alone_inv_def state_ops preparing_def awaited_def wanted_def Let_def split: if_splits)

lemma alone_inv_worker:
  assumes "worker_step 1 s s'" and "wpc s \<noteq> WSelect \<or> wpc s' = WReadPipe" and "alone_inv k s"
  shows "alone_inv k s'"
  using assms by (elim worker_stepE)
    (auto simp: alone_inv_def state_ops preparing_def awaited_def Let_def split: if_splits option.splits list.splits)

text \<open>What is pushed and not sent is at most the last request.\<close>

lemma token_sent: "token_inv n s \<Longrightarrow> \<exists>rest. pushed s = sent s @ rest"
  by (auto simp: token_inv_def)

lemma owed_answer:
  assumes "k < length (sent s)" and "token_inv 1 s" and "alone_inv k s"
  shows "awaited (callers s 0) (sent s ! k) \<and> cpc (callers s 0) \<notin> insert CDone preparing \<and> cfound (callers s 0) = None \<and>
    length (pushed s) = Suc k \<and> recvq s = []"
proof -
  obtain rest where rest: "pushed s = sent s @ rest" using token_sent assms(2) by blast
  then have more: "k < length (pushed s)" using assms(1) by simp
  let ?c = "callers s 0"
  have pc: "cpc ?c \<notin> insert CDone preparing \<and> cfound ?c = None \<and> length (pushed s) = Suc k \<and> recvq s = []"
    "awaited ?c (last (pushed s))"
    using assms(3) more by (auto simp: alone_inv_def Let_def split: if_splits)
  have "rest = []" using pc(1) rest assms(1) by (cases rest) auto
  then have "last (pushed s) = sent s ! k" using pc(1) rest by (cases "sent s" rule: rev_cases) auto
  then show ?thesis using pc by simp
qed

lemma alone_inv_stick:
  assumes "k < length (sent s)" and "answers (sent s ! k) fr" and "wpc s = WSelect" and "token_inv 1 s" and "alone_inv k s"
  shows "alone_inv (Suc k) (s\<lparr>wpc := WLockReceive fr\<rparr>)"
  using owed_answer [OF assms(1,4,5)] assms(1,2) by (auto simp: alone_inv_def awaited_def answers_def)

lemma alone_alone_inv: "alone (k, s) \<Longrightarrow> alone_inv k s"
proof (induction rule: alone_induct)
  case (start s)
  then show ?case by (simp add: alone_inv_def initial_def preparing_def)
next
  case (call k s fr)
  then show ?case by (auto simp: alone_inv_def new_call_def state_ops preparing_def Let_def split: if_splits)
next
  case (step k s k' s')
  have "token_inv 1 s" by (rule reachable_token_inv [OF alone_reachable [OF step.hyps(1)]])
  with step show ?case
    by (auto elim!: exchange_stepE intro: alone_inv_caller alone_inv_worker alone_inv_stick)
next
  case (wake k s)
  then show ?case by (auto simp: alone_inv_def state_ops preparing_def awaited_def Let_def split: if_splits)
qed

subsection \<open>Every step brings the exchange nearer to its end\<close>

text \<open>
  The work left. A statement of the caller counts one, with what the steps it makes possible will take put in front:
  a frame in the queue stands for its way over the line (35), two bytes in the pipe for
  the turn they start (8), a request on the line for its answer (30), and an answer
  that is about to be queued for the wake-up of the caller.
\<close>

fun caller_work :: "caller_pc \<Rightarrow> nat" where
  "caller_work CLockSequence = 75" | "caller_work CReadSequence = 74" | "caller_work CIncSequence = 73"
| "caller_work CUnlockSequence = 72" | "caller_work CStamp = 71" | "caller_work CLockSend = 70" | "caller_work CPush = 69"
| "caller_work CUnlockSend = 33" | "caller_work CLockPipe = 32" | "caller_work CWritePipe = 31" | "caller_work CUnlockPipe = 20"
| "caller_work CLockReceive = 7" | "caller_work CWoken = 6" | "caller_work CScan = 5" | "caller_work CUnlockReceive = 4"
| "caller_work CRelock = 3" | "caller_work CCondWait = 2" | "caller_work CSleep = 1" | "caller_work CDone = 0"

fun worker_work :: "worker_pc \<Rightarrow> nat" where
  "worker_work WSelect = 5" | "worker_work (WLockReceive fr) = 34" | "worker_work (WPush fr) = 33" | "worker_work WSignal = 32"
| "worker_work WUnlockReceive = 20" | "worker_work WReadPipe = 4" | "worker_work WLockSend = 11" | "worker_work WPop = 10"
| "worker_work (WUnlockSend fr) = 9" | "worker_work (WWrite fr) = 8"

definition work :: "nat \<Rightarrow> system \<Rightarrow> nat" where
  "work k s = caller_work (cpc (callers s 0)) + worker_work (wpc s) + 4 * pipe_bytes s +
     35 * (length (pushed s) - length (sent s)) + 30 * (length (sent s) - k)"

text \<open>Only caller 0 ever does anything.\<close>

lemma others_rest: "reachable 1 s \<Longrightarrow> i \<noteq> 0 \<Longrightarrow> cpc (callers s i) = CDone"
proof -
  assume "reachable 1 s" "i \<noteq> 0"
  moreover have "\<forall>i. i \<noteq> 0 \<longrightarrow> cpc (callers s i) = CDone"
  proof (rule reachable_invariant [OF \<open>reachable 1 s\<close>])
    fix s s' assume "\<forall>i. i \<noteq> 0 \<longrightarrow> cpc (callers s i) = CDone" "worker_step 1 s s'"
    then show "\<forall>i. i \<noteq> 0 \<longrightarrow> cpc (callers s' i) = CDone" by (elim worker_stepE) (auto simp: state_ops)
  next
    fix i s s' assume "i < (1::nat)" "\<forall>i. i \<noteq> 0 \<longrightarrow> cpc (callers s i) = CDone" "caller_step i s s'"
    then show "\<forall>i. i \<noteq> 0 \<longrightarrow> cpc (callers s' i) = CDone" using caller_step_others [of i s s'] by simp
  qed (simp add: initial_def)
  ultimately show ?thesis by simp
qed

lemma alone_counts:
  assumes "alone (k, s)"
  shows "k \<le> length (sent s)" "length (sent s) \<le> length (pushed s)" "length (pushed s) \<le> Suc k" "token_inv 1 s" "lock_inv s"
proof -
  have r: "reachable 1 s" by (rule alone_reachable [OF assms])
  show t: "token_inv 1 s" "lock_inv s" by (rule reachable_token_inv [OF r], rule reachable_lock_inv [OF r])
  show "k \<le> length (sent s)" "length (pushed s) \<le> Suc k"
    using alone_alone_inv [OF assms] by (auto simp: alone_inv_def Let_def split: if_splits)
  obtain rest where "pushed s = sent s @ rest" using token_sent [OF t(1)] by blast
  then show "length (sent s) \<le> length (pushed s)" by simp
qed

text \<open>A scan finds nothing or the answer.\<close>

lemma alone_scan:
  assumes "alone (k, s)"
  shows "recvq s = [] \<or> (\<exists>fr. recvq s = [fr] \<and> awaited (callers s 0) fr \<and> cfound (callers s 0) = None)"
  using alone_alone_inv [OF assms] by (auto simp: alone_inv_def Let_def append_eq_Cons_conv split: if_splits)

lemma awaited_wanted: "awaited c fr \<Longrightarrow> wanted (cseq c) (ccmd c) fr"
  by (simp add: awaited_def wanted_def)

lemma work_decreases:
  assumes "alone (k, s)" and "exchange_step (k, s) (k', s')"
  shows "work k' s' < work k s"
  using assms(2)
proof cases
  case by_caller
  note counts = alone_counts [OF assms(1)]
  show ?thesis
    using by_caller(2,3) alone_scan [OF assms(1)] awaited_wanted counts(1-3) unfolding by_caller(1)
    by (elim caller_stepE) (auto simp: work_def state_ops)
next
  case by_worker
  have "even (pipe_bytes s)" by (rule token_inv_even [OF alone_counts(4) [OF assms(1)]])
  then have two: "0 < pipe_bytes s \<Longrightarrow> 2 \<le> pipe_bytes s" by (auto elim: evenE)
  note counts = alone_counts [OF assms(1)]
  show ?thesis
    using by_worker(2,3) two counts(1-3) counts(4) [unfolded token_inv_def] unfolding by_worker(1)
    by (elim worker_stepE) (auto simp: work_def state_ops)
next
  case (by_stick fr)
  then show ?thesis by (simp add: work_def)
qed

subsection \<open>Where an exchange can stop\<close>

text \<open>Whoever holds a mutex can go on: the pipe of a lone caller never fills up.\<close>

lemma alone_pipe_room:
  assumes "alone (k, s)"
  shows "pipe_bytes s \<le> 2"
proof -
  have "2 * length (sendq s) \<ge> pipe_bytes s" "length (sendq s) \<le> length (pushed s) - length (sent s)"
    using alone_counts(4) [OF assms] by (auto simp: token_inv_def)
  then show ?thesis using alone_counts(1,3) [OF assms] by linarith
qed

lemma held_goes_on:
  assumes "alone (k, s)" and "owner s m = Some t"
  shows "\<exists>y. exchange_step (k, s) y"
proof (cases t)
  case Worker
  then have w: "worker_mutex (wpc s) = Some m" using alone_counts(5) [OF assms(1)] assms(2) by (simp add: lock_inv_def)
  then have "wpc s \<noteq> WSelect" by auto
  then show ?thesis using worker_section_steps [OF w] by (blast intro: by_worker)
next
  case (Caller i)
  then have c: "caller_mutex (cpc (callers s i)) = Some m"
    using alone_counts(5) [OF assms(1)] assms(2) by (simp add: lock_inv_def)
  then have "i = 0" using others_rest [OF alone_reachable [OF assms(1)], of i] by (cases "i = 0") auto
  moreover have "cpc (callers s i) \<notin> {CDone, CSleep}" using c by auto
  moreover have "\<exists>s'. caller_step i s s'" using caller_section_steps [OF c] alone_pipe_room [OF assms(1)] by auto
  ultimately show ?thesis by (blast intro: by_caller)
qed

lemma free_worker_goes_on:
  assumes "\<forall>m. owner s m = None" and "wpc s \<noteq> WSelect" and "token_inv 1 s"
  shows "\<exists>y. exchange_step (k, s) y"
proof -
  have "\<exists>s'. worker_step 1 s s'"
  proof (cases "worker_mutex (wpc s)")
    case None
    then show ?thesis
      using assms by (cases "wpc s") (auto simp: token_inv_def intro: wlock_receive wread_pipe wlock_send wwrite)
  qed (rule worker_section_steps)
  then show ?thesis using assms(2) by (blast intro: by_worker)
qed

lemma free_caller_goes_on:
  assumes "\<forall>m. owner s m = None" and "lock_inv s" and "cpc (callers s 0) \<notin> {CDone, CSleep}"
  shows "\<exists>y. exchange_step (k, s) y"
proof -
  have "caller_mutex (cpc (callers s 0)) = None"
    using assms(1) lock_invD [OF assms(2), of "Caller 0"] by (cases "caller_mutex (cpc (callers s 0))") auto
  then have "\<exists>s'. caller_step 0 s s'"
    using assms(1,3) by (cases "cpc (callers s 0)") (auto intro: lock_sequence stamp lock_send lock_pipe lock_receive relock woken)
  then show ?thesis using assms(3) by (blast intro: by_caller)
qed

text \<open>The caller has its answer, or it sleeps and the answer is in the queue.\<close>

definition finished :: "system \<Rightarrow> bool" where
  "finished s \<longleftrightarrow> cpc (callers s 0) = CDone \<and> (\<exists>fr. cfound (callers s 0) = Some fr \<and> awaited (callers s 0) fr)"

definition overslept :: "system \<Rightarrow> bool" where
  "overslept s \<longleftrightarrow> cpc (callers s 0) = CSleep \<and> (\<exists>fr. recvq s = [fr] \<and> awaited (callers s 0) fr)"

lemma stopped_exchange:
  assumes alone: "alone (k, s)" and stop: "\<nexists>y. exchange_step (k, s) y"
  shows "cpc (callers s 0) = CDone \<or> overslept s"
proof -
  note counts = alone_counts [OF alone]
  have free: "\<forall>m. owner s m = None" using held_goes_on [OF alone] stop by (meson not_Some_eq)
  then have w: "wpc s = WSelect" and c: "cpc (callers s 0) \<in> {CDone, CSleep}"
    using stop free_worker_goes_on [OF free _ counts(4)] free_caller_goes_on [OF free counts(5)] by blast+
  have "pipe_bytes s = 0" using stop by_worker [OF select_pipe [OF w]] by fastforce
  moreover have "k = length (sent s)"
    using stop by_stick [OF w, of k "sent s ! k"] counts(1) by (cases "k < length (sent s)") (auto simp: answers_def)
  ultimately show ?thesis
    using c counts(4) alone_alone_inv [OF alone] w
    by (auto simp: overslept_def alone_inv_def token_inv_def taken_def unannounced_def preparing_def Let_def split: if_splits)
qed

text \<open>What stays the same during an exchange: the command awaited, and that nobody is done without an answer.\<close>

lemma exchange_keeps:
  assumes "exchange_step (k, s) (k', s')" and "cpc (callers s 0) = CDone \<longrightarrow> cfound (callers s 0) \<noteq> None"
  shows "ccmd (callers s' 0) = ccmd (callers s 0) \<and> (cpc (callers s' 0) = CDone \<longrightarrow> cfound (callers s' 0) \<noteq> None)"
  using assms(1)
proof cases
  case by_caller
  then show ?thesis by (elim caller_stepE) (auto simp: state_ops split: if_splits)
next
  case by_worker
  then show ?thesis using assms(2) by (elim worker_stepE) (auto simp: state_ops split: if_splits)
qed (use assms(2) in simp)

lemma exchange_run:
  assumes "(exchange_step ^^ n) (k, s) (k', s')" and "alone (k, s)" and "cpc (callers s 0) = CDone \<longrightarrow> cfound (callers s 0) \<noteq> None"
  shows "alone (k', s') \<and> work k' s' + n \<le> work k s \<and> ccmd (callers s' 0) = ccmd (callers s 0) \<and>
    (cpc (callers s' 0) = CDone \<longrightarrow> cfound (callers s' 0) \<noteq> None)"
  using assms(1)
proof (induction n arbitrary: k' s')
  case 0
  then show ?case using assms by simp
next
  case (Suc n)
  then obtain l u where u: "(exchange_step ^^ n) (k, s) (l, u)" "exchange_step (l, u) (k', s')" by auto
  from Suc.IH [OF u(1)] show ?case
    using work_decreases [of l u, OF _ u(2)] exchange_keeps [OF u(2)] alone_step [OF _ u(2)] by fastforce
qed

text \<open>
  The runs of one exchange with everything that may happen in them: \<open>n\<close> steps, \<open>w\<close> of which are wake-ups
  without a signal. A sleeping caller may wake up at any time and as often as it goes to sleep again.
\<close>

inductive lone_run :: "nat \<Rightarrow> nat \<Rightarrow> nat \<times> system \<Rightarrow> nat \<times> system \<Rightarrow> bool" where
  run_none: "lone_run 0 0 x x"
| run_step: "lone_run n w x y \<Longrightarrow> exchange_step y z \<Longrightarrow> lone_run (Suc n) w x z"
| run_wake: "lone_run n w x (k, s) \<Longrightarrow> cpc (callers s 0) = CSleep \<Longrightarrow> lone_run (Suc n) (Suc w) x (k, goto 0 CWoken s)"

lemma lone_run_more: "lone_run n w x y \<Longrightarrow> (exchange_step ^^ m) y z \<Longrightarrow> lone_run (m + n) w x z"
  by (induction m arbitrary: z) (auto intro: run_step)

lemma wake_work: "cpc (callers s 0) = CSleep \<Longrightarrow> work k (goto 0 CWoken s) = work k s + 5"
  by (simp add: work_def state_ops)

lemma lone_run_bounded:
  assumes "lone_run n w x y" and "alone x" and "cpc (callers (snd x) 0) = CDone \<longrightarrow> cfound (callers (snd x) 0) \<noteq> None"
  shows "alone y \<and> work (fst y) (snd y) + n \<le> work (fst x) (snd x) + 6 * w \<and>
    ccmd (callers (snd y) 0) = ccmd (callers (snd x) 0) \<and>
    (cpc (callers (snd y) 0) = CDone \<longrightarrow> cfound (callers (snd y) 0) \<noteq> None)"
  using assms
proof (induction rule: lone_run.induct)
  case (run_step n w x y z)
  obtain k s where y: "y = (k, s)" by (cases y)
  obtain k' s' where z: "z = (k', s')" by (cases z)
  from run_step.IH [OF run_step.prems] run_step.hyps(2) show ?case
    using work_decreases [of k s k' s'] exchange_keeps [of k s k' s'] alone_step [of y z] unfolding y z by fastforce
next
  case (run_wake n w x k s)
  from run_wake.IH [OF run_wake.prems] run_wake.hyps(2) show ?case
    using wake_work [of s k] alone_wake [of k s] by (simp add: state_ops)
qed simp

lemma call_work:
  assumes "alone (k, s)" and "cpc (callers s 0) = CDone"
  shows "work k (new_call fr s) \<le> 109"
proof -
  have "length (pushed s) = k" using alone_alone_inv [OF assms(1)] assms(2) by (simp add: alone_inv_def preparing_def Let_def)
  moreover have "pipe_bytes s \<le> 2 * (length (pushed s) - length (sent s))"
    using alone_counts(4) [OF assms(1)] by (auto simp: token_inv_def)
  moreover have "worker_work (wpc s) \<le> 34" by (cases "wpc s") simp_all
  ultimately show ?thesis using alone_counts(1,2) [OF assms(1)] by (simp add: work_def new_call_def state_ops)
qed

text \<open>A caller woken with its answer in the queue takes it at its next look.\<close>

definition takes_answer :: "system \<Rightarrow> bool" where
  "takes_answer s \<longleftrightarrow> cpc (callers s 0) \<in> {CWoken, CScan} \<and> recvq s \<noteq> [] \<or>
     cpc (callers s 0) \<in> {CUnlockReceive, CDone} \<and> cfound (callers s 0) \<noteq> None"

lemma takes_answer_step:
  assumes "alone (k, s)" and "exchange_step (k, s) (k', s')" and "takes_answer s"
  shows "takes_answer s'"
  using assms(2)
proof cases
  case by_caller
  then show ?thesis using assms(3) alone_scan [OF assms(1)] awaited_wanted
    by (elim caller_stepE) (auto simp: takes_answer_def state_ops)
next
  case by_worker
  then show ?thesis using assms(3) by (elim worker_stepE) (auto simp: takes_answer_def state_ops)
qed (use assms(3) in \<open>simp add: takes_answer_def\<close>)

lemma takes_answer_run:
  "(exchange_step ^^ n) (k, s) (k', s') \<Longrightarrow> alone (k, s) \<Longrightarrow> takes_answer s \<Longrightarrow> alone (k', s') \<and> takes_answer s'"
proof (induction n arbitrary: k' s')
  case (Suc n)
  then obtain l u where "(exchange_step ^^ n) (k, s) (l, u)" "exchange_step (l, u) (k', s')" by auto
  then show ?case using Suc.IH Suc.prems(2,3) takes_answer_step alone_step by metis
qed simp

lemma done_finished:
  assumes "alone (k, s)" and "cpc (callers s 0) = CDone" and "cfound (callers s 0) \<noteq> None"
  shows "finished s"
  using alone_alone_inv [OF assms(1)] assms(2,3) by (auto simp: finished_def alone_inv_def preparing_def Let_def)

lemma overslept_work: "alone (k, s) \<Longrightarrow> overslept s \<Longrightarrow> work k (goto 0 CWoken s) \<le> 40"
proof -
  assume alone: "alone (k, s)" and sleep: "overslept s"
  have "length (pushed s) = k" using alone_alone_inv [OF alone] sleep by (auto simp: alone_inv_def overslept_def preparing_def Let_def split: if_splits)
  moreover have "pipe_bytes s \<le> 2 * (length (pushed s) - length (sent s))"
    using alone_counts(4) [OF alone] by (auto simp: token_inv_def)
  moreover have "worker_work (wpc s) \<le> 34" by (cases "wpc s") simp_all
  ultimately show ?thesis using alone_counts(1,2) [OF alone] sleep by (simp add: work_def state_ops overslept_def)
qed

subsection \<open>An exchange that ends and one that oversleeps\<close>

lemma run_to_stop:
  assumes "alone (k, s)"
  shows "\<exists>n k' s'. (exchange_step ^^ n) (k, s) (k', s') \<and> (\<nexists>y. exchange_step (k', s') y)"
  using assms
proof (induction "work k s" arbitrary: k s rule: less_induct)
  case less
  show ?case
  proof (cases "\<exists>y. exchange_step (k, s) y")
    case True
    then obtain l u where u: "exchange_step (k, s) (l, u)" by auto
    then obtain n k' s' where run: "(exchange_step ^^ n) (l, u) (k', s')" "\<nexists>y. exchange_step (k', s') y"
      using less.hyps [of l u] work_decreases [OF less.prems u] alone_step [OF less.prems u] by blast
    then have "(exchange_step ^^ Suc n) (k, s) (k', s')" using u relpowp_Suc_I2 by metis
    then show ?thesis using run(2) by blast
  next
    case False
    then show ?thesis by (intro exI [of _ 0] exI [of _ k] exI [of _ s]) simp
  qed
qed

lemma alone_quiet: "alone (0, quiet_system fr)"
  by (rule alone_start) (simp_all add: initial_def quiet_system_def)

lemmas lone_caller = run_step [OF _ by_caller]
lemmas lone_worker = run_step [OF _ by_worker [where s = s, unfolded One_nat_def]] for s

text \<open>The caller finds the queue empty, the answer is queued and signalled before the caller sleeps.\<close>

lemma overslept_run:
  assumes "answers (req\<lparr>sequence_number := 0\<rparr>) reply"
  shows "\<exists>n. lone_run n 0 (0, new_call req (quiet_system req)) (1, asleep_forever req (command req) reply)"
proof -
  note r1 = run_none [where x = "(0, new_call req (quiet_system req))", unfolded new_call_def quiet_system_def,
      simplified state_ops, simplified]
  note r2 = lone_caller [OF r1 lock_sequence, simplified state_ops, simplified]
  note r3 = lone_caller [OF r2 read_sequence, simplified state_ops, simplified]
  note r4 = lone_caller [OF r3 inc_sequence, simplified state_ops, simplified]
  note r5 = lone_caller [OF r4 unlock_sequence, simplified state_ops, simplified all_free, simplified]
  note r6 = lone_caller [OF r5 stamp, simplified state_ops, simplified]
  note r7 = lone_caller [OF r6 lock_send, simplified state_ops, simplified]
  note r8 = lone_caller [OF r7 push, simplified state_ops, simplified]
  note r9 = lone_caller [OF r8 unlock_send, simplified state_ops, simplified all_free, simplified]
  note r10 = lone_caller [OF r9 lock_pipe, simplified state_ops, simplified]
  note r11 = lone_caller [OF r10 write_pipe, simplified state_ops, simplified]
  note r12 = lone_caller [OF r11 unlock_pipe, simplified state_ops, simplified all_free, simplified]
  note r13 = lone_caller [OF r12 lock_receive, simplified state_ops, simplified]
  note r14 = lone_caller [OF r13 scan_empty, simplified state_ops, simplified]
  note r15 = lone_caller [OF r14 unlock_receive, simplified state_ops, simplified all_free, simplified]
  note w1 = lone_worker [OF r15 select_pipe, simplified state_ops, simplified]
  note w2 = lone_worker [OF w1 wread_pipe, simplified state_ops, simplified]
  note w3 = lone_worker [OF w2 wlock_send, simplified state_ops, simplified]
  note w4 = lone_worker [OF w3 wpop, simplified state_ops, simplified]
  note w5 = lone_worker [OF w4 wunlock_send [where fr = "Some (req\<lparr>sequence_number := 0\<rparr>)"], simplified state_ops, simplified]
  note w6 = lone_worker [OF w5 wwrite [where fr = "Some (req\<lparr>sequence_number := 0\<rparr>)"], simplified state_ops, simplified]
  note w7 = run_step [OF w6 by_stick [where fr = reply], simplified state_ops, simplified, OF assms]
  note w8 = lone_worker [OF w7 wlock_receive [where fr = reply], simplified state_ops, simplified]
  note w9 = lone_worker [OF w8 wpush [where fr = reply], simplified state_ops, simplified]
  note w10 = lone_worker [OF w9 wsignal_nobody, simplified state_ops, simplified]
  note w11 = lone_worker [OF w10 wunlock_receive, simplified state_ops, simplified]
  note r16 = lone_caller [OF w11 relock, simplified state_ops, simplified]
  note r17 = lone_caller [OF r16 cond_wait, simplified state_ops, simplified]
  show ?thesis
    using r17 by (intro exI) (simp add: asleep_forever_def new_call_def quiet_system_def state_ops all_free numeral_2_eq_2)
qed

lemma alone_overslept:
  assumes "answers (req\<lparr>sequence_number := 0\<rparr>) reply"
  shows "alone (1, asleep_forever req (command req) reply)" "overslept (asleep_forever req (command req) reply)"
proof -
  have "alone (0, new_call req (quiet_system req))"
    by (rule alone_call [OF alone_quiet]) (simp add: quiet_system_def)
  then show "alone (1, asleep_forever req (command req) reply)"
    using overslept_run [OF assms] lone_run_bounded by (fastforce simp: new_call_def state_ops)
  show "overslept (asleep_forever req (command req) reply)"
    using assms by (simp add: overslept_def asleep_forever_def answers_def awaited_def)
qed

subsection \<open>Properties\<close>

text \<open>C15: One caller and a stick that answers each request once: whenever the caller looks at the receive queue it is empty or
  holds the one answer it waits for. The loop that cannot get past a foreign frame is never entered,
  and no second frame is ever there to be left behind.\<close>

theorem lone_caller_never_stuck:
  assumes "alone (k, s)"
  shows "(recvq s = [] \<or> (\<exists>fr. recvq s = [fr] \<and> wanted (cseq (callers s 0)) (ccmd (callers s 0)) fr)) \<and> \<not> stuck_scan 0 s \<and>
    k \<le> length (sent s) \<and> length (sent s) \<le> length (pushed s) \<and> length (pushed s) \<le> Suc k"
  using alone_scan [OF assms] awaited_wanted alone_counts(1-3) [OF assms] by (auto simp: stuck_scan_def)

text \<open>C4: An exchange of such a caller ends, however the threads are interleaved and however often the caller wakes up without
  a signal: it takes at most 109 steps of caller, worker and stick, and six more for every such wake-up. When no step is left but such a wake-up,
  the function has its answer, with its sequence number and command, or the caller has slept through its signal and that
  answer is in the queue.\<close>

theorem exchange_ends:
  assumes "alone (k, s)" and "cpc (callers s 0) = CDone" and "lone_run n w (k, new_call fr s) (k', s')"
  shows "n \<le> 109 + 6 * w \<and> ccmd (callers s' 0) = command fr \<and>
     ((\<exists>y. exchange_step (k', s') y) \<or> finished s' \<or> overslept s')"
proof -
  have call: "alone (k, new_call fr s)" by (rule alone_call [OF assms(1,2)])
  have run: "alone (k', s')" "work k' s' + n \<le> work k (new_call fr s) + 6 * w" "ccmd (callers s' 0) = command fr"
    "cpc (callers s' 0) = CDone \<Longrightarrow> cfound (callers s' 0) \<noteq> None"
    using lone_run_bounded [OF assms(3) call] by (auto simp: new_call_def state_ops)
  moreover have "n \<le> 109 + 6 * w" using run(2) call_work [OF assms(1,2), of fr] by linarith
  ultimately show ?thesis using stopped_exchange [OF run(1)] done_finished [OF run(1)] by blast
qed

text \<open>C26: A caller that has slept through its signal needs nothing but to be woken: then at most 40 more steps are taken,
  and it stops only with its answer.\<close>

theorem woken_caller_gets_answer:
  assumes "alone (k, s)" and "overslept s" and "(exchange_step ^^ n) (k, goto 0 CWoken s) (k', s')"
  shows "n \<le> 40 \<and> ((\<exists>y. exchange_step (k', s') y) \<or> finished s')"
proof -
  have pc: "cpc (callers s 0) = CSleep" using assms(2) by (simp add: overslept_def)
  have wake: "alone (k, goto 0 CWoken s)" by (rule alone_wake [OF assms(1) pc])
  have "takes_answer (goto 0 CWoken s)" using assms(2) by (auto simp: takes_answer_def overslept_def state_ops)
  then have run: "alone (k', s')" "takes_answer s'" using takes_answer_run [OF assms(3) wake] by simp_all
  have "n \<le> 40" using exchange_run [OF assms(3) wake] overslept_work [OF assms(1,2)] by (simp add: state_ops)
  moreover have "\<not> overslept s'" using run(2) by (auto simp: takes_answer_def overslept_def)
  moreover have "cpc (callers s' 0) = CDone \<Longrightarrow> finished s'" using done_finished [OF run(1)] run(2) by (auto simp: takes_answer_def)
  ultimately show ?thesis using stopped_exchange [OF run(1)] by blast
qed

theorem lone_caller_never_stuck_witness:
  "alone (1, asleep_forever (status_query 9) 7 (status_query 0)) \<and>
   recvq (asleep_forever (status_query 9) 7 (status_query 0)) = [status_query 0] \<and>
   \<not> stuck_scan 0 (asleep_forever (status_query 9) 7 (status_query 0))"
proof -
  have "answers ((status_query 9)\<lparr>sequence_number := 0\<rparr>) (status_query 0)" by (simp add: answers_def status_query_def)
  from alone_overslept(1) [OF this] have alone: "alone (1, asleep_forever (status_query 9) 7 (status_query 0))"
    by (simp add: status_query_def conbee_const)
  then show ?thesis using lone_caller_never_stuck [OF alone] by (simp add: asleep_forever_def)
qed

text \<open>An exchange in which the caller sleeps through its signal and then wakes up without one, once.\<close>

theorem exchange_ends_witness:
  "\<exists>n k' s'. lone_run n 1 (0, new_call (status_query 9) (quiet_system (status_query 9))) (k', s') \<and> n \<le> 115 \<and> finished s'"
proof -
  let ?q = "quiet_system (status_query 9)" and ?s = "asleep_forever (status_query 9) 7 (status_query 0)"
  have pc: "cpc (callers ?q 0) = CDone" by (simp add: quiet_system_def)
  have ans: "answers ((status_query 9)\<lparr>sequence_number := 0\<rparr>) (status_query 0)" by (simp add: answers_def status_query_def)
  have cmd: "command (status_query 9) = 7" by (simp add: status_query_def conbee_const)
  obtain n where n: "lone_run n 0 (0, new_call (status_query 9) ?q) (1, ?s)" using overslept_run [OF ans] cmd by auto
  have s: "alone (1, ?s)" "overslept ?s" using alone_overslept [OF ans] cmd by simp_all
  then have sleep: "cpc (callers ?s 0) = CSleep" by (simp add: overslept_def)
  have wake: "alone (1, goto 0 CWoken ?s)" "takes_answer (goto 0 CWoken ?s)"
    using alone_wake [OF s(1) sleep] s(2) by (auto simp: takes_answer_def overslept_def state_ops)
  obtain m k' s' where m: "(exchange_step ^^ m) (1, goto 0 CWoken ?s) (k', s')" "\<nexists>y. exchange_step (k', s') y"
    using run_to_stop [OF wake(1)] by blast
  have run: "lone_run (m + Suc n) (Suc 0) (0, new_call (status_query 9) ?q) (k', s')"
    by (rule lone_run_more [OF run_wake [OF n sleep] m(1)])
  have "\<not> overslept s'" using takes_answer_run [OF m(1) wake] by (auto simp: takes_answer_def overslept_def)
  then have "finished s'" "m + Suc n \<le> 115" using exchange_ends [OF alone_quiet pc run] m(2) by auto
  with run show ?thesis by (intro exI [of _ "m + Suc n"] exI conjI) (simp_all only: One_nat_def)
qed

theorem woken_caller_gets_answer_witness:
  "\<exists>n k' s'. (exchange_step ^^ n) (1, goto 0 CWoken (asleep_forever (status_query 9) 7 (status_query 0))) (k', s') \<and> n \<le> 40 \<and>
     finished s'"
proof -
  let ?s = "asleep_forever (status_query 9) 7 (status_query 0)"
  have "answers ((status_query 9)\<lparr>sequence_number := 0\<rparr>) (status_query 0)" by (simp add: answers_def status_query_def)
  from alone_overslept [OF this] have s: "alone (1, ?s)" "overslept ?s" by (simp_all add: status_query_def conbee_const)
  then have "cpc (callers ?s 0) = CSleep" by (simp add: overslept_def)
  then obtain n k' s' where run: "(exchange_step ^^ n) (1, goto 0 CWoken ?s) (k', s')" "\<nexists>y. exchange_step (k', s') y"
    using run_to_stop [OF alone_wake [OF s(1)]] by blast
  from woken_caller_gets_answer [OF s run(1)] run show ?thesis by blast
qed

end
