(* ===== verification/Single_Caller_Heap.thy ===== *)
theory Single_Caller_Heap
  imports Single_Caller Heap_Runs
begin

text \<open>
  The lone caller of \<open>Single_Caller\<close> on the heap of \<open>Heap_Threads\<close>: every state it reaches there shows one it reaches on
  lists, and as the receive queue never holds two frames, no item is left with a dangling pointer.
\<close>

subsection \<open>The caller, the worker and the stick\<close>

text \<open>
  \<open>hlone k m s\<close>: the lone caller, the worker and the stick have come to \<open>s\<close> on the heap without undefined behaviour; \<open>m\<close> requests
  have been written to the line and \<open>k\<close> answered. A packet read by the worker is the answer to a request that has been
  written: it has become a frame with the number and command the caller waits for.
\<close>

definition reads :: "hsystem \<Rightarrow> conbee_frame \<Rightarrow> bool" where
  "reads s fr \<longleftrightarrow> (\<exists>a. hwpc s = HLockReceive a \<and> frames (hmem s) a = Some fr)"

inductive hlone :: "nat \<Rightarrow> nat \<Rightarrow> hsystem \<Rightarrow> bool" where
  hlone_start: "hinitial s \<Longrightarrow> hlone 0 0 s"
| hlone_caller: "hlone k m s \<Longrightarrow> hcaller_step 0 s (Inr s') \<Longrightarrow> hpc (hcallers s 0) \<noteq> CDone \<Longrightarrow> hlone k m s'"
| hlone_call: "hlone k m s \<Longrightarrow> hpc (hcallers s 0) = CDone \<Longrightarrow> hcaller_step 0 s (Inr s') \<Longrightarrow>
     frames (hmem s') (hframe (hcallers s' 0)) = Some req \<Longrightarrow> hcmd (hcallers s' 0) = command req \<Longrightarrow> hlone k m s'"
| hlone_answer: "hlone k m s \<Longrightarrow> hwpc s = HSelect \<Longrightarrow> hworker_step 1 s (Inr s') \<Longrightarrow> reads s' fr \<Longrightarrow> k < m \<Longrightarrow>
     sequence_number fr = hseq (hcallers s 0) \<Longrightarrow> command fr = hcmd (hcallers s 0) \<Longrightarrow> hlone (Suc k) m s'"
| hlone_worker: "hlone k m s \<Longrightarrow> hworker_step 1 s (Inr s') \<Longrightarrow> hwpc s \<noteq> HSelect \<or> hwpc s' = HReadPipe \<Longrightarrow>
     hlone k (if \<exists>a. hwpc s = HWrite a then Suc m else m) s'"

lemma hlone_reachable: "hlone k m s \<Longrightarrow> hreachable 1 s"
  by (induction rule: hlone.induct) (auto intro: hreachable.intros simp: hsys_step_def)

text \<open>Every such state shows a state of the lone caller on lists, and no item has a dangling predecessor.\<close>

definition lone_sim :: "nat \<Rightarrow> nat \<Rightarrow> hsystem \<Rightarrow> system \<Rightarrow> bool" where
  "lone_sim k m s t \<longleftrightarrow> alone (k, t) \<and> length (sent t) = m \<and> sim s t \<and> \<not> dangling_head s"

lemma few_not_dangling:
  assumes sim: "simulates own as cs prev bs ds s t" and "follows prev bs s' t'" and "\<not> dangling_head s"
    and "length (recvq t) \<le> 1"
  shows "sim s' t' \<and> \<not> dangling_head s'"
proof -
  have "length (recvq t') < length (recvq t) \<Longrightarrow> recvq t' = []" using assms(4) by (cases "recvq t'") auto
  then show ?thesis using follows_dangling [OF assms(1,2)] follows_sim [OF assms(2)] assms(3) by (auto split: if_splits)
qed

lemma alone_short: "alone (k, t) \<Longrightarrow> length (recvq t) \<le> 1"
  using alone_scan by fastforce

lemma lone_sim_caller:
  assumes "lone_sim k m s t" and "hcaller_step 0 s (Inr s')"
  shows "\<exists>t'. caller_step 0 t t' \<and> sim s' t' \<and> \<not> dangling_head s' \<and> sent t' = sent t"
proof -
  note L = assms(1) [unfolded lone_sim_def]
  obtain own as cs prev bs ds where sim: "simulates own as cs prev bs ds s t" using L by (auto simp: sim_def)
  obtain t' where t': "caller_step 0 t t'" "follows prev bs s' t'" using caller_simulated [OF sim assms(2)] by auto
  then show ?thesis using few_not_dangling [OF sim t'(2)] L alone_short caller_step_others [OF t'(1)] by blast
qed

lemma lone_sim_worker:
  assumes "lone_sim k m s t" and "hworker_step 1 s (Inr s')"
  shows "\<exists>t'. worker_step 1 t t' \<and> sim s' t' \<and> \<not> dangling_head s'"
proof -
  note L = assms(1) [unfolded lone_sim_def]
  obtain own as cs prev bs ds where sim: "simulates own as cs prev bs ds s t" using L by (auto simp: sim_def)
  obtain t' where t': "worker_step 1 t t'" "follows prev bs s' t'" using worker_simulated [OF sim assms(2)] by auto
  then show ?thesis using few_not_dangling [OF sim t'(2)] L alone_short by blast
qed

lemma sim_worker_pc:
  assumes "sim s t"
  shows "hwpc s = HSelect \<longleftrightarrow> wpc t = WSelect" "hwpc s = HReadPipe \<longleftrightarrow> wpc t = WReadPipe"
    and "(\<exists>a. hwpc s = HWrite a) \<longleftrightarrow> (\<exists>fr. wpc t = WWrite fr)" and "reads s fr \<Longrightarrow> wpc t = WLockReceive fr"
    and "hpc (hcallers s i) = cpc (callers t i)" "hseq (hcallers s i) = cseq (callers t i)" "hcmd (hcallers s i) = ccmd (callers t i)"
proof -
  obtain own as cs prev bs ds where sim: "simulates own as cs prev bs ds s t" using assms by (auto simp: sim_def)
  note S = simulatesD [OF sim]
  show "hwpc s = HSelect \<longleftrightarrow> wpc t = WSelect" "hwpc s = HReadPipe \<longleftrightarrow> wpc t = WReadPipe"
    "(\<exists>a. hwpc s = HWrite a) \<longleftrightarrow> (\<exists>fr. wpc t = WWrite fr)"
    using S(5) by (cases "hwpc s"; auto)+
  show "reads s fr \<Longrightarrow> wpc t = WLockReceive fr" using S(5) by (auto simp: reads_def)
  show "hpc (hcallers s i) = cpc (callers t i)" "hseq (hcallers s i) = cseq (callers t i)" "hcmd (hcallers s i) = ccmd (callers t i)"
    by (rule S(6), rule S(7), rule S(8))
qed

lemma worker_sent: "worker_step 1 t t' \<Longrightarrow> token_inv 1 t \<Longrightarrow>
    length (sent t') = (if \<exists>fr. wpc t = WWrite fr then Suc (length (sent t)) else length (sent t))"
  by (elim worker_stepE) (auto simp: state_ops token_inv_def split: option.splits)

lemma hlone_sim: "hlone k m s \<Longrightarrow> \<exists>t. lone_sim k m s t"
proof (induction rule: hlone.induct)
  case (hlone_start s)
  obtain t where t: "initial t" "sim s t" using hinitial_sim [OF hlone_start] by blast
  obtain own as cs prev bs ds where sim: "simulates own as cs prev bs ds s t" using t(2) by (auto simp: sim_def)
  have "cfound (callers t 0) = None" using simulatesD(10) [OF sim, of 0] hlone_start by (simp add: found_held_def hinitial_def)
  moreover have "\<not> dangling_head s"
    using hlone_start by (simp add: dangling_head_def hinitial_def conbee_queue_init_def split: option.splits)
  ultimately show ?case
    using t by (intro exI [of _ t]) (simp add: lone_sim_def alone_start, simp add: initial_def)
next
  case (hlone_caller k m s s')
  then obtain t where t: "lone_sim k m s t" by blast
  obtain t' where t': "caller_step 0 t t'" "sim s' t'" "\<not> dangling_head s'" "sent t' = sent t"
    using lone_sim_caller [OF t hlone_caller.hyps(2)] by blast
  note L = t [unfolded lone_sim_def]
  have "alone (k, t')"
  proof (cases "cpc (callers t 0) = CSleep")
    case True
    then have "t' = goto 0 CWoken t" using t'(1) by (elim caller_stepE) simp_all
    then show ?thesis using alone_wake [of k t] L True by simp
  next
    case False
    then show ?thesis using alone_step [OF _ by_caller [OF t'(1)]] L sim_worker_pc(5) [of s t 0] hlone_caller.hyps(3) by auto
  qed
  then show ?case using t' L by (auto simp: lone_sim_def)
next
  case (hlone_call k m s s' req)
  then obtain t where t: "lone_sim k m s t" by blast
  obtain t' where t': "caller_step 0 t t'" "sim s' t'" "\<not> dangling_head s'" "sent t' = sent t"
    using lone_sim_caller [OF t hlone_call.hyps(3)] by blast
  note L = t [unfolded lone_sim_def]
  obtain own as cs prev bs ds where sim': "simulates own as cs prev bs ds s' t'" using t'(2) by (auto simp: sim_def)
  have pc: "cpc (callers t 0) = CDone" using L sim_worker_pc(5) [of s t 0] hlone_call.hyps(2) by simp
  then obtain fr cmd where new: "t' = upd_caller 0 (\<lambda>c. \<lparr>cpc = CLockSequence, cframe = fr, cseq = cseq c, ccmd = cmd, cfound = None\<rparr>) t"
    using t'(1) by (elim caller_stepE) auto
  then have "cpc (callers t' 0) = CLockSequence" "cframe (callers t' 0) = fr" "ccmd (callers t' 0) = cmd" by (simp_all add: state_ops)
  then have "cmd = command fr"
    using simulatesD(6) [OF sim', of 0] simulatesD(8) [OF sim', of 0] simulatesD(9) [OF sim', of 0] hlone_call.hyps(4,5)
    by (simp add: request_held_def)
  then have "t' = new_call fr t" using new by (simp add: new_call_def)
  then have "alone (k, t')" using L alone_call [of k t fr, OF _ pc] by simp
  then show ?case using t' L by (auto simp: lone_sim_def)
next
  case (hlone_answer k m s s' fr)
  then obtain t where t: "lone_sim k m s t" by blast
  obtain t' where t': "worker_step 1 t t'" "sim s' t'" "\<not> dangling_head s'"
    using lone_sim_worker [OF t hlone_answer.hyps(3)] by blast
  note L = t [unfolded lone_sim_def]
  have w: "wpc t = WSelect" "wpc t' = WLockReceive fr"
    using sim_worker_pc(1) [of s t] sim_worker_pc(4) [OF t'(2) hlone_answer.hyps(4)] L hlone_answer.hyps(2) by simp_all
  then have new: "t' = t\<lparr>wpc := WLockReceive fr\<rparr>" using t'(1) by (elim worker_stepE) simp_all
  have k: "k < length (sent t)" using L hlone_answer.hyps(5) by simp
  have "awaited (callers t 0) (sent t ! k)" using owed_answer [OF k] L alone_counts(4) alone_alone_inv by blast
  then have "answers (sent t ! k) fr"
    using sim_worker_pc(6,7) [of s t 0] L hlone_answer.hyps(6,7) by (simp add: answers_def awaited_def)
  then have "alone (Suc k, t')" using alone_step [OF _ by_stick [OF w(1) k]] L new by blast
  then show ?case using t' L new by (auto simp: lone_sim_def)
next
  case (hlone_worker k m s s')
  then obtain t where t: "lone_sim k m s t" by blast
  obtain t' where t': "worker_step 1 t t'" "sim s' t'" "\<not> dangling_head s'"
    using lone_sim_worker [OF t hlone_worker.hyps(2)] by blast
  note L = t [unfolded lone_sim_def]
  have "wpc t \<noteq> WSelect \<or> wpc t' = WReadPipe"
    using sim_worker_pc(1) [of s t] sim_worker_pc(2) [OF t'(2)] L hlone_worker.hyps(3) by simp
  then have "alone (k, t')" using alone_step [OF _ by_worker [OF t'(1)]] L by blast
  moreover have "length (sent t') = (if \<exists>a. hwpc s = HWrite a then Suc m else m)"
    using worker_sent [OF t'(1)] alone_counts(4) [of k t] sim_worker_pc(3) [of s t] L by simp
  ultimately show ?case using t' by (auto simp: lone_sim_def)
qed

subsection \<open>An exchange on the heap\<close>

text \<open>
  However much memory is to be left, the lone caller has a state for \<open>t\<close> on the heap, connected. The steps
  are those of \<open>Heap_Runs\<close>.
\<close>

definition lone_realised :: "nat \<Rightarrow> nat \<Rightarrow> system \<Rightarrow> bool" where
  "lone_realised k m t \<longleftrightarrow> (\<forall>room. \<exists>s. hlone k m s \<and> sim s t \<and> room \<le> avail (hmem s) \<and> \<not> dangling_head s \<and> connected (hworld s))"

lemma hlone_not_dangling: "hlone k m s \<Longrightarrow> \<not> dangling_head s"
  using hlone_sim [of k m s] by (auto simp: lone_sim_def)

lemma lone_realised_caller:
  assumes "lone_realised k m t" and "caller_step 0 t t'" and pc: "cpc (callers t 0) \<noteq> CDone"
  shows "lone_realised k m t'"
  unfolding lone_realised_def
proof
  fix room
  obtain s where s: "hlone k m s" "sim s t" "room + 2 \<le> avail (hmem s)" "\<not> dangling_head s" "connected (hworld s)"
    using assms(1) unfolding lone_realised_def by blast
  from caller_matched [OF s(2,3) assms(2) pc] s(4) obtain s' where s': "hcaller_step 0 s (Inr s')" "sim s' t'"
    "room \<le> avail (hmem s')" "connected (hworld s') = connected (hworld s)" by blast
  have "hlone k m s'" using hlone_caller [OF s(1) s'(1)] sim_worker_pc(5) [OF s(2), of 0] pc by simp
  then show "\<exists>s. hlone k m s \<and> sim s t' \<and> room \<le> avail (hmem s) \<and> \<not> dangling_head s \<and> connected (hworld s)"
    using s' s(5) hlone_not_dangling by blast
qed

lemma lone_realised_worker:
  assumes "lone_realised k m t" and "worker_step 1 t t'" and pc: "wpc t \<noteq> WSelect"
    and "wpc t = WSignal \<longrightarrow> cpc (callers t 0) \<noteq> CSleep"
  shows "lone_realised k (if \<exists>fr. wpc t = WWrite fr then Suc m else m) t'"
  unfolding lone_realised_def
proof
  fix room
  obtain s where s: "hlone k m s" "sim s t" "room + 2 \<le> avail (hmem s)" "\<not> dangling_head s" "connected (hworld s)"
    using assms(1) unfolding lone_realised_def by blast
  from worker_matched [OF s(2,3) assms(2) pc] assms(4) obtain s' where s': "hworker_step 1 s (Inr s')" "sim s' t'"
    "room \<le> avail (hmem s')" "connected (hworld s') = connected (hworld s)" "hwpc s \<noteq> HSelect" by auto
  have "hlone k (if \<exists>fr. wpc t = WWrite fr then Suc m else m) s'"
    using hlone_worker [OF s(1) s'(1)] s'(5) sim_worker_pc(3) [OF s(2)] by simp
  then show "\<exists>s. hlone k (if \<exists>fr. wpc t = WWrite fr then Suc m else m) s \<and> sim s t' \<and> room \<le> avail (hmem s) \<and>
      \<not> dangling_head s \<and> connected (hworld s)"
    using s' s(5) hlone_not_dangling by blast
qed

lemma lone_realised_call:
  assumes "lone_realised k m t" and pc: "cpc (callers t 0) = CDone"
  shows "lone_realised k m (asks_version 0 COMMAND_VERSION t)"
  unfolding lone_realised_def
proof
  fix room
  obtain s where s: "hlone k m s" "sim s t" "room + 2 \<le> avail (hmem s)" "\<not> dangling_head s" "connected (hworld s)"
    using assms(1) unfolding lone_realised_def by blast
  from next_matched [OF s(2,3) pc] obtain s' where s': "hcaller_step 0 s (Inr s')" "sim s' (asks_version 0 COMMAND_VERSION t)"
    "room \<le> avail (hmem s')" "connected (hworld s') = connected (hworld s)" by blast
  obtain own as cs prev bs ds where sim: "simulates own as cs prev bs ds s' (asks_version 0 COMMAND_VERSION t)"
    using s'(2) by (auto simp: sim_def)
  have "frames (hmem s') (hframe (hcallers s' 0)) = Some (request_header ReadFirmware)" "hcmd (hcallers s' 0) = COMMAND_VERSION"
    using simulatesD(6) [OF sim, of 0] simulatesD(8) [OF sim, of 0] simulatesD(9) [OF sim, of 0]
    by (simp_all add: request_held_def state_ops)
  then have "hlone k m s'"
    using hlone_call [OF s(1) _ s'(1)] sim_worker_pc(5) [OF s(2), of 0] pc by (simp add: request_frame_def)
  then show "\<exists>s. hlone k m s \<and> sim s (asks_version 0 COMMAND_VERSION t) \<and> room \<le> avail (hmem s) \<and> \<not> dangling_head s \<and> connected (hworld s)"
    using s' s(5) hlone_not_dangling by blast
qed

lemma lone_realised_answer:
  assumes "lone_realised k m t" and "wpc t = WSelect" and "k < m" and "ccmd (callers t 0) = COMMAND_VERSION"
  shows "lone_realised (Suc k) m (t\<lparr>wpc := WLockReceive (short_answer (cseq (callers t 0)))\<rparr>)"
  unfolding lone_realised_def
proof
  fix room
  let ?t = "t\<lparr>wpc := WLockReceive (short_answer (cseq (callers t 0)))\<rparr>"
  obtain s where s: "hlone k m s" "sim s t" "room + 2 \<le> avail (hmem s)" "\<not> dangling_head s" "connected (hworld s)"
    using assms(1) unfolding lone_realised_def by blast
  from read_matched [OF s(2,3) assms(2) s(5)] obtain s' where s': "hworker_step 1 s (Inr s')" "sim s' ?t"
    "room \<le> avail (hmem s')" "connected (hworld s')" "hwpc s = HSelect" "reads s' (short_answer (cseq (callers t 0)))"
    unfolding reads_def by blast
  have "hlone (Suc k) m s'"
    using sim_worker_pc(6,7) [OF s(2), of 0] assms(4)
    by (intro hlone_answer [OF s(1) s'(5,1,6) assms(3)]) (simp_all add: short_answer_def)
  then show "\<exists>s. hlone (Suc k) m s \<and> sim s ?t \<and> room \<le> avail (hmem s) \<and> \<not> dangling_head s \<and> connected (hworld s)"
    using s' hlone_not_dangling by blast
qed

lemma lone_realised_select_pipe:
  assumes "lone_realised k m t" and "wpc t = WSelect" "0 < pipe_bytes t"
  shows "lone_realised k m (t\<lparr>wpc := WReadPipe\<rparr>)"
  unfolding lone_realised_def
proof
  fix room
  obtain s where s: "hlone k m s" "sim s t" "room \<le> avail (hmem s)" "\<not> dangling_head s" "connected (hworld s)"
    using assms(1) unfolding lone_realised_def by blast
  note match = select_pipe_matched [OF s(2) assms(2,3), of 1]
  then have "hlone k m (s\<lparr>hwpc := HReadPipe\<rparr>)" using hlone_worker [OF s(1), of "s\<lparr>hwpc := HReadPipe\<rparr>"] by simp
  then show "\<exists>s. hlone k m s \<and> sim s (t\<lparr>wpc := WReadPipe\<rparr>) \<and> room \<le> avail (hmem s) \<and> \<not> dangling_head s \<and> connected (hworld s)"
    using s match by (intro exI [of _ "s\<lparr>hwpc := HReadPipe\<rparr>"]) simp
qed

text \<open>The firmware version is asked for and the answer taken out of the queue; the worker is back at \<open>select\<close>.\<close>

lemma lone_realised_exchange: "\<exists>t. lone_realised 1 1 t \<and> wpc t = WSelect \<and> cpc (callers t 0) = CDone"
proof -
  let ?q = "quiet_system blank_frame"
  have start: "lone_realised 0 0 ?q"
    unfolding lone_realised_def
    using hstart_state_ok(1,3-5) hstart_state_ok(2) [where fr = blank_frame] hlone_start by (metis order_refl)
  have wanted: "wanted 0 COMMAND_VERSION (short_answer 0)" by (simp add: wanted_def short_answer_def)
  note q = quiet_system_def
  note r1 = lone_realised_call [OF start, unfolded q, simplified state_ops, simplified]
  note r2 = lone_realised_caller [OF r1 lock_sequence, simplified state_ops, simplified]
  note r3 = lone_realised_caller [OF r2 read_sequence, simplified state_ops, simplified]
  note r4 = lone_realised_caller [OF r3 inc_sequence, simplified state_ops, simplified]
  note r5 = lone_realised_caller [OF r4 unlock_sequence, simplified state_ops, simplified all_free, simplified]
  note r6 = lone_realised_caller [OF r5 stamp, simplified state_ops, simplified]
  note r7 = lone_realised_caller [OF r6 lock_send, simplified state_ops, simplified]
  note r8 = lone_realised_caller [OF r7 push, simplified state_ops, simplified]
  note r9 = lone_realised_caller [OF r8 unlock_send, simplified state_ops, simplified all_free, simplified]
  note r10 = lone_realised_caller [OF r9 lock_pipe, simplified state_ops, simplified]
  note r11 = lone_realised_caller [OF r10 write_pipe, simplified state_ops, simplified]
  note r12 = lone_realised_caller [OF r11 unlock_pipe, simplified state_ops, simplified all_free, simplified]
  note w1 = lone_realised_select_pipe [OF r12, simplified state_ops, simplified]
  note w2 = lone_realised_worker [OF w1 wread_pipe [where n = "Suc 0", folded One_nat_def], simplified state_ops, simplified]
  note w3 = lone_realised_worker [OF w2 wlock_send [where n = "Suc 0", folded One_nat_def], simplified state_ops, simplified]
  note w4 = lone_realised_worker [OF w3 wpop [where n = "Suc 0", folded One_nat_def], simplified state_ops, simplified]
  note w5 = lone_realised_worker [OF w4 wunlock_send [where n = "Suc 0", folded One_nat_def], simplified state_ops, simplified all_free, simplified]
  note w6 = lone_realised_worker [OF w5 wwrite [where n = "Suc 0", folded One_nat_def], simplified state_ops, simplified]
  note w7 = lone_realised_answer [OF w6, simplified state_ops, simplified]
  note w8 = lone_realised_worker [OF w7 wlock_receive [where n = "Suc 0", folded One_nat_def], simplified state_ops, simplified]
  note w9 = lone_realised_worker [OF w8 wpush [where n = "Suc 0", folded One_nat_def], simplified state_ops, simplified]
  note w10 = lone_realised_worker [OF w9 wsignal_nobody [where n = "Suc 0", folded One_nat_def], simplified state_ops, simplified]
  note w11 = lone_realised_worker [OF w10 wunlock_receive [where n = "Suc 0", folded One_nat_def], simplified state_ops, simplified all_free, simplified]
  note r13 = lone_realised_caller [OF w11 lock_receive, simplified state_ops, simplified]
  note r14 = lone_realised_caller [OF r13 scan_found [where fr = "short_answer 0" and rest = "[]"], simplified state_ops wanted, simplified]
  note r15 = lone_realised_caller [OF r14 unlock_receive, simplified state_ops, simplified all_free, simplified]
  show ?thesis unfolding One_nat_def by (intro exI conjI, rule r15) (simp_all add: wanted)
qed

subsection \<open>Property\<close>

text \<open>C16: One caller, which waits for the command of its request as every function of the library does, and a stick whose packets
  are the answers to the requests written, each once and with its number and command (\<open>hlone\<close>): on the heap the caller and the worker never follow a dangling pointer. In every state they come to, the
  steps that can be undefined are those for want of memory and those of \<open>conbee_read_frame\<close> on whatever arrives next,
  which may break the rule for the stick. The use after free of two callers cannot happen to one; a stick that sends other frames
  is outside of this.\<close>

theorem lone_caller_memory_safe:
  assumes "hlone k m s" and "hsys_step 1 s (Inl e)"
  shows "\<not> dangling_head s \<and>
    (avail (hmem s) < 2 \<or> hwpc s = HSelect \<and> (\<exists>stack evs. read_packet stack evs s = Some (Inl e)))"
proof -
  obtain t where t: "lone_sim k m s t" using hlone_sim [OF assms(1)] by blast
  then obtain own as cs prev bs ds where sim: "simulates own as cs prev bs ds s t" by (auto simp: lone_sim_def sim_def)
  have "\<not> (prev \<noteq> NULL \<and> bs \<noteq> [])" "\<not> dangling_head s" using t simulates_dangling [OF sim] by (simp_all add: lone_sim_def)
  then show ?thesis
    using assms(2) caller_simulated [OF sim] worker_simulated [OF sim] by (auto simp: hsys_step_def) blast+
qed

text \<open>After a complete exchange, with memory left: a packet of one byte leads out of the buffer.\<close>

theorem lone_caller_memory_safe_witness:
  "\<exists>s. hlone 1 1 s \<and> 2 \<le> avail (hmem s) \<and> hsys_step 1 s (Inl OutOfBounds) \<and> \<not> dangling_head s \<and> hwpc s = HSelect \<and>
     (\<exists>stack evs. read_packet stack evs s = Some (Inl OutOfBounds))"
proof -
  obtain t where t: "lone_realised 1 1 t" "wpc t = WSelect" using lone_realised_exchange by blast
  obtain s where s: "hlone 1 1 s" "sim s t" "2 \<le> avail (hmem s)" "connected (hworld s)"
    using t(1) unfolding lone_realised_def by blast
  obtain own as cs prev bs ds where sim: "simulates own as cs prev bs ds s t" using s(2) by (auto simp: sim_def)
  have ok: "heap_ok (hmem s)" using simulatesD(1) [OF sim] by (simp add: good_heap_def)
  let ?stack = "replicate 1500 0 :: u8 list" and ?w = "(hworld s)\<lparr>mem := blank_heap (hmem s), tty_in := []\<rparr>"
  have "tty_feed (slip_encode [0]) ?w = ?w\<lparr>tty_in := map Data (slip_encode [0])\<rparr>" by (simp add: tty_feed_def)
  moreover have "conbee_read_frame ?stack (tty_feed (slip_encode [0] @ []) ?w) (brk (hmem s)) = Some (Inl OutOfBounds)"
    using conbee_read_frame_packet [of ?w "[0]" ?stack "[]" "brk (hmem s)"] conbee_parse_packet_single s(4) by simp
  ultimately have "read_packet ?stack (map Data (slip_encode [0])) s = Some (Inl OutOfBounds)"
    using s(3) by (simp add: read_packet_def conbee_init_frame_cases [OF ok])
  then have "hsys_step 1 s (Inl OutOfBounds)"
    using h_read_packet [of s ?stack "map Data (slip_encode [0])"] sim_worker_pc(1) [OF s(2)] t(2) by (simp add: hsys_step_def)
  then show ?thesis using s(1,3) lone_caller_memory_safe [OF s(1)] by fastforce
qed

end
