(* ===== verification/Shutdown.thy ===== *)
theory Shutdown
  imports Threads
begin

text \<open>
  The start and the end of the worker thread in the interleaved system of \<open>Threads\<close>: the flags
  \<open>worker_running\<close> and \<open>worker_stop\<close>, the head of the loop of \<open>conbee_send_receive\<close> that tests the second, and
  \<open>conbee_close\<close>, which sets it, waits for the first, joins the thread and closes the line. Every section
  under \<open>mutex_worker\<close> makes one access to one flag and is one step here. Callers may go on at any time:
  nothing in \<open>conbee_enqueue_frame\<close> or \<open>conbee_wait_for_frame\<close> looks at these flags.
\<close>

subsection \<open>State and steps\<close>

text \<open>\<open>WLoop stop\<close> is the body of the loop behind the test, with the local variable \<open>stop\<close>.\<close>

datatype worker_phase = WStart | WTest | WLoop bool | WLeave | WEnded

text \<open>The statement of \<open>conbee_close\<close> that comes next; \<open>KIdle\<close> before it is called, \<open>KDone\<close> when it has returned.\<close>

datatype close_pc = KIdle | KPoll | KJoin | KClose | KDisconnect | KDone

record lifecycle =
  threads :: system
  stop_flag :: bool
  running_flag :: bool
  phase :: worker_phase
  closer :: close_pc
  line_open :: bool
  tty_connected :: bool

inductive close_step :: "lifecycle \<Rightarrow> lifecycle \<Rightarrow> bool" where
  set_stop: "closer t = KIdle \<Longrightarrow> close_step t (t\<lparr>stop_flag := True, closer := KPoll\<rparr>)"
| poll_running: "closer t = KPoll \<Longrightarrow> running_flag t \<Longrightarrow> close_step t t"
| poll_stopped: "closer t = KPoll \<Longrightarrow> \<not> running_flag t \<Longrightarrow> close_step t (t\<lparr>closer := KJoin\<rparr>)"
| join: "closer t = KJoin \<Longrightarrow> phase t = WEnded \<Longrightarrow> close_step t (t\<lparr>closer := KClose\<rparr>)"
| close_line: "closer t = KClose \<Longrightarrow> close_step t (t\<lparr>line_open := False, closer := KDisconnect\<rparr>)"
| disconnect: "closer t = KDisconnect \<Longrightarrow> close_step t (t\<lparr>tty_connected := False, closer := KDone\<rparr>)"

definition loop_end :: "bool \<Rightarrow> worker_phase" where
  "loop_end stop = (if stop then WLeave else WTest)"

text \<open>
  The worker goes through one turn of its loop with the steps of \<open>Threads\<close>, which begin and end at \<open>select\<close>;
  a \<open>select\<close> that times out is a turn without one.
\<close>

inductive life_step :: "nat \<Rightarrow> lifecycle \<Rightarrow> lifecycle \<Rightarrow> bool" for n where
  begin_worker: "phase t = WStart \<Longrightarrow> life_step n t (t\<lparr>running_flag := True, phase := WTest\<rparr>)"
| test_stop: "phase t = WTest \<Longrightarrow> life_step n t (t\<lparr>phase := WLoop (stop_flag t)\<rparr>)"
| timeout: "phase t = WLoop stop \<Longrightarrow> wpc (threads t) = WSelect \<Longrightarrow> life_step n t (t\<lparr>phase := loop_end stop\<rparr>)"
| turn: "phase t = WLoop stop \<Longrightarrow> worker_step n (threads t) s \<Longrightarrow>
     life_step n t (t\<lparr>threads := s, phase := (if wpc s = WSelect then loop_end stop else WLoop stop)\<rparr>)"
| leave: "phase t = WLeave \<Longrightarrow> life_step n t (t\<lparr>running_flag := False, phase := WEnded\<rparr>)"
| caller: "i < n \<Longrightarrow> caller_step i (threads t) s \<Longrightarrow> life_step n t (t\<lparr>threads := s\<rparr>)"
| closing: "close_step t t' \<Longrightarrow> life_step n t t'"

text \<open>What \<open>conbee_connect\<close> leaves: the thread is created but need not have begun.\<close>

definition connected_start :: "lifecycle \<Rightarrow> bool" where
  "connected_start t \<longleftrightarrow> initial (threads t) \<and> \<not> stop_flag t \<and> \<not> running_flag t \<and> phase t = WStart \<and>
     closer t = KIdle \<and> line_open t \<and> tty_connected t"

inductive alive :: "nat \<Rightarrow> lifecycle \<Rightarrow> bool" for n where
  begin_alive: "connected_start t \<Longrightarrow> alive n t"
| step_alive: "alive n t \<Longrightarrow> life_step n t t' \<Longrightarrow> alive n t'"

inductive_cases close_stepE: "close_step t t'"
inductive_cases life_stepE: "life_step n t t'"

lemma close_step_threads: "close_step t t' \<Longrightarrow> threads t' = threads t \<and> phase t' = phase t \<and> running_flag t' = running_flag t"
  by (erule close_step.cases) simp_all

lemma life_step_threads: "life_step n t t' \<Longrightarrow> threads t' = threads t \<or> sys_step n (threads t) (threads t')"
  by (erule life_step.cases) (auto simp: sys_step_def dest: close_step_threads)

text \<open>What holds of the interleaved system holds while it is started and closed.\<close>

lemma alive_reachable: "alive n t \<Longrightarrow> reachable n (threads t)"
proof (induction rule: alive.induct)
  case (begin_alive t)
  then show ?case by (simp add: connected_start_def reachable.start)
next
  case (step_alive t t')
  then show ?case using life_step_threads [of n t t'] reachable.step by metis
qed

subsection \<open>Nothing happens on a closed line\<close>

definition life_inv :: "lifecycle \<Rightarrow> bool" where
  "life_inv t \<longleftrightarrow> (running_flag t \<longleftrightarrow> phase t \<in> {WTest, WLeave} \<union> range WLoop) \<and>
     (closer t \<in> {KClose, KDisconnect, KDone} \<longrightarrow> phase t = WEnded) \<and>
     (line_open t \<longleftrightarrow> closer t \<notin> {KDisconnect, KDone}) \<and> (tty_connected t \<longleftrightarrow> closer t \<noteq> KDone) \<and>
     (stop_flag t \<longleftrightarrow> closer t \<noteq> KIdle) \<and> (phase t \<in> {WLoop True, WLeave, WEnded} \<longrightarrow> stop_flag t) \<and>
     (phase t \<notin> range WLoop \<longrightarrow> wpc (threads t) = WSelect)"

lemma life_inv_step:
  assumes "life_inv t" and "life_step n t t'"
  shows "life_inv t'"
  using assms(2)
proof cases
  case closing
  then show ?thesis using assms(1) by (cases rule: close_step.cases) (auto simp: life_inv_def)
next
  case (caller i s)
  then show ?thesis using assms(1) caller_step_others [of i "threads t" s] by (auto simp: life_inv_def)
qed (use assms(1) in \<open>auto simp: life_inv_def loop_end_def\<close>)

lemma alive_life_inv: "alive n t \<Longrightarrow> life_inv t"
proof (induction rule: alive.induct)
  case (begin_alive t)
  then show ?case by (auto simp: life_inv_def connected_start_def initial_def)
qed (rule life_inv_step)

text \<open>The worker has ended: it takes no further step, and nothing of what it does can change.\<close>

lemma ended_step:
  assumes "phase t = WEnded" and "life_step n t t'"
  shows "phase t' = WEnded \<and> sent (threads t') = sent (threads t) \<and> wpc (threads t') = wpc (threads t) \<and>
    (recvq (threads t') = [] \<or> length (recvq (threads t')) \<le> length (recvq (threads t)))"
  using assms(2)
proof cases
  case (caller i s)
  have "length (recvq s) \<le> length (recvq (threads t))"
    using caller(3) by (elim caller_stepE) (auto simp: state_ops)
  then show ?thesis using caller assms(1) caller_step_others [OF caller(3)] by simp
next
  case closing
  then show ?thesis using assms(1) close_step_threads by auto
qed (use assms(1) in auto)

lemma ended_run:
  assumes "(life_step n)\<^sup>*\<^sup>* t t'" and "phase t = WEnded"
  shows "phase t' = WEnded \<and> sent (threads t') = sent (threads t) \<and> wpc (threads t') = wpc (threads t)"
  using assms by (induction rule: rtranclp_induct) (auto dest: ended_step)

text \<open>C27: The line is closed only when the worker has ended between two turns of its loop, and from then on, whatever the callers
  do, nothing is sent and the worker takes no step: no thread uses the closed descriptor, even if
  \<open>conbee_close\<close> comes before the new thread has begun. A request made too late stays in the send queue
  for ever.\<close>

theorem line_closed_after_worker:
  assumes "alive n t" and "\<not> line_open t" and "(life_step n)\<^sup>*\<^sup>* t t'"
  shows "phase t' = WEnded \<and> wpc (threads t') = WSelect \<and> sent (threads t') = sent (threads t) \<and>
    pushed (threads t') = sent (threads t) @ sendq (threads t')"
proof -
  have inv: "life_inv t" by (rule alive_life_inv [OF assms(1)])
  then have ended: "phase t = WEnded" "wpc (threads t) = WSelect"
    using assms(2) by (auto simp: life_inv_def)
  have run: "phase t' = WEnded" "sent (threads t') = sent (threads t)" "wpc (threads t') = WSelect"
    using ended_run [OF assms(3) ended(1)] ended(2) by simp_all
  have "alive n t'" using assms(3,1) by (induction rule: rtranclp_induct) (auto intro: alive.step_alive)
  then have "token_inv n (threads t')" by (intro reachable_token_inv alive_reachable)
  then show ?thesis using run by (simp add: token_inv_def)
qed

subsection \<open>Callers left behind\<close>

text \<open>Caller \<open>i\<close> is in one of the two calls and has no response yet.\<close>

definition unanswered :: "nat \<Rightarrow> system \<Rightarrow> bool" where
  "unanswered i s \<longleftrightarrow> cpc (callers s i) \<noteq> CDone \<and> cfound (callers s i) = None"

lemma unanswered_caller:
  assumes "unanswered i s" and "recvq s = []" and "caller_step j s s'"
  shows "unanswered i s' \<and> recvq s' = []"
proof (cases "j = i")
  case True
  then show ?thesis
    using assms by (auto simp: unanswered_def state_ops elim!: caller_stepE)
next
  case False
  then have "callers s' i = callers s i" using caller_step_others [OF assms(3)] by simp
  moreover have "recvq s' = []" using assms(2,3) by (elim caller_stepE) (simp_all add: state_ops)
  ultimately show ?thesis using assms(1) by (simp add: unanswered_def)
qed

text \<open>C28: Once the worker has ended with the reception queue empty, no caller that is waiting for a response or
  has yet to begin to wait ever gets one: \<open>conbee_wait_for_frame\<close> looks at no flag and \<open>conbee_close\<close>
  wakes nobody, so the call never returns.\<close>

theorem close_strands_callers:
  assumes "phase t = WEnded" and "recvq (threads t) = []" and "unanswered i (threads t)" and "(life_step n)\<^sup>*\<^sup>* t t'"
  shows "unanswered i (threads t') \<and> recvq (threads t') = []"
proof -
  have "phase t' = WEnded \<and> unanswered i (threads t') \<and> recvq (threads t') = []"
    using assms(4)
  proof (induction rule: rtranclp_induct)
    case base then show ?case using assms(1-3) by simp
  next
    case (step u v)
    from step.hyps(2) show ?case
    proof cases
      case (caller j s)
      then show ?thesis using step.IH unanswered_caller [of i "threads u" j s] by simp
    next
      case closing
      then show ?thesis using step.IH close_step_threads by auto
    qed (use step.IH in auto)
  qed
  then show ?thesis by simp
qed

subsection \<open>Closing behind a stuck caller\<close>

text \<open>With a caller that scans a reception queue headed by a frame it does not want, and a frame from the
  stick that the worker is about to queue, \<open>conbee_close\<close> never gets past its first loop: the worker
  waits for the mutex the caller keeps for ever, so it never tests \<open>worker_stop\<close> again.\<close>

lemma close_hangs_behind_stuck_scan:
  assumes "alive n t" and "stuck_scan i (threads t)" and "wpc (threads t) = WLockReceive fr"
    and "closer t \<in> {KIdle, KPoll}" and "(life_step n)\<^sup>*\<^sup>* t t'"
  shows "closer t' \<in> {KIdle, KPoll} \<and> line_open t' \<and> running_flag t' \<and> sent (threads t') = sent (threads t)"
proof -
  have "alive n t' \<and> stuck_scan i (threads t') \<and> wpc (threads t') = WLockReceive fr \<and> closer t' \<in> {KIdle, KPoll} \<and>
      sent (threads t') = sent (threads t)"
    using assms(5)
  proof (induction rule: rtranclp_induct)
    case base then show ?case using assms(1-4) by simp
  next
    case (step u v)
    have alive: "alive n u" "alive n v" using step alive.step_alive by auto
    have "running_flag u" using alive_life_inv [OF alive(1)] step.IH by (auto simp: life_inv_def)
    then have "closer v \<in> {KIdle, KPoll}"
      using step.hyps(2) step.IH by (auto elim!: life_stepE close_stepE)
    moreover have "stuck_scan i (threads v) \<and> wpc (threads v) = WLockReceive fr \<and> sent (threads v) = sent (threads u)"
      using life_step_threads [OF step.hyps(2)] step.IH stuck_scan_step [OF alive_reachable [OF alive(1)]] by fastforce
    ultimately show ?case using alive(2) step.IH by simp
  qed
  moreover from this have "life_inv t'" using alive_life_inv by blast
  ultimately show ?thesis by (auto simp: life_inv_def)
qed

subsection \<open>Runs of the whole life\<close>

text \<open>Every state the callers and the worker can reach can be reached before anybody closes.\<close>

lemma alive_turn:
  assumes "alive n t" and "phase t = WLoop False" and "\<not> stop_flag t" and "sys_step n (threads t) s"
  shows "\<exists>t'. alive n t' \<and> threads t' = s \<and> closer t' = closer t \<and> phase t' = WLoop False \<and> \<not> stop_flag t'"
proof -
  consider (worker) "worker_step n (threads t) s" | (caller) i where "i < n" "caller_step i (threads t) s"
    using assms(4) by (auto simp: sys_step_def)
  then show ?thesis
  proof cases
    case worker
    let ?u = "t\<lparr>threads := s, phase := (if wpc s = WSelect then loop_end False else WLoop False)\<rparr>"
    have u: "alive n ?u" by (rule alive.step_alive [OF assms(1) life_step.turn [OF assms(2) worker]])
    show ?thesis
    proof (cases "wpc s = WSelect")
      case True
      have "alive n (?u\<lparr>phase := WLoop (stop_flag ?u)\<rparr>)"
        by (rule alive.step_alive [OF u life_step.test_stop]) (simp add: True loop_end_def)
      then show ?thesis using assms(3) by (intro exI) auto
    next
      case False
      then show ?thesis using u assms(3) by (intro exI) auto
    qed
  next
    case caller
    then show ?thesis
      using alive.step_alive [OF assms(1) life_step.caller [OF caller]] assms(2,3) by (intro exI) auto
  qed
qed

lemma reachable_alive:
  "reachable n s \<Longrightarrow> \<exists>t. alive n t \<and> threads t = s \<and> closer t = KIdle \<and> phase t = WLoop False \<and> \<not> stop_flag t"
proof (induction rule: reachable.induct)
  case (start s)
  let ?t = "\<lparr>threads = s, stop_flag = False, running_flag = False, phase = WStart, closer = KIdle, line_open = True, tty_connected = True\<rparr>"
  have "alive n ?t" by (rule alive.begin_alive) (simp add: connected_start_def start)
  from alive.step_alive [OF this life_step.begin_worker]
  have "alive n (?t\<lparr>running_flag := True, phase := WTest\<rparr>)" by simp
  from alive.step_alive [OF this life_step.test_stop] show ?case by (intro exI) auto
next
  case (step s s')
  then show ?case using alive_turn by metis
qed

text \<open>With the worker at \<open>select\<close>, four steps of the worker are enough for \<open>conbee_close\<close> to return.\<close>

lemma close_can_return:
  assumes "phase t = WLoop stop" and "wpc (threads t) = WSelect" and "closer t = KIdle"
  shows "\<exists>t'. (life_step n)\<^sup>*\<^sup>* t t' \<and> threads t' = threads t \<and> closer t' = KDone \<and> phase t' = WEnded \<and>
    \<not> line_open t' \<and> \<not> tty_connected t'"
proof -
  have more: "(life_step n)\<^sup>*\<^sup>* t v" if "(life_step n)\<^sup>*\<^sup>* t u" "life_step n u v" for u v
    using that by (rule rtranclp.rtrancl_into_rtrancl)
  note select = assms(2)
  define leaving where "leaving = t\<lparr>stop_flag := True, closer := KPoll, phase := WLeave\<rparr>"
  have "(life_step n)\<^sup>*\<^sup>* t (t\<lparr>stop_flag := True, closer := KPoll\<rparr>)"
    by (rule r_into_rtranclp) (intro life_step.closing set_stop assms(3))
  note r1 = more [OF this life_step.timeout [of _ stop]]
  have "(life_step n)\<^sup>*\<^sup>* t leaving"
  proof (cases stop)
    case True
    then show ?thesis using r1 assms by (simp add: leaving_def loop_end_def)
  next
    case False
    then have r2: "(life_step n)\<^sup>*\<^sup>* t (t\<lparr>stop_flag := True, closer := KPoll, phase := WTest\<rparr>)"
      using r1 assms by (simp add: loop_end_def)
    note r3 = more [OF r2 life_step.test_stop, simplified]
    show ?thesis using more [OF r3 life_step.timeout [of _ True]] select by (simp add: leaving_def loop_end_def)
  qed
  note r4 = more [OF this life_step.leave, unfolded leaving_def, simplified]
  note r5 = more [OF r4 life_step.closing [OF poll_stopped], simplified]
  note r6 = more [OF r5 life_step.closing [OF join], simplified]
  note r7 = more [OF r6 life_step.closing [OF close_line], simplified]
  note r8 = more [OF r7 life_step.closing [OF disconnect], simplified]
  show ?thesis by (intro exI conjI, rule r8) simp_all
qed

lemma alive_closed:
  assumes "reachable n s" and "wpc s = WSelect"
  shows "\<exists>t. alive n t \<and> threads t = s \<and> phase t = WEnded \<and> \<not> line_open t"
proof -
  obtain t where t: "alive n t" "threads t = s" "closer t = KIdle" "phase t = WLoop False"
    using reachable_alive [OF assms(1)] by blast
  obtain t' where t': "(life_step n)\<^sup>*\<^sup>* t t'" "threads t' = s" "phase t' = WEnded" "\<not> line_open t'"
    using close_can_return [OF t(4) _ t(3), of n] t(2) assms(2) by auto
  have "alive n t'" using t'(1) t(1) by (induction rule: rtranclp_induct) (auto intro: alive.step_alive)
  with t' show ?thesis by blast
qed

theorem line_closed_after_worker_witness:
  "\<exists>t. alive 1 t \<and> \<not> line_open t \<and> phase t = WEnded \<and> pushed (threads t) = sent (threads t) @ [status_query 0]"
proof -
  have wpc: "wpc (between_locks (status_query 0) 7) = WSelect" "sendq (between_locks (status_query 0) 7) = [status_query 0]"
    by (simp_all add: between_locks_def quiet_system_def status_query_def)
  obtain t where t: "alive 1 t" "threads t = between_locks (status_query 0) 7" "\<not> line_open t"
    using alive_closed [OF reachable_between_locks wpc(1)] by blast
  show ?thesis using line_closed_after_worker [OF t(1,3) rtranclp.rtrancl_refl] t wpc(2) by auto
qed

theorem close_strands_callers_witness:
  "\<exists>t. alive 1 t \<and> \<not> line_open t \<and> unanswered 0 (threads t)"
proof -
  let ?s = "between_locks (status_query 0) 7"
  have s: "wpc ?s = WSelect" "recvq ?s = []" "unanswered 0 ?s"
    by (simp_all add: between_locks_def quiet_system_def unanswered_def)
  obtain t where t: "alive 1 t" "threads t = ?s" "phase t = WEnded" "\<not> line_open t"
    using alive_closed [OF reachable_between_locks s(1)] by blast
  show ?thesis using close_strands_callers [where i = 0 and n = 1, OF t(3) _ _ rtranclp.rtrancl_refl] t s by auto
qed

end
