(* ===== verification/Format.thy ===== *)
theory Format
  imports Conbee_Prelude
begin

text \<open>
  The conversions of \<open>printf\<close> the command line tool uses: \<open>%d\<close> and \<open>%u\<close> in decimal, and \<open>%.nX\<close> in
  hexadecimal with at least \<open>n\<close> digits, and \<open>strtol\<close>, which reads numbers back.
\<close>

subsection \<open>Numbers to text\<close>

definition digit_char :: "nat \<Rightarrow> char" where
  "digit_char d = char_of (if d < 10 then 48 + d else 55 + d)"

fun numeral_text :: "nat \<Rightarrow> nat \<Rightarrow> string" where
  "numeral_text base n =
     (if base < 2 \<or> n < base then [digit_char n] else numeral_text base (n div base) @ [digit_char (n mod base)])"

declare numeral_text.simps [simp del]

definition format_u :: "nat \<Rightarrow> string" where
  "format_u n = numeral_text 10 n"

definition format_d :: "int \<Rightarrow> string" where
  "format_d n = (if n < 0 then CHR ''-'' # format_u (nat (- n)) else format_u (nat n))"

definition format_X :: "nat \<Rightarrow> nat \<Rightarrow> string" where
  "format_X places n = (let s = numeral_text 16 n in replicate (places - length s) CHR ''0'' @ s)"

subsection \<open>Text to numbers\<close>

definition digit_value :: "char \<Rightarrow> nat" where
  "digit_value c = (let k = (of_char c :: nat)
     in if 48 \<le> k \<and> k \<le> 57 then k - 48 else if 65 \<le> k \<and> k \<le> 90 then k - 55 else if 97 \<le> k \<and> k \<le> 122 then k - 87 else 99)"

fun digits :: "nat \<Rightarrow> nat \<Rightarrow> string \<Rightarrow> nat" where
  "digits base acc [] = acc"
| "digits base acc (c # s) = (if digit_value c < base then digits base (base * acc + digit_value c) s else acc)"

definition is_space :: "char \<Rightarrow> bool" where
  "is_space c \<longleftrightarrow> c = CHR 0x20 \<or> (9 \<le> (of_char c :: nat) \<and> (of_char c :: nat) \<le> 13)"

text \<open>A string is its characters without the NUL; the character behind the last one is that NUL.\<close>

definition char_at :: "string \<Rightarrow> nat \<Rightarrow> char" where
  "char_at s k = (if k < length s then s ! k else CHR 0x00)"

lemma char_at_simps [simp]:
  "char_at [] k = CHR 0x00" "char_at (c # s) 0 = c" "char_at (c # s) (Suc k) = char_at s k" "char_at (c # s) 1 = char_at s 0"
  by (simp_all add: char_at_def)

text \<open>\<open>strtol\<close> on a 64-bit \<open>long\<close>, which it never leaves.\<close>

definition strtol :: "string \<Rightarrow> nat \<Rightarrow> int" where
  "strtol s base =
     (let s = dropWhile is_space s;
          neg = (char_at s 0 = CHR ''-'');
          s = (if neg \<or> char_at s 0 = CHR ''+'' then tl s else s);
          s = (if base = 16 \<and> char_at s 0 = CHR ''0'' \<and> char_at s 1 \<in> {CHR ''x'', CHR ''X''} \<and>
                  digit_value (char_at s 2) < 16 then drop 2 s else s);
          n = int (digits base 0 s)
      in if neg then max (- (2 ^ 63)) (- n) else min (2 ^ 63 - 1) n)"

subsection \<open>Reading what was printed\<close>

lemma of_char_digit: "d < 16 \<Longrightarrow> (of_char (digit_char d) :: nat) = (if d < 10 then 48 + d else 55 + d)"
  by (simp add: digit_char_def)

lemma digit_value_digit: "d < 16 \<Longrightarrow> digit_value (digit_char d) = d"
  by (simp add: digit_value_def of_char_digit)

lemma digits_append:
  "(\<And>c. c \<in> set s \<Longrightarrow> digit_value c < base) \<Longrightarrow> digits base acc (s @ t) = digits base (digits base acc s) t"
  by (induction s arbitrary: acc) auto

lemma numeral_text_digits:
  "2 \<le> base \<Longrightarrow> base \<le> 16 \<Longrightarrow> c \<in> set (numeral_text base n) \<Longrightarrow> \<exists>d < base. c = digit_char d"
proof (induction base n rule: numeral_text.induct)
  case (1 base n)
  have "\<exists>d<base. digit_char (n mod base) = digit_char d"
    using 1(2) by (intro exI [of _ "n mod base"]) simp
  with 1 show ?case
    using numeral_text.simps [of base n] by (cases "n < base") auto
qed

lemma digits_numeral_text:
  "2 \<le> base \<Longrightarrow> base \<le> 16 \<Longrightarrow> digits base 0 (numeral_text base n) = n"
proof (induction base n rule: numeral_text.induct)
  case (1 base n)
  have small: "digit_value c < base" if "c \<in> set (numeral_text base k)" for c k
    using numeral_text_digits [OF 1(2,3) that] 1(3) digit_value_digit by auto
  have last: "digit_value (digit_char (n mod base)) = n mod base"
    using 1(2,3) mod_less_divisor [of base n] by (intro digit_value_digit) linarith
  show ?case
  proof (cases "n < base")
    case True
    then show ?thesis using last 1(2,3) by (simp add: numeral_text.simps [of base n])
  next
    case False
    then have "digits base 0 (numeral_text base (n div base)) = n div base" using 1 by simp
    with False last 1(2) show ?thesis
      by (simp add: numeral_text.simps [of base n] digits_append small)
  qed
qed

lemma numeral_text_cons:
  assumes "2 \<le> base" "base \<le> 16"
  obtains d s where "numeral_text base n = digit_char d # s" "d < base"
proof -
  have "numeral_text base n \<noteq> []" by (subst numeral_text.simps) simp
  then obtain c s where cs: "numeral_text base n = c # s" by (cases "numeral_text base n") auto
  then obtain d where "d < base" "c = digit_char d" using numeral_text_digits [OF assms, of c n] by auto
  with cs that show ?thesis by blast
qed

lemma digit_char_plain:
  assumes "d < 16"
  shows "digit_char d \<noteq> CHR ''-''" "digit_char d \<noteq> CHR ''+''" "\<not> is_space (digit_char d)"
proof -
  have "\<forall>d \<in> set [0..<16]. digit_char d \<noteq> CHR ''-'' \<and> digit_char d \<noteq> CHR ''+'' \<and> \<not> is_space (digit_char d)"
    by code_simp
  then show "digit_char d \<noteq> CHR ''-''" "digit_char d \<noteq> CHR ''+''" "\<not> is_space (digit_char d)"
    using assms by simp_all
qed

lemma strtol_format_u: "int n < 2 ^ 63 \<Longrightarrow> strtol (format_u n) 10 = int n"
proof -
  assume n: "int n < 2 ^ 63"
  obtain d s where ds: "numeral_text 10 n = digit_char d # s" "d < 10" by (rule numeral_text_cons [of 10 n]) auto
  have "digits 10 0 (digit_char d # s) = n" using digits_numeral_text [of 10 n] ds(1) by simp
  then show ?thesis
    using n ds(2) digit_char_plain [of d] by (simp add: strtol_def format_u_def ds(1) Let_def del: digits.simps)
qed

lemma strtol_minus: "int n \<le> 2 ^ 63 \<Longrightarrow> strtol (CHR ''-'' # format_u n) 10 = - int n"
  using digits_numeral_text [of 10 n] by (simp add: strtol_def format_u_def Let_def is_space_def)

text \<open>What \<open>%d\<close> prints, \<open>strtol\<close> reads.\<close>

lemma strtol_format_d: "- (2 ^ 63) \<le> n \<Longrightarrow> n < 2 ^ 63 \<Longrightarrow> strtol (format_d n) 10 = n"
  using strtol_format_u [of "nat n"] strtol_minus [of "nat (- n)"] by (auto simp: format_d_def)

lemma numeral_text_bound: "2 \<le> base \<Longrightarrow> n < base ^ length (numeral_text base n)"
proof (induction base n rule: numeral_text.induct)
  case (1 base n)
  show ?case
  proof (cases "n < base")
    case False
    then have "n div base < base ^ length (numeral_text base (n div base))" using 1 by simp
    then have "n < base ^ length (numeral_text base (n div base)) * base" using 1(2) by (simp add: div_less_iff_less_mult)
    with False 1(2) show ?thesis by (simp add: numeral_text.simps [of base n] mult.commute)
  qed (simp add: numeral_text.simps [of base n])
qed

lemma numeral_text_no_NUL: "2 \<le> base \<Longrightarrow> base \<le> 16 \<Longrightarrow> CHR 0x00 \<notin> set (numeral_text base n)"
proof
  assume base: "2 \<le> base" "base \<le> 16" and "CHR 0x00 \<in> set (numeral_text base n)"
  from numeral_text_digits [OF base this(3)] obtain d where d: "d < base" "CHR 0x00 = digit_char d" by blast
  then have "(of_char (digit_char d) :: nat) = 0" by (simp flip: d(2))
  then show False using of_char_digit [of d] d(1) base(2) by (simp split: if_splits)
qed

subsection \<open>Hexadecimal text in a buffer\<close>

lemma digits_stop: "\<not> digit_value c < base \<Longrightarrow> digits base acc (c # s) = acc"
  by simp

lemma digits_numeral_append:
  assumes "2 \<le> base" "base \<le> 16"
  shows "digits base 0 (numeral_text base n @ s) = digits base n s"
proof -
  have "digit_value c < base" if "c \<in> set (numeral_text base n)" for c
    using numeral_text_digits [OF assms that] assms digit_value_digit by auto
  then show ?thesis using digits_numeral_text [OF assms] by (simp add: digits_append)
qed

text \<open>The text of a number does not look like a prefix \<open>0x\<close>, unless one digit is followed by an \<open>x\<close>.\<close>

lemma second_digit:
  assumes "2 \<le> base" "base \<le> 16" and "length (numeral_text base n) > 1 \<or> s = [] \<or> hd s \<notin> {CHR ''x'', CHR ''X''}"
  shows "char_at (numeral_text base n @ s) 1 \<notin> {CHR ''x'', CHR ''X''}"
proof -
  obtain d r where dr: "numeral_text base n = digit_char d # r" by (rule numeral_text_cons [OF assms(1,2)])
  have "\<forall>d \<in> set [0..<16]. digit_char d \<notin> {CHR ''x'', CHR ''X''}" by code_simp
  then have no_x: "c \<notin> {CHR ''x'', CHR ''X''}" if "c \<in> set (numeral_text base n)" for c
    using numeral_text_digits [OF assms(1,2) that] assms(2) by fastforce
  show ?thesis
  proof (cases r)
    case Nil
    then show ?thesis using assms(3) dr by (cases s) auto
  next
    case (Cons c r')
    then show ?thesis using no_x [of c] dr by auto
  qed
qed

lemma strtol_numeral:
  assumes "base \<in> {10, 16}" and "length (numeral_text base n) > 1 \<or> s = [] \<or> hd s \<notin> {CHR ''x'', CHR ''X''}"
  shows "strtol (numeral_text base n @ s) base = min (2 ^ 63 - 1) (int (digits base n s))"
proof -
  have base: "2 \<le> base" "base \<le> 16" using assms(1) by auto
  obtain d r where dr: "numeral_text base n = digit_char d # r" "d < base" by (rule numeral_text_cons [OF base])
  have "char_at (numeral_text base n @ s) 1 \<notin> {CHR ''x'', CHR ''X''}" by (rule second_digit [OF base assms(2)])
  then show ?thesis
    using digit_char_plain [of d] dr base digits_numeral_append [OF base, of n s]
    by (simp add: strtol_def Let_def del: digits.simps)
qed

end
