(* ===== verification/Argparse.thy ===== *)
theory Argparse
  imports Format
begin

text \<open>
  The command line parser of \<open>libs/yaap/src/argparse.c\<close>. The objects a program registers are values of one
  datatype, with the variable an option points to inside the option; a callback is a value the caller
  of the parser interprets, since calling it is the last thing the parser does. \<open>argv\<close> is a list of
  strings with the null pointer, \<open>None\<close>, that C puts at its end; to follow the null pointer or to
  go beyond it is undefined.
\<close>

subsection \<open>The structures\<close>

record arg_base =
  mandatory :: int
  is_set :: int

datatype 'c callback = ArgparseHelp | UserCallback 'c

record 'c arg_parse_cmd =
  cmd_base :: arg_base
  no_command :: int
  cmd_name :: string
  cmd_description :: string
  cmd_cb :: 'c

record arg_str =
  str_base :: arg_base
  str_short :: char
  str_long :: string
  str_value :: "char list"
  str_maxchars :: nat
  str_description :: string

record 'c arg_flag =
  flag_base :: arg_base
  flag_short :: char
  flag_long :: string
  flag_description :: string
  flag_cb :: "'c callback option"

text \<open>\<open>int_value\<close> is the variable the option sets, \<open>None\<close> if its pointer is null.\<close>

record arg_int =
  int_base :: arg_base
  int_short :: char
  int_long :: string
  int_description :: string
  int_value :: "32 word option"

text \<open>What \<open>ctx->arguments\<close> points to; the constructor is the field \<open>type\<close>, an \<open>enum argtypes\<close>.\<close>

datatype 'c argument =
    ARG_CMD "'c arg_parse_cmd"
  | ARG_FLAG "'c arg_flag"
  | ARG_STR arg_str
  | ARG_INT arg_int

fun to_argbase :: "'c argument \<Rightarrow> arg_base" where
  "to_argbase (ARG_CMD c) = cmd_base c"
| "to_argbase (ARG_FLAG f) = flag_base f"
| "to_argbase (ARG_STR s) = str_base s"
| "to_argbase (ARG_INT n) = int_base n"

text \<open>\<open>nr_arguments\<close> is the length of the list, \<open>capacity\<close> the number of pointers allocated for it.\<close>

record 'c arg_parse_ctx =
  arguments :: "'c argument list"
  capacity :: nat

definition ARGPARSE_INITIAL_COMMAND_NR :: nat where "ARGPARSE_INITIAL_COMMAND_NR = 5"

subsection \<open>Registering arguments\<close>

text \<open>The body the four \<open>argparse_add\<close> functions share; \<open>got\<close> says whether \<open>realloc\<close> finds memory.\<close>

definition add_argument ::
  "bool \<Rightarrow> 'c arg_parse_ctx option \<Rightarrow> 'c argument option \<Rightarrow> ub + int \<times> 'c arg_parse_ctx option" where
  "add_argument got ctx arg =
     (case (ctx, arg) of
        (Some c, Some a) \<Rightarrow>
          (let nr = length (arguments c);
               grow = (nr mod ARGPARSE_INITIAL_COMMAND_NR = 0);
               room = (if grow then nr + ARGPARSE_INITIAL_COMMAND_NR else capacity c)
           in if grow \<and> \<not> got then Inl NullDeref
              else if nr < room then Inr (0, Some \<lparr>arguments = arguments c @ [a], capacity = room\<rparr>)
              else Inl OutOfBounds)
      | _ \<Rightarrow> Inr (-1, ctx))"

definition argparse_add_command ::
  "bool \<Rightarrow> 'c arg_parse_ctx option \<Rightarrow> 'c arg_parse_cmd option \<Rightarrow> ub + int \<times> 'c arg_parse_ctx option" where
  "argparse_add_command got ctx cmd = add_argument got ctx (map_option ARG_CMD cmd)"

definition argparse_add_string ::
  "bool \<Rightarrow> 'c arg_parse_ctx option \<Rightarrow> arg_str option \<Rightarrow> ub + int \<times> 'c arg_parse_ctx option" where
  "argparse_add_string got ctx str = add_argument got ctx (map_option ARG_STR str)"

definition argparse_add_flag ::
  "bool \<Rightarrow> 'c arg_parse_ctx option \<Rightarrow> 'c arg_flag option \<Rightarrow> ub + int \<times> 'c arg_parse_ctx option" where
  "argparse_add_flag got ctx flag = add_argument got ctx (map_option ARG_FLAG flag)"

definition argparse_add_int ::
  "bool \<Rightarrow> 'c arg_parse_ctx option \<Rightarrow> arg_int option \<Rightarrow> ub + int \<times> 'c arg_parse_ctx option" where
  "argparse_add_int got ctx integer = add_argument got ctx (map_option ARG_INT integer)"

definition help_flag :: "'c arg_flag" where
  "help_flag = \<lparr>flag_base = \<lparr>mandatory = 0, is_set = 0\<rparr>, flag_short = CHR ''h'', flag_long = ''help'',
     flag_description = ''print help message'', flag_cb = Some ArgparseHelp\<rparr>"

text \<open>
  The three allocations of \<open>argparse_init\<close> and the \<open>realloc\<close> in the call it makes; the third is not tested.
\<close>

definition argparse_init :: "bool \<Rightarrow> bool \<Rightarrow> bool \<Rightarrow> bool \<Rightarrow> ub + 'c arg_parse_ctx option" where
  "argparse_init got_ctx got_array got_flag got =
     (if \<not> got_ctx then Inr None
      else if \<not> got_array then Inr None
      else if \<not> got_flag then Inl NullDeref
      else map_sum id snd (argparse_add_flag got
             (Some \<lparr>arguments = [], capacity = ARGPARSE_INITIAL_COMMAND_NR\<rparr>) (Some help_flag)))"

text \<open>The arguments \<open>argparse_free\<close> hands to \<open>free\<close> before it frees the array and the context.\<close>

definition argparse_free :: "'c arg_parse_ctx \<Rightarrow> 'c argument list" where
  "argparse_free ctx = [a \<leftarrow> arguments ctx. case a of ARG_FLAG f \<Rightarrow> flag_short f = CHR ''h'' | _ \<Rightarrow> False]"

subsection \<open>The usage message\<close>

abbreviation nl :: string where "nl \<equiv> [CHR 0x0A]"
abbreviation tab :: string where "tab \<equiv> [CHR 0x09]"

definition pad20 :: "string \<Rightarrow> string" where
  "pad20 s = replicate (20 - length s) CHR 0x20 @ s"

fun usage_command :: "'c argument \<Rightarrow> string" where
  "usage_command (ARG_CMD c) = tab @ pad20 (cmd_name c) @ tab @ tab @ cmd_description c @ nl"
| "usage_command _ = []"

fun usage_argument :: "'c argument \<Rightarrow> string" where
  "usage_argument (ARG_STR s) = tab @ ''-'' @ [str_short s] @ '' <string>|--'' @ str_long s @ ''=<string>'' @
     tab @ tab @ str_description s @ nl"
| "usage_argument (ARG_FLAG f) = tab @ ''-'' @ [flag_short f] @ '' | --'' @ flag_long f @ tab @ tab @ flag_description f @ nl"
| "usage_argument (ARG_INT n) = tab @ ''-'' @ [int_short n] @ '' <integer> | --'' @ int_long n @ ''=<integer>'' @
     tab @ tab @ int_description n @ nl"
| "usage_argument (ARG_CMD c) = []"

definition argparse_usage :: "'c argument list \<Rightarrow> string \<Rightarrow> string" where
  "argparse_usage args program =
     ''usage: '' @ program @ '' <command> [<args>]'' @ nl @ nl @ ''Available commands: '' @ nl @
     concat (map usage_command args) @ nl @ ''Available Arguments: '' @ nl @ concat (map usage_argument args) @ nl"

definition argparse_unknown_command :: "'c argument list \<Rightarrow> string \<Rightarrow> string \<Rightarrow> string" where
  "argparse_unknown_command args program command =
     program @ '': '' @ [CHR 0x27] @ command @ [CHR 0x27] @ '' is not a supported command.'' @ nl @ nl @
     argparse_usage args program"

subsection \<open>Strings as the parser uses them\<close>

definition get_arg :: "string option list \<Rightarrow> nat \<Rightarrow> ub + string" where
  "get_arg argv i =
     (if i < length argv then case argv ! i of None \<Rightarrow> Inl NullDeref | Some s \<Rightarrow> Inr s else Inl OutOfBounds)"

text \<open>\<open>strncpy\<close>: at most \<open>n\<close> characters, filled up with NUL to \<open>n\<close> if the string is shorter.\<close>

definition strncpy :: "char list \<Rightarrow> string \<Rightarrow> nat \<Rightarrow> ub + char list" where
  "strncpy buffer s n =
     (if n \<le> length buffer
      then Inr (take n s @ replicate (n - length s) CHR 0x00 @ drop n buffer)
      else Inl OutOfBounds)"

text \<open>\<open>strtok\<close> with the delimiter \<open>=\<close>: the token, \<open>None\<close> if there is none, and the rest for the next call.\<close>

definition strtok :: "string \<Rightarrow> string option \<times> string" where
  "strtok s = (let s = dropWhile (\<lambda>c. c = CHR ''='') s
     in if s = [] then (None, [])
        else (Some (takeWhile (\<lambda>c. c \<noteq> CHR ''='') s), tl (dropWhile (\<lambda>c. c \<noteq> CHR ''='') s)))"

subsection \<open>The parser\<close>

text \<open>How the loops of \<open>argparse_parse\<close> end early: with a message, or in a callback with its arguments.\<close>

datatype 'c outcome =
    ValueMissing char
  | UnknownArgument string
  | CallCommand 'c nat "string option list"
  | CallFlag "'c callback" "string option list"

definition set_base :: "arg_base \<Rightarrow> arg_base" where
  "set_base b = b\<lparr>is_set := 1\<rparr>"

definition store_int :: "arg_int \<Rightarrow> (ub + string) \<Rightarrow> ub + arg_int" where
  "store_int n text =
     (case int_value n of
        None \<Rightarrow> Inr n
      | Some _ \<Rightarrow> map_sum id (\<lambda>s. n\<lparr>int_value := Some (word_of_int (strtol s 10))\<rparr>) text)"

text \<open>
  The body of the inner loop for the registered argument \<open>a\<close>. It may move \<open>i\<close>, the index of the current
  string, and a long option with an integer cuts the current string at its \<open>=\<close>.
\<close>

fun check_argument ::
  "nat \<Rightarrow> 'c argument \<Rightarrow> nat \<Rightarrow> bool \<Rightarrow> string option list \<Rightarrow>
   ub + 'c outcome option \<times> nat \<times> bool \<times> string option list \<times> 'c argument" where
  "check_argument argc (ARG_CMD c) i found argv = bindE (get_arg argv i) (\<lambda>s.
     if char_at s 0 \<noteq> CHR ''-'' \<and> cmd_name c = s
     then Inr (Some (CallCommand (cmd_cb c) (argc - 1) (drop i argv)), i, True, argv, ARG_CMD c)
     else Inr (None, i, found, argv, ARG_CMD c))"
| "check_argument argc (ARG_STR t) i found argv = bindE (get_arg argv i) (\<lambda>s.
     if char_at s 0 = CHR ''-'' \<and> char_at s 1 \<noteq> CHR ''-'' \<and> char_at s 1 = str_short t
     then if i + 1 < argc
          then bindE (get_arg argv (i + 1)) (\<lambda>v.
               bindE (strncpy (str_value t) v (str_maxchars t)) (\<lambda>buffer.
               Inr (None, i + 1, True, argv, ARG_STR (t\<lparr>str_value := buffer, str_base := set_base (str_base t)\<rparr>))))
          else Inr (Some (ValueMissing (str_short t)), i, True, argv, ARG_STR t)
     else Inr (None, i, found, argv, ARG_STR t))"
| "check_argument argc (ARG_FLAG f) i found argv = bindE (get_arg argv i) (\<lambda>s.
     if char_at s 0 = CHR ''-'' \<and>
        (if char_at s 1 = CHR ''-'' then drop 2 s = flag_long f else char_at s 1 = flag_short f)
     then Inr (map_option (\<lambda>cb. CallFlag cb argv) (flag_cb f), i, True, argv,
               ARG_FLAG (f\<lparr>flag_base := set_base (flag_base f)\<rparr>))
     else Inr (None, i, found, argv, ARG_FLAG f))"
| "check_argument argc (ARG_INT n) i found argv = bindE (get_arg argv i) (\<lambda>s.
     if char_at s 0 = CHR ''-''
     then if char_at s 1 = CHR ''-''
          then (case strtok s of
              (None, _) \<Rightarrow> Inl NullDeref
            | (Some tok, rest) \<Rightarrow>
                let argv = argv[i := Some tok]
                in if drop 2 tok = int_long n
                   then bindE (store_int n (case strtok rest of (None, _) \<Rightarrow> Inl NullDeref | (Some v, _) \<Rightarrow> Inr v)) (\<lambda>n.
                        Inr (None, i, True, argv, ARG_INT (n\<lparr>int_base := set_base (int_base n)\<rparr>)))
                   else Inr (None, i, found, argv, ARG_INT n))
          else if char_at s 1 = int_short n
          then bindE (store_int n (get_arg argv (i + 1))) (\<lambda>n.
               Inr (None, i + 1, True, argv, ARG_INT (n\<lparr>int_base := set_base (int_base n)\<rparr>)))
          else Inr (None, i, found, argv, ARG_INT n)
     else Inr (None, i, found, argv, ARG_INT n))"

text \<open>The loop over the registered arguments; the string at \<open>i\<close> is looked up anew for each of them.\<close>

fun match_arguments ::
  "nat \<Rightarrow> 'c argument list \<Rightarrow> nat \<Rightarrow> bool \<Rightarrow> string option list \<Rightarrow>
   ub + 'c outcome option \<times> nat \<times> bool \<times> string option list \<times> 'c argument list" where
  "match_arguments argc [] i found argv = Inr (None, i, found, argv, [])"
| "match_arguments argc (a # as) i found argv =
     bindE (check_argument argc a i found argv) (\<lambda>(out, i, found, argv, a).
     if out \<noteq> None then Inr (out, i, found, argv, a # as)
     else bindE (match_arguments argc as i found argv) (\<lambda>(out, i, found, argv, as).
          Inr (out, i, found, argv, a # as)))"

lemma check_argument_index: "check_argument argc a i found argv = Inr (out, j, r) \<Longrightarrow> i \<le> j"
  by (cases a) (auto simp: bindE_eq_Inr Let_def split: if_splits option.splits prod.splits)

lemma match_arguments_index: "match_arguments argc as i found argv = Inr (out, j, r) \<Longrightarrow> i \<le> j"
proof (induction as arbitrary: i found argv out j r)
  case (Cons a as)
  then show ?case by (fastforce simp: bindE_eq_Inr split: if_splits dest: check_argument_index)
qed simp

text \<open>The loop over the strings.\<close>

function parse_loop ::
  "nat \<Rightarrow> 'c argument list \<Rightarrow> nat \<Rightarrow> string option list \<Rightarrow> ub + 'c outcome option \<times> 'c argument list" where
  "parse_loop argc args i argv =
     (if i < argc
      then bindE (match_arguments argc args i False argv) (\<lambda>(out, j, found, argv, args).
           if out \<noteq> None then Inr (out, args)
           else if found then parse_loop argc args (j + 1) argv
           else bindE (get_arg argv j) (\<lambda>s. Inr (Some (UnknownArgument s), args)))
      else Inr (None, args))"
  by pat_completeness auto
termination
  by (relation "measure (\<lambda>(argc, args, i, argv). argc - i)") (auto dest: match_arguments_index)

declare parse_loop.simps [simp del]

text \<open>
  What \<open>argparse_parse\<close> does in the end: return a code having printed something, or return what a
  callback returns: a command's on its own arguments, or a flag's.
\<close>

datatype 'c parse_result =
    Returned int string
  | RunCommand 'c nat "string option list"
  | RunFlag 'c "string option list"

fun missing :: "'c argument \<Rightarrow> bool" where
  "missing a \<longleftrightarrow> mandatory (to_argbase a) = 1 \<and> is_set (to_argbase a) = 0"

fun missing_message :: "'c argument \<Rightarrow> string" where
  "missing_message (ARG_STR s) = ''mandatory parameter missing -'' @ [str_short s] @ ''|--'' @ str_long s @ nl @ nl"
| "missing_message _ = ''mandatory parameter missing '' @ nl"

text \<open>The messages name the program, \<open>argv[0]\<close>, which is looked up only for them.\<close>

definition report :: "ub + string \<Rightarrow> 'c argument list \<Rightarrow> int \<Rightarrow> string \<Rightarrow> ub + 'c parse_result" where
  "report program args code msg = bindE program (\<lambda>p. Inr (Returned code (msg @ argparse_usage args p)))"

fun finish_outcome :: "ub + string \<Rightarrow> 'c argument list \<Rightarrow> 'c outcome \<Rightarrow> ub + 'c parse_result" where
  "finish_outcome program args (ValueMissing c) =
     report program args (-1) (''value missing for -'' @ [c] @ '' parameter'' @ nl @ nl)"
| "finish_outcome program args (UnknownArgument s) =
     report program args (-1) (s @ '' is an unknown command/argument'' @ nl @ nl)"
| "finish_outcome program args (CallCommand c argc argv) = Inr (RunCommand c argc argv)"
| "finish_outcome program args (CallFlag ArgparseHelp argv) = report program args 0 []"
| "finish_outcome program args (CallFlag (UserCallback c) argv) = Inr (RunFlag c argv)"

definition argparse_parse ::
  "'c arg_parse_ctx option \<Rightarrow> nat \<Rightarrow> string option list \<Rightarrow> ub + 'c parse_result \<times> 'c argument list" where
  "argparse_parse ctx argc argv =
     (case ctx of
        None \<Rightarrow> Inr (Returned (-1) [], [])
      | Some ctx \<Rightarrow>
          if arguments ctx = [] then Inr (Returned 0 [], [])
          else bindE (parse_loop argc (arguments ctx) 1 argv) (\<lambda>(out, args).
               bindE (case out of
                   Some oc \<Rightarrow> finish_outcome (get_arg argv 0) args oc
                 | None \<Rightarrow>
                     (case filter missing args of
                        [] \<Rightarrow> Inr (Returned 0 [])
                      | a # _ \<Rightarrow> report (get_arg argv 0) args (-1) (missing_message a)))
                 (\<lambda>r. Inr (r, args))))"

subsection \<open>Registering never leaves the array\<close>

fun register_all :: "'c argument list \<Rightarrow> 'c arg_parse_ctx \<Rightarrow> ub + 'c arg_parse_ctx" where
  "register_all [] ctx = Inr ctx"
| "register_all (a # as) ctx =
     bindE (add_argument True (Some ctx) (Some a)) (\<lambda>(r, c). case c of None \<Rightarrow> Inl NullDeref | Some c \<Rightarrow> register_all as c)"

definition array_size :: "nat \<Rightarrow> nat" where
  "array_size nr = 5 * ((nr + 4) div 5)"

lemma array_size_grows: "nr mod 5 = 0 \<Longrightarrow> array_size (Suc nr) = nr + 5"
  by (auto simp: array_size_def elim!: dvdE simp flip: dvd_eq_mod_eq_0)

lemma array_size_stays: "nr mod 5 \<noteq> 0 \<Longrightarrow> array_size (Suc nr) = array_size nr \<and> nr < array_size nr"
  unfolding array_size_def by presburger

lemma add_argument_ok:
  assumes "capacity ctx = array_size (length (arguments ctx)) \<or> arguments ctx = []"
  shows "add_argument True (Some ctx) (Some a) =
     Inr (0, Some \<lparr>arguments = arguments ctx @ [a], capacity = array_size (Suc (length (arguments ctx)))\<rparr>)"
  using assms array_size_grows [of "length (arguments ctx)"] array_size_stays [of "length (arguments ctx)"]
  by (auto simp: add_argument_def ARGPARSE_INITIAL_COMMAND_NR_def Let_def)

lemma register_all_ok:
  "capacity ctx = array_size (length (arguments ctx)) \<Longrightarrow>
   register_all as ctx =
     Inr \<lparr>arguments = arguments ctx @ as, capacity = array_size (length (arguments ctx) + length as)\<rparr>"
  by (induction as arbitrary: ctx) (simp_all add: add_argument_ok)

lemma argparse_init_ok:
  "argparse_init True True True True = Inr (Some \<lparr>arguments = [ARG_FLAG help_flag], capacity = array_size 1\<rparr>)"
  by (simp add: argparse_init_def argparse_add_flag_def add_argument_ok)

text \<open>Whatever is registered after \<open>argparse_init\<close>, no pointer is stored behind the array.\<close>

lemma registering_stays_in_array:
  "bindE (argparse_init True True True True) (\<lambda>ctx. register_all as (the ctx)) =
     Inr \<lparr>arguments = ARG_FLAG help_flag # as, capacity = 5 * ((length as + 5) div 5)\<rparr>"
  by (simp add: argparse_init_ok register_all_ok) (simp add: array_size_def)

subsection \<open>Words and options\<close>

fun find_command :: "'c argument list \<Rightarrow> string \<Rightarrow> 'c option" where
  "find_command [] s = None"
| "find_command (ARG_CMD c # as) s = (if cmd_name c = s then Some (cmd_cb c) else find_command as s)"
| "find_command (_ # as) s = find_command as s"

lemma find_command_name: "find_command as s = Some cb \<Longrightarrow> \<exists>c. ARG_CMD c \<in> set as \<and> cmd_name c = s"
  by (induction as s rule: find_command.induct) (auto split: if_splits)

lemma match_word:
  assumes "get_arg argv i = Inr s" and "char_at s 0 \<noteq> CHR ''-''"
  shows "match_arguments argc as i found argv =
     Inr (case find_command as s of
            Some cb \<Rightarrow> (Some (CallCommand cb (argc - 1) (drop i argv)), i, True, argv, as)
          | None \<Rightarrow> (None, i, found, argv, as))"
  using assms by (induction as s rule: find_command.induct) (auto split: option.splits)

text \<open>A word the parser meets is the name of a command, or the parser stops there.\<close>

lemma parse_word:
  assumes "get_arg argv i = Inr s" and "char_at s 0 \<noteq> CHR ''-''" and "i < argc"
  shows "parse_loop argc as i argv =
     Inr (Some (case find_command as s of
                  Some cb \<Rightarrow> CallCommand cb (argc - 1) (drop i argv)
                | None \<Rightarrow> UnknownArgument s), as)"
  using assms by (subst parse_loop.simps) (simp add: match_word split: option.splits)

lemma get_arg_nth: "i < length ss \<Longrightarrow> get_arg (map Some ss @ [None]) i = Inr (ss ! i)"
  by (simp add: get_arg_def nth_append)

lemma get_arg_end: "get_arg (map Some ss @ [None]) (length ss) = Inl NullDeref"
  by (simp add: get_arg_def nth_append)

lemma match_append:
  "match_arguments argc (as @ bs) i found argv =
     bindE (match_arguments argc as i found argv) (\<lambda>(out, i, found, argv, as).
       if out \<noteq> None then Inr (out, i, found, argv, as @ bs)
       else bindE (match_arguments argc bs i found argv) (\<lambda>(out, i, found, argv, bs). Inr (out, i, found, argv, as @ bs)))"
proof (induction as arbitrary: i found argv)
  case Nil
  show ?case by (cases "match_arguments argc bs i found argv") auto
next
  case (Cons a as)
  show ?case
  proof (cases "check_argument argc a i found argv")
    case (Inr r)
    obtain out j f v b where r: "r = (out, j, f, v, b)" by (cases r)
    show ?thesis
      using Inr r Cons.IH by (auto simp: bindE_assoc split_beta intro!: bindE_cong)
  qed simp
qed

text \<open>No argument of the list has the short name \<open>c\<close>.\<close>

fun short_free :: "'c argument list \<Rightarrow> char \<Rightarrow> bool" where
  "short_free [] c \<longleftrightarrow> True"
| "short_free (ARG_CMD _ # as) c \<longleftrightarrow> short_free as c"
| "short_free (ARG_FLAG f # as) c \<longleftrightarrow> flag_short f \<noteq> c \<and> short_free as c"
| "short_free (ARG_STR t # as) c \<longleftrightarrow> str_short t \<noteq> c \<and> short_free as c"
| "short_free (ARG_INT n # as) c \<longleftrightarrow> int_short n \<noteq> c \<and> short_free as c"

lemma match_other_short:
  assumes "get_arg argv i = Inr [CHR ''-'', c]" and "c \<noteq> CHR ''-''" and "short_free as c"
  shows "match_arguments argc as i found argv = Inr (None, i, found, argv, as)"
  using assms(3,1,2) by (induction as c rule: short_free.induct) auto

definition string_set :: "arg_str \<Rightarrow> string \<Rightarrow> arg_str" where
  "string_set t v = t\<lparr>str_value := take (str_maxchars t) v @ replicate (str_maxchars t - length v) CHR 0x00 @
     drop (str_maxchars t) (str_value t), str_base := set_base (str_base t)\<rparr>"

lemma match_string_option:
  assumes "get_arg argv i = Inr [CHR ''-'', str_short t]" and "str_short t \<noteq> CHR ''-''"
    and "short_free before (str_short t)" and "i + 1 < argc" and "get_arg argv (i + 1) = Inr v"
    and "str_maxchars t \<le> length (str_value t)" and "char_at v 0 \<noteq> CHR ''-''"
  shows "match_arguments argc (before @ ARG_STR t # after) i found argv =
     Inr (case find_command after v of
            Some cb \<Rightarrow> (Some (CallCommand cb (argc - 1) (drop (i + 1) argv)), i + 1, True, argv,
                         before @ ARG_STR (string_set t v) # after)
          | None \<Rightarrow> (None, i + 1, True, argv, before @ ARG_STR (string_set t v) # after))"
  using assms
  by (simp add: match_append match_other_short [OF assms(1-3)] match_word [OF assms(5,7), unfolded Suc_eq_plus1 [symmetric]]
      strncpy_def string_set_def split: option.splits)

lemma parse_loop_match:
  assumes "match_arguments argc as i False argv = Inr (out, j, True, argv', as')" and "i < argc"
  shows "parse_loop argc as i argv = (if out \<noteq> None then Inr (out, as') else parse_loop argc as' (j + 1) argv')"
  using assms by (subst parse_loop.simps) simp

lemma parse_loop_end: "argc \<le> i \<Longrightarrow> parse_loop argc as i argv = Inr (None, as)"
  by (subst parse_loop.simps) simp

lemma parse_succeeds:
  assumes "parse_loop argc (arguments ctx) 1 argv = Inr (None, args)" and "arguments ctx \<noteq> []" and "filter missing args = []"
  shows "argparse_parse (Some ctx) argc argv = Inr (Returned 0 [], args)"
  using assms by (simp add: argparse_parse_def del: missing.simps)

lemma parse_undefined:
  assumes "parse_loop argc (arguments ctx) 1 argv = Inl e" and "arguments ctx \<noteq> []"
  shows "argparse_parse (Some ctx) argc argv = Inl e"
  using assms by (simp add: argparse_parse_def)

lemma parse_runs_command:
  assumes "parse_loop argc (arguments ctx) 1 argv = Inr (Some (CallCommand c n v), args)" and "arguments ctx \<noteq> []"
  shows "argparse_parse (Some ctx) argc argv = Inr (RunCommand c n v, args)"
  using assms by (simp add: argparse_parse_def)

definition some_string :: arg_str where
  "some_string = \<lparr>str_base = \<lparr>mandatory = 1, is_set = 0\<rparr>, str_short = CHR ''d'', str_long = ''device'',
     str_value = replicate 200 CHR 0x00, str_maxchars = 199, str_description = []\<rparr>"

lemma some_string_room: "str_maxchars some_string = 199" "length (str_value some_string) = 200" "str_short some_string = CHR ''d''"
  by (simp_all add: some_string_def)

text \<open>
  A string option given by its short name takes the next string as its value, and in the same pass
  over the registered arguments that string is then looked at again. Where a command of that name is
  registered behind the option, the command runs although only a value was given: \<open>i++\<close> stands inside
  the loop that goes on comparing \<open>argv[i]\<close>. The count handed to the command is one too large.
\<close>

lemma option_value_can_run_command:
  assumes "short_free before (str_short t)" and "str_short t \<noteq> CHR ''-''" and "str_maxchars t \<le> length (str_value t)"
    and "char_at v 0 \<noteq> CHR ''-''" and "find_command after v = Some cb"
  shows "\<exists>args. argparse_parse (Some \<lparr>arguments = before @ ARG_STR t # after, capacity = n\<rparr>) (3 + length rest)
       ([Some program, Some [CHR ''-'', str_short t], Some v] @ map Some rest @ [None]) =
     Inr (RunCommand cb (2 + length rest) (Some v # map Some rest @ [None]), args)"
proof -
  let ?argv = "[Some program, Some [CHR ''-'', str_short t], Some v] @ map Some rest @ [None]"
  let ?args = "before @ ARG_STR (string_set t v) # after"
  have "match_arguments (3 + length rest) (before @ ARG_STR t # after) 1 False ?argv =
      Inr (Some (CallCommand cb (2 + length rest) (drop 2 ?argv)), 2, True, ?argv, ?args)"
    using match_string_option [of ?argv 1 t before "3 + length rest" v after False] assms
    by (simp add: get_arg_def numeral_2_eq_2)
  from parse_loop_match [OF this]
  have "parse_loop (3 + length rest) (before @ ARG_STR t # after) 1 ?argv =
      Inr (Some (CallCommand cb (2 + length rest) (drop 2 ?argv)), ?args)" by simp
  then show ?thesis by (intro exI parse_runs_command) simp_all
qed

text \<open>
  A command behind a string option is called with its own strings but with a count that is two too
  large: \<open>newargc\<close> is \<open>argc - 1\<close> wherever the command stands.
\<close>

lemma command_after_option_gets_wrong_count:
  assumes "short_free before (str_short t)" and "str_short t \<noteq> CHR ''-''" and "str_maxchars t \<le> length (str_value t)"
    and "char_at v 0 \<noteq> CHR ''-''" and "find_command after v = None"
    and "char_at c 0 \<noteq> CHR ''-''" and "find_command (before @ after) c = Some cb"
  shows "\<exists>args. argparse_parse (Some \<lparr>arguments = before @ ARG_STR t # after, capacity = n\<rparr>) (4 + length rest)
       ([Some program, Some [CHR ''-'', str_short t], Some v] @ map Some (c # rest) @ [None]) =
     Inr (RunCommand cb (2 + length (c # rest)) (map Some (c # rest) @ [None]), args)"
proof -
  let ?argv = "[Some program, Some [CHR ''-'', str_short t], Some v] @ map Some (c # rest) @ [None]"
  let ?args = "before @ ARG_STR (string_set t v) # after"
  have "match_arguments (4 + length rest) (before @ ARG_STR t # after) 1 False ?argv = Inr (None, 2, True, ?argv, ?args)"
    using match_string_option [of ?argv 1 t before "4 + length rest" v after False] assms
    by (simp add: get_arg_def numeral_2_eq_2)
  from parse_loop_match [OF this]
  have "parse_loop (4 + length rest) (before @ ARG_STR t # after) 1 ?argv = parse_loop (4 + length rest) ?args 3 ?argv"
    by simp
  moreover have "find_command ?args c = Some cb"
    using assms(7) by (induction before c rule: find_command.induct) (auto split: if_splits)
  then have "parse_loop (4 + length rest) ?args 3 ?argv = Inr (Some (CallCommand cb (3 + length rest) (drop 3 ?argv)), ?args)"
    using parse_word [of ?argv 3 c "4 + length rest" ?args] assms(6) by (simp add: get_arg_def)
  ultimately have "parse_loop (4 + length rest) (before @ ARG_STR t # after) 1 ?argv =
      Inr (Some (CallCommand cb (2 + length (c # rest)) (map Some (c # rest) @ [None])), ?args)" by simp
  then show ?thesis by (intro exI parse_runs_command) simp_all
qed

subsection \<open>A count that is too large\<close>

text \<open>Every integer option of the list has a variable; then no option looks behind the last string.\<close>

fun have_variables :: "'c argument list \<Rightarrow> bool" where
  "have_variables [] \<longleftrightarrow> True"
| "have_variables (ARG_INT n # as) \<longleftrightarrow> int_value n \<noteq> None \<and> have_variables as"
| "have_variables (_ # as) \<longleftrightarrow> have_variables as"

lemma get_arg_strings:
  "get_arg (map Some ss @ [None]) i = (if i < length ss then Inr (ss ! i) else if i = length ss then Inl NullDeref else Inl OutOfBounds)"
  by (auto simp: get_arg_def nth_append)

lemma check_argument_within:
  assumes "check_argument argc a i found (map Some ss @ [None]) = Inr (out, j, f, argv, a')" and "have_variables [a]"
  shows "i < length ss \<and> j < length ss \<and> (\<exists>ss'. length ss' = length ss \<and> argv = map Some ss' @ [None]) \<and> have_variables [a']"
proof -
  have cut: "\<exists>ss'. length ss' = length ss \<and> (map Some ss @ [None])[k := Some tok] = map Some ss' @ [None]"
    if "k < length ss" for k tok
    using that by (intro exI [of _ "ss[k := tok]"]) (simp add: list_update_append map_update)
  show ?thesis
    using assms cut
    by (cases a) (auto simp: bindE_eq_Inr get_arg_strings store_int_def Let_def split: if_splits option.splits prod.splits sum.splits)
qed

lemma match_arguments_within:
  "match_arguments argc as i found (map Some ss @ [None]) = Inr (out, j, f, argv, as') \<Longrightarrow> have_variables as \<Longrightarrow> as \<noteq> [] \<Longrightarrow>
   i < length ss \<and> j < length ss \<and> (\<exists>ss'. length ss' = length ss \<and> argv = map Some ss' @ [None]) \<and> have_variables as' \<and> as' \<noteq> []"
proof (induction as arbitrary: i found ss out j f argv as')
  case (Cons a as)
  have vars: "have_variables [a]" "have_variables as" using Cons.prems(2) by (cases a; simp)+
  from Cons.prems(1) obtain out1 i1 f1 argv1 a1 where
    one: "check_argument argc a i found (map Some ss @ [None]) = Inr (out1, i1, f1, argv1, a1)"
    and rest: "(if out1 \<noteq> None then Inr (out1, i1, f1, argv1, a1 # as)
       else bindE (match_arguments argc as i1 f1 argv1) (\<lambda>(out, i, found, argv, as). Inr (out, i, found, argv, a1 # as))) =
      Inr (out, j, f, argv, as')"
    by (auto simp: bindE_eq_Inr)
  from check_argument_within [OF one vars(1)] obtain ss1 where
    within: "i < length ss" "i1 < length ss" "length ss1 = length ss" "argv1 = map Some ss1 @ [None]" "have_variables [a1]"
    by auto
  have app: "have_variables bs \<Longrightarrow> have_variables (a1 # bs)" for bs
    using within(5) by (cases a1) auto
  show ?case
  proof (cases "out1 = None \<and> as \<noteq> []")
    case True
    then obtain as1 where "match_arguments argc as i1 f1 (map Some ss1 @ [None]) = Inr (out, j, f, argv, as1)" "as' = a1 # as1"
      using rest within(4) by (auto simp: bindE_eq_Inr)
    with Cons.IH [OF this(1) vars(2)] True within app [of as1] show ?thesis by simp
  next
    case False
    with rest have "j = i1" "argv = argv1" "as' = a1 # as" by (auto split: if_splits)
    with within app [OF vars(2)] show ?thesis by auto
  qed
qed simp

lemma parse_loop_overcount:
  assumes "length ss < argc" and "i \<le> length ss" and "as \<noteq> []" and "have_variables as"
  shows "parse_loop argc as i (map Some ss @ [None]) \<noteq> Inr (None, as')"
  using assms
proof (induction "length ss - i" arbitrary: i as ss rule: less_induct)
  case less
  show ?case
  proof
    assume ended: "parse_loop argc as i (map Some ss @ [None]) = Inr (None, as')"
    have "i < argc" using less.prems by simp
    then obtain j argv bs where match: "match_arguments argc as i False (map Some ss @ [None]) = Inr (None, j, True, argv, bs)"
      and rest: "parse_loop argc bs (j + 1) argv = Inr (None, as')"
      using ended by (subst (asm) parse_loop.simps) (auto simp: bindE_eq_Inr split: if_splits)
    obtain ss' where "i < length ss" "j < length ss" "length ss' = length ss" "argv = map Some ss' @ [None]" "have_variables bs" "bs \<noteq> []"
      using match_arguments_within [OF match] less.prems by auto
    moreover have "i \<le> j" by (rule match_arguments_index [OF match])
    ultimately show False
      using less.hyps [of ss' "j + 1" bs] rest less.prems(1) by auto
  qed
qed

lemma finish_outcome_says_something: "finish_outcome program args oc \<noteq> Inr (Returned 0 [])"
  by (cases "(program, args, oc)" rule: finish_outcome.cases) (auto simp: report_def bindE_eq_Inr argparse_usage_def)

text \<open>With a count that is too large the parser never gets through: it reports an error, calls a callback or is undefined.\<close>

lemma wrong_count_never_succeeds:
  assumes "length ss < argc" and "ss \<noteq> []" and "arguments ctx \<noteq> []" and "have_variables (arguments ctx)"
  shows "argparse_parse (Some ctx) argc (map Some ss @ [None]) \<noteq> Inr (Returned 0 [], args)"
proof
  assume "argparse_parse (Some ctx) argc (map Some ss @ [None]) = Inr (Returned 0 [], args)"
  then obtain out where "parse_loop argc (arguments ctx) 1 (map Some ss @ [None]) = Inr (out, args)"
    and "out \<noteq> None \<Longrightarrow> finish_outcome (get_arg (map Some ss @ [None]) 0) args (the out) = Inr (Returned 0 [])"
    using assms(3) by (auto simp: argparse_parse_def bindE_eq_Inr split: option.splits)
  then show False
    using parse_loop_overcount [of ss argc 1 "arguments ctx" args] assms
      finish_outcome_says_something [of "get_arg (map Some ss @ [None]) 0" args "the out"]
    by (cases "out = None") (auto simp: Suc_leI)
qed

subsection \<open>What parsing keeps\<close>

text \<open>A registered argument without what parsing may change: the mark, the value, but not the size of its array.\<close>

definition unset :: "arg_base \<Rightarrow> arg_base" where
  "unset b = b\<lparr>is_set := 0\<rparr>"

fun fixed_part :: "'c argument \<Rightarrow> 'c argument" where
  "fixed_part (ARG_CMD c) = ARG_CMD c"
| "fixed_part (ARG_FLAG f) = ARG_FLAG (f\<lparr>flag_base := unset (flag_base f)\<rparr>)"
| "fixed_part (ARG_STR t) = ARG_STR (t\<lparr>str_base := unset (str_base t), str_value := replicate (length (str_value t)) CHR 0x00\<rparr>)"
| "fixed_part (ARG_INT n) = ARG_INT (n\<lparr>int_base := unset (int_base n), int_value := map_option (\<lambda>_. 0) (int_value n)\<rparr>)"

lemma unset_set_base [simp]: "unset (set_base b) = unset b"
  by (simp add: unset_def set_base_def)

lemma store_int_keeps:
  "store_int n v = Inr m \<Longrightarrow> fixed_part (ARG_INT (m\<lparr>int_base := set_base (int_base m)\<rparr>)) = fixed_part (ARG_INT n)"
  by (cases v) (auto simp: store_int_def split: option.splits)

lemma check_argument_keeps:
  assumes "check_argument argc a i found argv = Inr (out, j, f, argv', a')"
  shows "fixed_part a' = fixed_part a"
proof (cases a)
  case (ARG_STR t)
  then show ?thesis using assms by (auto simp: bindE_eq_Inr strncpy_def split: if_splits)
next
  case (ARG_INT n)
  then show ?thesis
    using assms by (auto simp: bindE_eq_Inr Let_def split: if_splits option.splits prod.splits dest!: store_int_keeps)
qed (use assms in \<open>auto simp: bindE_eq_Inr split: if_splits\<close>)

lemma match_arguments_Cons_cases:
  assumes "match_arguments argc (a # as) i found argv = Inr (out, j, f, argv', as')"
  obtains (ends) a1 where "check_argument argc a i found argv = Inr (out, j, f, argv', a1)" "out \<noteq> None" "as' = a1 # as"
  | (goes_on) i1 f1 argv1 a1 as1 where "check_argument argc a i found argv = Inr (None, i1, f1, argv1, a1)"
      "match_arguments argc as i1 f1 argv1 = Inr (out, j, f, argv', as1)" "as' = a1 # as1"
proof -
  obtain out1 i1 f1 argv1 a1 where one: "check_argument argc a i found argv = Inr (out1, i1, f1, argv1, a1)"
    and rest: "(if out1 \<noteq> None then Inr (out1, i1, f1, argv1, a1 # as)
       else bindE (match_arguments argc as i1 f1 argv1) (\<lambda>(out, i, found, argv, as). Inr (out, i, found, argv, a1 # as))) =
      Inr (out, j, f, argv', as')"
    using assms by (auto simp: bindE_eq_Inr)
  show thesis
  proof (cases out1)
    case None
    with rest obtain as1 where "match_arguments argc as i1 f1 argv1 = Inr (out, j, f, argv', as1)" "as' = a1 # as1"
      by (auto simp: bindE_eq_Inr)
    then show thesis using goes_on one None by blast
  next
    case (Some oc)
    then show thesis using ends [of a1] one rest by force
  qed
qed

lemma match_arguments_keeps:
  "match_arguments argc as i found argv = Inr (out, j, f, argv', as') \<Longrightarrow> map fixed_part as' = map fixed_part as"
proof (induction as arbitrary: i found argv as')
  case (Cons a as)
  from Cons.prems show ?case
    by (cases rule: match_arguments_Cons_cases) (auto dest: check_argument_keeps Cons.IH)
qed simp

subsection \<open>Integer options\<close>

definition int_set :: "arg_int \<Rightarrow> int \<Rightarrow> arg_int" where
  "int_set n k = n\<lparr>int_value := Some (word_of_int k), int_base := set_base (int_base n)\<rparr>"

text \<open>\<open>n\<close> is an option with a variable, and its names are not those of the help flag.\<close>

definition plain_int :: "arg_int \<Rightarrow> bool" where
  "plain_int n \<longleftrightarrow> int_value n \<noteq> None \<and> int_short n \<notin> {CHR ''-'', CHR ''h''} \<and> CHR ''='' \<notin> set (int_long n)"

lemma store_int_strtol: "int_value n \<noteq> None \<Longrightarrow> store_int n (Inr s) = Inr (n\<lparr>int_value := Some (word_of_int (strtol s 10))\<rparr>)"
  by (auto simp: store_int_def)

lemma strtok_assignment:
  assumes "CHR ''='' \<notin> set name" and "name \<noteq> []"
  shows "strtok (name @ CHR ''='' # v) = (Some name, v)"
proof -
  have "takeWhile (\<lambda>c. c \<noteq> CHR ''='') (name @ CHR ''='' # v) = name" "dropWhile (\<lambda>c. c \<noteq> CHR ''='') (name @ CHR ''='' # v) = CHR ''='' # v"
    using assms(1) by (simp_all add: takeWhile_append dropWhile_append takeWhile_eq_all_conv dropWhile_eq_Nil_conv)
  moreover have "dropWhile (\<lambda>c. c = CHR ''='') (name @ w) = name @ w" for w
    using assms by (cases name) auto
  ultimately show ?thesis using assms(2) by (simp add: strtok_def Let_def)
qed

lemma strtok_last:
  assumes "CHR ''='' \<notin> set v" and "v \<noteq> []"
  shows "strtok v = (Some v, [])"
proof -
  have whole: "takeWhile (\<lambda>c. c \<noteq> CHR ''='') v = v" "dropWhile (\<lambda>c. c \<noteq> CHR ''='') v = []" "dropWhile (\<lambda>c. c = CHR ''='') v = v"
    using assms by (auto simp: takeWhile_eq_all_conv dropWhile_eq_Nil_conv) (cases v; auto)
  show ?thesis
    using assms(2) by (simp only: strtok_def Let_def whole list.sel if_False)
qed

lemma format_d_plain: "CHR ''='' \<notin> set (format_d k)" "format_d k \<noteq> []"
proof -
  have "\<forall>d \<in> set [0..<16]. digit_char d \<noteq> CHR ''=''" by code_simp
  then have *: "CHR ''='' \<notin> set (numeral_text 10 m)" for m
    using numeral_text_digits [of 10 "CHR ''=''" m] by fastforce
  have "numeral_text 10 m \<noteq> []" for m by (subst numeral_text.simps) simp
  with * show "CHR ''='' \<notin> set (format_d k)" "format_d k \<noteq> []" by (simp_all add: format_d_def format_u_def)
qed

lemma match_int_short:
  assumes "plain_int n"
  shows "match_arguments argc [ARG_FLAG help_flag, ARG_INT n] 1 False [Some program, Some [CHR ''-'', int_short n], Some v, None] =
    Inr (None, 2, True, [Some program, Some [CHR ''-'', int_short n], Some v, None], [ARG_FLAG help_flag, ARG_INT (int_set n (strtol v 10))])"
  using assms by (simp add: plain_int_def get_arg_def help_flag_def store_int_strtol int_set_def numeral_2_eq_2)

lemma match_int_long:
  assumes "plain_int n" and "CHR ''='' \<notin> set v" and "v \<noteq> []" and "argc = 2"
  shows "match_arguments argc [ARG_FLAG help_flag, ARG_INT n] 1 False [Some program, Some (''--'' @ int_long n @ ''='' @ v), None] =
    Inr (None, 1, True, [Some program, Some (''--'' @ int_long n), None], [ARG_FLAG help_flag, ARG_INT (int_set n (strtol v 10))])"
proof -
  have "int_long n @ CHR ''='' # v \<noteq> ''help''"
  proof
    assume "int_long n @ CHR ''='' # v = ''help''"
    then have "CHR ''='' \<in> set ''help''" by (metis in_set_conv_decomp)
    then show False by simp
  qed
  moreover have "strtok (CHR ''-'' # CHR ''-'' # int_long n @ CHR ''='' # v) = (Some (''--'' @ int_long n), v)"
    using strtok_assignment [of "''--'' @ int_long n" v] assms(1) by (simp add: plain_int_def)
  ultimately show ?thesis
    using assms strtok_last [OF assms(2,3)]
    by (simp add: plain_int_def get_arg_def help_flag_def store_int_strtol int_set_def)
qed

definition int_ctx :: "arg_int \<Rightarrow> 'c arg_parse_ctx" where
  "int_ctx n = \<lparr>arguments = [ARG_FLAG help_flag, ARG_INT n], capacity = array_size 2\<rparr>"

definition parsed_int :: "arg_int \<Rightarrow> int \<Rightarrow> ub + 'c parse_result \<times> 'c argument list" where
  "parsed_int n k = Inr (Returned 0 [], [ARG_FLAG help_flag, ARG_INT (int_set n k)])"

lemma nothing_missing: "filter missing [ARG_FLAG help_flag, ARG_INT (int_set n k)] = []"
  by (simp add: help_flag_def int_set_def set_base_def)

lemma parse_int_short:
  assumes "plain_int n"
  shows "argparse_parse (Some (int_ctx n)) 3 [Some program, Some [CHR ''-'', int_short n], Some v, None] =
     parsed_int n (strtol v 10)"
  unfolding parsed_int_def
  by (rule parse_succeeds [OF _ _ nothing_missing])
    (use parse_loop_match [OF match_int_short [OF assms, of 3]] in \<open>simp_all add: int_ctx_def parse_loop_end\<close>)

lemma parse_int_long:
  assumes "plain_int n" and "CHR ''='' \<notin> set v" and "v \<noteq> []"
  shows "argparse_parse (Some (int_ctx n)) 2 [Some program, Some (''--'' @ int_long n @ ''='' @ v), None] =
     parsed_int n (strtol v 10)"
  unfolding parsed_int_def
  by (rule parse_succeeds [OF _ _ nothing_missing])
    (use parse_loop_match [OF match_int_long [OF assms refl]] in \<open>simp_all add: int_ctx_def parse_loop_end\<close>)

text \<open>
  C33: Every \<open>int\<close> printed in decimal and given to the one integer option that is registered, behind its short name or behind
  \<open>--name=\<close>, is parsed without a message with code 0, the option is marked, and its variable holds that number; both ways leave
  the same state. The option has a variable, and its names are not those of the help flag (\<open>plain_int\<close>).
\<close>

theorem int_option_roundtrip:
  assumes "plain_int n" and "- (2 ^ 31) \<le> k" and "k < 2 ^ 31"
  shows "\<exists>m. argparse_parse (Some (int_ctx n)) 3 [Some program, Some [CHR ''-'', int_short n], Some (format_d k), None] =
      Inr (Returned 0 [], [ARG_FLAG help_flag, ARG_INT m]) \<and>
    argparse_parse (Some (int_ctx n)) 2 [Some program, Some (''--'' @ int_long n @ ''='' @ format_d k), None] =
      Inr (Returned 0 [], [ARG_FLAG help_flag, ARG_INT m]) \<and>
    map_option sint (int_value m) = Some k \<and> is_set (int_base m) = 1"
proof -
  have printed: "strtol (format_d k) 10 = k" using assms(2,3) by (intro strtol_format_d) simp_all
  have "sint (word_of_int k :: 32 word) = k"
    using assms(2,3) signed_take_bit_int_eq_self [of 31 k] by (simp add: sint_sbintrunc')
  then have "map_option sint (int_value (int_set n k)) = Some k \<and> is_set (int_base (int_set n k)) = 1"
    by (simp add: int_set_def set_base_def)
  then show ?thesis
    unfolding parse_int_short [OF assms(1)] parse_int_long [OF assms(1) format_d_plain] parsed_int_def printed by blast
qed

definition some_int :: arg_int where
  "some_int = \<lparr>int_base = \<lparr>mandatory = 1, is_set = 0\<rparr>, int_short = CHR ''m'', int_long = ''mode'', int_description = [],
     int_value = Some 7\<rparr>"

theorem int_option_roundtrip_witness:
  "\<exists>m. argparse_parse (Some (int_ctx some_int)) 3 [Some ''ctl'', Some ''-m'', Some ''-42'', None] =
      Inr (Returned 0 [], [ARG_FLAG help_flag, ARG_INT m] :: unit argument list) \<and>
    argparse_parse (Some (int_ctx some_int)) 2 [Some ''ctl'', Some ''--mode=-42'', None] =
      Inr (Returned 0 [], [ARG_FLAG help_flag, ARG_INT m] :: unit argument list) \<and> map_option sint (int_value m) = Some (-42)"
proof -
  have plain: "plain_int some_int" and names: "int_short some_int = CHR ''m''" "int_long some_int = ''mode''"
    by (simp_all add: plain_int_def some_int_def)
  have printed: "format_d (-42) = ''-42''" by code_simp
  from int_option_roundtrip [OF plain, of "-42" "''ctl''", where 'a = unit] show ?thesis
    unfolding names printed append.simps by auto
qed

subsection \<open>String options\<close>

definition str_ctx :: "arg_str \<Rightarrow> 'c arg_parse_ctx" where
  "str_ctx t = \<lparr>arguments = [ARG_FLAG help_flag, ARG_STR t], capacity = array_size 2\<rparr>"

lemma match_str_short:
  assumes "str_short t \<notin> {CHR ''-'', CHR ''h''}" and "str_maxchars t \<le> length (str_value t)" and "argc \<ge> 3"
  shows "match_arguments argc [ARG_FLAG help_flag, ARG_STR t] 1 False ([Some program, Some [CHR ''-'', str_short t], Some v] @ rest) =
    Inr (None, 2, True, [Some program, Some [CHR ''-'', str_short t], Some v] @ rest, [ARG_FLAG help_flag, ARG_STR (string_set t v)])"
  using assms by (simp add: get_arg_def help_flag_def string_set_def strncpy_def numeral_2_eq_2)

lemma parse_str_short:
  assumes "str_short t \<notin> {CHR ''-'', CHR ''h''}" and "str_maxchars t \<le> length (str_value t)"
  shows "argparse_parse (Some (str_ctx t)) 3 [Some program, Some [CHR ''-'', str_short t], Some v, None] =
     Inr (Returned 0 [], [ARG_FLAG help_flag, ARG_STR (string_set t v)])"
proof (rule parse_succeeds)
  show "filter missing [ARG_FLAG help_flag, ARG_STR (string_set t v)] = []"
    by (simp add: help_flag_def string_set_def set_base_def)
qed (use parse_loop_match [OF match_str_short [OF assms, of 3 program v "[None]"]] in
    \<open>simp_all add: str_ctx_def parse_loop_end\<close>)

text \<open>With a count that is too large the parser goes on to the null pointer behind the strings.\<close>

lemma parse_loop_null:
  assumes "i < argc" and "get_arg argv i = Inl e" and "as \<noteq> []"
  shows "parse_loop argc as i argv = Inl e"
proof -
  obtain a bs where "as = a # bs" using assms(3) by (cases as) auto
  then show ?thesis using assms(1,2) by (cases a) (simp_all add: parse_loop.simps [of _ _ i])
qed

lemma parse_str_overcount:
  assumes "str_short t \<notin> {CHR ''-'', CHR ''h''}" and "str_maxchars t \<le> length (str_value t)" and "argc > 3"
  shows "argparse_parse (Some (str_ctx t)) argc [Some program, Some [CHR ''-'', str_short t], Some v, None] = Inl NullDeref"
proof (rule parse_undefined)
  show "parse_loop argc (arguments (str_ctx t)) 1 [Some program, Some [CHR ''-'', str_short t], Some v, None] = Inl NullDeref"
    using parse_loop_match [OF match_str_short [OF assms(1,2), of argc program v "[None]"]] assms(3)
    by (simp add: str_ctx_def parse_loop_null [of 3 argc _ NullDeref] get_arg_def)
qed (simp add: str_ctx_def)

lemma parse_int_overcount:
  assumes "plain_int n" and "argc > 3"
  shows "argparse_parse (Some (int_ctx n)) argc [Some program, Some [CHR ''-'', int_short n], Some v, None] = Inl NullDeref"
proof (rule parse_undefined)
  show "parse_loop argc (arguments (int_ctx n)) 1 [Some program, Some [CHR ''-'', int_short n], Some v, None] = Inl NullDeref"
    using parse_loop_match [OF match_int_short [OF assms(1), of argc program v]] assms(2)
    by (simp add: int_ctx_def parse_loop_null [of 3 argc _ NullDeref] get_arg_def)
qed (simp add: int_ctx_def)

subsection \<open>Memory safety of the parser\<close>

text \<open>With the count \<open>main\<close> gets; the variable of a string option must have room for \<open>maxchars\<close> characters.\<close>

definition has_room :: "'c argument \<Rightarrow> bool" where
  "has_room a \<longleftrightarrow> (case a of ARG_STR t \<Rightarrow> str_maxchars t \<le> length (str_value t) | _ \<Rightarrow> True)"

definition is_int :: "'c argument \<Rightarrow> bool" where
  "is_int a \<longleftrightarrow> (case a of ARG_INT n \<Rightarrow> True | _ \<Rightarrow> False)"

lemma fixed_part_kind [simp]: "has_room (fixed_part a) = has_room a" "is_int (fixed_part a) = is_int a"
  by (cases a; simp add: has_room_def is_int_def)+

lemma fixed_parts_kind:
  assumes "map fixed_part as = map fixed_part bs"
  shows "list_all has_room as = list_all has_room bs" "list_ex is_int as = list_ex is_int bs"
proof -
  have "list_all has_room (map fixed_part xs) = list_all has_room xs" "list_ex is_int (map fixed_part xs) = list_ex is_int xs"
    for xs :: "'a argument list"
    by (induction xs) simp_all
  then show "list_all has_room as = list_all has_room bs" "list_ex is_int as = list_ex is_int bs"
    using assms by metis+
qed

text \<open>
  The state of the two loops: \<open>i\<close> is at most the number of strings and smaller while no integer option
  can have moved it behind them.
\<close>

definition strings_at :: "nat \<Rightarrow> bool \<Rightarrow> nat \<Rightarrow> string option list \<Rightarrow> bool" where
  "strings_at n ints i argv \<longleftrightarrow> (\<exists>ss. length ss = n \<and> argv = map Some ss @ [None]) \<and> i \<le> n \<and> (\<not> ints \<longrightarrow> i < n)"

lemma strings_get:
  assumes "strings_at n ints i argv"
  shows "get_arg argv i = Inl e \<Longrightarrow> e = NullDeref \<and> ints" "i < n \<Longrightarrow> get_arg argv (i + 1) = Inl e \<Longrightarrow> e = NullDeref \<and> i + 1 = n"
    "get_arg argv i = Inr s \<Longrightarrow> i < n" "i < n \<Longrightarrow> strings_at n ints i (argv[i := Some tok])"
proof -
  obtain ss where ss: "length ss = n" "argv = map Some ss @ [None]" "i \<le> n" "\<not> ints \<longrightarrow> i < n"
    using assms by (auto simp: strings_at_def)
  show "get_arg argv i = Inl e \<Longrightarrow> e = NullDeref \<and> ints" "i < n \<Longrightarrow> get_arg argv (i + 1) = Inl e \<Longrightarrow> e = NullDeref \<and> i + 1 = n"
    "get_arg argv i = Inr s \<Longrightarrow> i < n"
    using ss by (auto simp: get_arg_strings split: if_splits)
  assume "i < n"
  moreover from this have "argv[i := Some tok] = map Some (ss[i := tok]) @ [None]"
    using ss by (simp add: list_update_append map_update)
  ultimately show "strings_at n ints i (argv[i := Some tok])"
    unfolding strings_at_def using ss by (intro conjI exI [of _ "ss[i := tok]"]) auto
qed

lemma check_argument_safe:
  assumes "strings_at n ints i argv" and "has_room a" and "is_int a \<Longrightarrow> ints"
  shows "case check_argument n a i found argv of
      Inl e \<Rightarrow> e = NullDeref \<and> ints
    | Inr (out, j, f, argv', a') \<Rightarrow> strings_at n ints j argv'"
proof (cases "get_arg argv i")
  case (Inl e)
  then show ?thesis using strings_get(1) [OF assms(1) Inl] by (cases a) auto
next
  case (Inr s)
  then have i: "i < n" by (rule strings_get(3) [OF assms(1)])
  have after: "strings_at n ints (i + 1) argv" if "ints \<or> i + 1 < n"
    using assms(1) i that by (auto simp: strings_at_def)
  have behind: "e = NullDeref \<and> i + 1 = n" if "get_arg argv (i + 1) = Inl e" for e
    using strings_get(2) [OF assms(1) i that] .
  have cut: "strings_at n ints i (argv[i := Some tok])" for tok
    by (rule strings_get(4) [OF assms(1) i])
  show ?thesis
  proof (cases a)
    case (ARG_STR t)
    then show ?thesis
      using Inr assms(1,2) after behind
      by (cases "get_arg argv (i + 1)") (auto simp: has_room_def strncpy_def)
  next
    case (ARG_INT m)
    then have "ints" using assms(3) by (simp add: is_int_def)
    then show ?thesis
      using Inr assms(1) after behind cut ARG_INT
      by (cases "get_arg argv (i + 1)") (auto simp: store_int_def Let_def split: option.splits prod.splits)
  qed (use Inr assms(1) in \<open>auto split: option.splits\<close>)
qed

lemma match_arguments_safe:
  assumes "strings_at n ints i argv" and "list_all has_room as" and "list_ex is_int as \<Longrightarrow> ints"
  shows "case match_arguments n as i found argv of
      Inl e \<Rightarrow> e = NullDeref \<and> ints
    | Inr (out, j, f, argv', as') \<Rightarrow> strings_at n ints j argv'"
  using assms
proof (induction as arbitrary: i found argv)
  case (Cons a as)
  have one: "case check_argument n a i found argv of
      Inl e \<Rightarrow> e = NullDeref \<and> ints
    | Inr (out, j, f, argv', a') \<Rightarrow> strings_at n ints j argv'"
    by (rule check_argument_safe) (use Cons.prems in auto)
  show ?case
  proof (cases "check_argument n a i found argv")
    case (Inl e)
    then show ?thesis using one by simp
  next
    case (Inr r)
    obtain out1 i1 f1 argv1 a1 where r: "r = (out1, i1, f1, argv1, a1)" by (cases r)
    have at: "strings_at n ints i1 argv1" using one Inr r by simp
    show ?thesis
    proof (cases out1)
      case None
      have "case match_arguments n as i1 f1 argv1 of
          Inl e \<Rightarrow> e = NullDeref \<and> ints
        | Inr (out, j, f, argv', as') \<Rightarrow> strings_at n ints j argv'"
        by (rule Cons.IH [OF at]) (use Cons.prems in auto)
      then show ?thesis using Inr r None by (cases "match_arguments n as i1 f1 argv1") auto
    qed (use Inr r at in simp)
  qed
qed simp

lemma parse_loop_safe:
  assumes "\<exists>ss. length ss = n \<and> argv = map Some ss @ [None]" and "list_all has_room as" and "list_ex is_int as \<Longrightarrow> ints"
    and "parse_loop n as i argv = Inl e"
  shows "e = NullDeref \<and> ints"
  using assms
proof (induction "n - i" arbitrary: i argv as rule: less_induct)
  case less
  from less.prems(4) have i: "i < n" by (cases "i < n") (simp_all add: parse_loop_end)
  then have at: "strings_at n ints i argv" using less.prems(1) by (simp add: strings_at_def)
  note safe = match_arguments_safe [OF at less.prems(2,3), of False]
  show ?case
  proof (cases "match_arguments n as i False argv")
    case (Inl e')
    then show ?thesis using safe less.prems(4) i by (simp add: parse_loop.simps [of n as i])
  next
    case (Inr r)
    obtain out j f argv1 as1 where r: "r = (out, j, f, argv1, as1)" by (cases r)
    have at1: "strings_at n ints j argv1" and j: "i \<le> j"
      using safe Inr r match_arguments_index [of n as i False argv out j] by auto
    have kinds: "list_all has_room as1" "list_ex is_int as1 \<Longrightarrow> ints"
      using fixed_parts_kind [OF match_arguments_keeps [OF Inr [unfolded r]]] less.prems(2,3) by auto
    have step: "parse_loop n as i argv = (if out \<noteq> None then Inr (out, as1) else if f then parse_loop n as1 (j + 1) argv1
        else bindE (get_arg argv1 j) (\<lambda>s. Inr (Some (UnknownArgument s), as1)))"
      using i Inr r by (simp add: parse_loop.simps [of n as i])
    show ?thesis
    proof (cases "f \<and> out = None")
      case True
      then have "parse_loop n as1 (j + 1) argv1 = Inl e" using step less.prems(4) by simp
      then show ?thesis
        using less.hyps [of "j + 1" argv1 as1] at1 kinds i j by (auto simp: strings_at_def)
    next
      case False
      then have "get_arg argv1 j = Inl e"
        using step unfolding less.prems(4) by (cases out; cases "get_arg argv1 j") auto
      then show ?thesis by (rule strings_get(1) [OF at1])
    qed
  qed
qed

lemma sum_Inr: "case r of Inl e \<Rightarrow> Q e \<and> P | Inr _ \<Rightarrow> True \<Longrightarrow> \<not> P \<Longrightarrow> \<exists>x. r = Inr x"
  by (cases r) auto

lemma finish_outcome_ok: "program = Inr p \<Longrightarrow> \<exists>r. finish_outcome program args oc = Inr r"
  by (cases "(program, args, oc)" rule: finish_outcome.cases) (auto simp: report_def)

text \<open>
  C32: called with as many strings as the count says and with string options whose arrays hold \<open>maxchars\<close> characters (\<open>has_room\<close>),
  as \<open>main\<close> calls it, the parser never leaves \<open>argv\<close> nor an array, whatever the strings are. Its only undefined
  behaviour then is to follow a null pointer, and only where an integer option is registered. Both conditions matter: the tool
  itself hands its commands a count that is too large, and then string options, too, follow the null pointer behind
  the strings (\<open>parse_str_overcount\<close>).
\<close>

theorem parser_memory_safe:
  assumes "list_all has_room (arguments ctx)" and "ss \<noteq> []"
  shows "case argparse_parse (Some ctx) (length ss) (map Some ss @ [None]) of
      Inl e \<Rightarrow> e = NullDeref \<and> list_ex is_int (arguments ctx)
    | Inr _ \<Rightarrow> True"
proof (cases "argparse_parse (Some ctx) (length ss) (map Some ss @ [None])")
  case undefined: (Inl e)
  have program: "get_arg (map Some ss @ [None]) 0 = Inr (ss ! 0)" using assms(2) by (simp add: get_arg_strings)
  have "parse_loop (length ss) (arguments ctx) 1 (map Some ss @ [None]) = Inl e"
  proof (cases "parse_loop (length ss) (arguments ctx) 1 (map Some ss @ [None])")
    case (Inl e')
    then show ?thesis using undefined by (simp add: argparse_parse_def split: if_splits)
  next
    case (Inr r)
    obtain out args where "r = (out, args)" by (cases r)
    then show ?thesis
      using undefined Inr program finish_outcome_ok [OF program, of args "the out"]
      by (auto simp: argparse_parse_def report_def split: if_splits option.splits list.splits)
  qed
  then have "e = NullDeref \<and> list_ex is_int (arguments ctx)"
    using parse_loop_safe [of "length ss" "map Some ss @ [None]" "arguments ctx" "list_ex is_int (arguments ctx)" 1 e] assms(1)
    by auto
  then show ?thesis using undefined by simp
qed simp

text \<open>An integer option in the last place follows the null pointer behind the strings; without one nothing can happen.\<close>

theorem parser_memory_safe_witness:
  "\<exists>r. argparse_parse (Some \<lparr>arguments = [ARG_FLAG help_flag, ARG_STR some_string] :: unit argument list, capacity = 5\<rparr>) 3
      [Some ''ctl'', Some ''-d'', Some ''-h'', None] = Inr r"
  using sum_Inr [OF parser_memory_safe [of "\<lparr>arguments = [ARG_FLAG help_flag, ARG_STR some_string] :: unit argument list, capacity = 5\<rparr>"
      "[''ctl'', ''-d'', ''-h'']"]]
  by (simp add: has_room_def is_int_def some_string_room numeral_3_eq_3)

end
