(* ===== verification/Conbeectrl.thy ===== *)
theory Conbeectrl
  imports Api Argparse
begin

text \<open>
  The commands of the tool \<open>src/conbeectrl\<close>. Each connects, makes one call of the library, prints what
  it got and closes again; the \<open>set\<close> commands first parse their own strings with \<open>Argparse\<close>. The
  result of a command is its code and what it printed on \<open>stdout\<close>; messages on \<open>stderr\<close> are left out.
\<close>

subsection \<open>Surroundings of a command\<close>

definition NETWORK_MODE_ROUTER :: u8 where [conbee_const]: "NETWORK_MODE_ROUTER = 0x00"
definition NETWORK_MODE_COORDINATOR :: u8 where [conbee_const]: "NETWORK_MODE_COORDINATOR = 0x01"
definition SECURITY_MODE_NO :: u8 where [conbee_const]: "SECURITY_MODE_NO = 0x00"
definition SECURITY_MODE_PRECONF :: u8 where [conbee_const]: "SECURITY_MODE_PRECONF = 0x01"
definition SECURITY_MODE_TC :: u8 where [conbee_const]: "SECURITY_MODE_TC = 0x02"
definition SECURITY_MODE_NO_MASTER :: u8 where [conbee_const]: "SECURITY_MODE_NO_MASTER = 0x03"
definition PLATFORM_RASPBEE :: u8 where [conbee_const]: "PLATFORM_RASPBEE = 0x05"

text \<open>
  What the system and the worker do: the answers of the calls in \<open>conbee_connect\<close>, what the worker
  does before the first request is there, while the command waits and while it closes. The other
  fields are what the local variables of a command, none of them initialised, hold.
\<close>

record ctl_env =
  system_calls :: connect_env
  started :: "world \<Rightarrow> world"
  wakes :: "world \<Rightarrow> (ub + world) option"
  others :: "world \<Rightarrow> world"
  joined :: "world \<Rightarrow> world"
  junk8 :: u8
  junk16 :: u16
  junk32 :: u32
  junk64 :: u64
  junk_int :: "32 word"
  junk_mac :: "u8 list"
  junk_version :: conbee_version
  junk_text :: "char list"

text \<open>
  The frame of every command; \<open>name\<close> is the array \<open>conbee_device_name\<close>, \<open>body\<close> what stands between
  connecting and closing. When the call never returns, neither does the command.
\<close>

definition with_device ::
  "ctl_env \<Rightarrow> char list \<Rightarrow> (world \<Rightarrow> (ub + string \<times> world) option) \<Rightarrow> world \<Rightarrow> (ub + int \<times> string \<times> world) option" where
  "with_device env name body w =
     (case conbee_connect (system_calls env) w (c_string (map of_char name)) of
        Inl e \<Rightarrow> Some (Inl e)
      | Inr (err, w) \<Rightarrow>
          if err < 0 then Some (Inr (-1, [], w))
          else Option.bind (body (started env w)) (\<lambda>r.
               case r of
                 Inl e \<Rightarrow> Some (Inl e)
               | Inr (out, w) \<Rightarrow> map_option (\<lambda>w. Inr (0, out, w)) (conbee_close (others env) (joined env) w)))"

definition print_value ::
  "(world \<Rightarrow> (ub + int \<times> 'v \<times> world) option) \<Rightarrow> ('v \<Rightarrow> string) \<Rightarrow> world \<Rightarrow> (ub + string \<times> world) option" where
  "print_value getter shown w =
     map_option (\<lambda>r. bindE r (\<lambda>(err, v, w). Inr (if err < 0 then [] else shown v, w))) (getter w)"

subsection \<open>Printing commands\<close>

definition version_text :: "conbee_version \<Rightarrow> string" where
  "version_text v =
     ''Connbee Firmware Version'' @ nl @
     tab @ ''Major Nr  : '' @ format_X 2 (unat (major v)) @ nl @
     tab @ ''Minor Nr  : '' @ format_X 2 (unat (minor v)) @ nl @
     tab @ ''Plattform : '' @ (if platform v = PLATFORM_RASPBEE then ''RaspBee'' else ''Connbee2'') @ nl"

definition print_version :: "ctl_env \<Rightarrow> char list \<Rightarrow> world \<Rightarrow> (ub + int \<times> string \<times> world) option" where
  "print_version env name = with_device env name
     (print_value (\<lambda>w. conbee_get_firmware_version (wakes env) w (junk_version env)) version_text)"

definition mac_text :: "u8 list \<Rightarrow> string" where
  "mac_text mac = ''Connbee Stick MAC Address: '' @
     concat (map (\<lambda>i. format_X 2 (unat (mac ! i)) @ (if i < 7 then '':'' else '' '')) [0..<8]) @ nl"

definition print_mac :: "ctl_env \<Rightarrow> char list \<Rightarrow> world \<Rightarrow> (ub + int \<times> string \<times> world) option" where
  "print_mac env name = with_device env name
     (print_value (\<lambda>w. conbee_get_mac_address (wakes env) (junk64 env) w (junk_mac env)) mac_text)"

definition panid_text :: "u16 \<Rightarrow> string" where
  "panid_text v = ''Current NWK PANID: '' @ format_d (sint v) @ ''(0x'' @ format_X 4 (unat v) @ '')'' @ nl"

definition print_panid :: "ctl_env \<Rightarrow> char list \<Rightarrow> world \<Rightarrow> (ub + int \<times> string \<times> world) option" where
  "print_panid env name = with_device env name
     (print_value (\<lambda>w. conbee_get_nwk_panid (wakes env) w (junk16 env)) panid_text)"

definition nwk_addr_text :: "u16 \<Rightarrow> string" where
  "nwk_addr_text v = ''Current NWK Address: '' @ format_d (sint v) @ ''(0x'' @ format_X 4 (unat v) @ '')'' @ nl"

definition print_nwk_addr :: "ctl_env \<Rightarrow> char list \<Rightarrow> world \<Rightarrow> (ub + int \<times> string \<times> world) option" where
  "print_nwk_addr env name = with_device env name
     (print_value (\<lambda>w. conbee_get_nwk_address (wakes env) w (junk16 env)) nwk_addr_text)"

definition nwk_ext_panid_text :: "u64 \<Rightarrow> string" where
  "nwk_ext_panid_text v = ''Current NWK EXT PANID: '' @ format_u (unat v) @ ''(0x'' @ format_X 8 (unat v) @ '')'' @ nl"

definition print_nwk_ext_panid :: "ctl_env \<Rightarrow> char list \<Rightarrow> world \<Rightarrow> (ub + int \<times> string \<times> world) option" where
  "print_nwk_ext_panid env name = with_device env name
     (print_value (\<lambda>w. conbee_get_nwk_extended_panid (wakes env) w (junk64 env)) nwk_ext_panid_text)"

definition network_mode_text :: "u8 \<Rightarrow> string" where
  "network_mode_text v = ''Current Network Mode: '' @ (if v = NETWORK_MODE_ROUTER then ''Router'' else ''Coordinator'') @ nl"

definition print_network_mode :: "ctl_env \<Rightarrow> char list \<Rightarrow> world \<Rightarrow> (ub + int \<times> string \<times> world) option" where
  "print_network_mode env name = with_device env name
     (print_value (\<lambda>w. conbee_get_network_mode (wakes env) w (junk8 env)) network_mode_text)"

definition channel_mask_text :: "u32 \<Rightarrow> string" where
  "channel_mask_text v = ''Current Channel Mask: '' @ format_u (unat v) @ ''(0x'' @ format_X 8 (unat v) @ '')'' @ nl"

definition print_channel_mask :: "ctl_env \<Rightarrow> char list \<Rightarrow> world \<Rightarrow> (ub + int \<times> string \<times> world) option" where
  "print_channel_mask env name = with_device env name
     (print_value (\<lambda>w. conbee_get_channel_mask (wakes env) w (junk32 env)) channel_mask_text)"

definition aps_ext_panid_text :: "u64 \<Rightarrow> string" where
  "aps_ext_panid_text v = ''Current APS EXT PANID: '' @ format_u (unat v) @ ''(0x'' @ format_X 8 (unat v) @ '')'' @ nl"

definition print_aps_ext_panid :: "ctl_env \<Rightarrow> char list \<Rightarrow> world \<Rightarrow> (ub + int \<times> string \<times> world) option" where
  "print_aps_ext_panid env name = with_device env name
     (print_value (\<lambda>w. conbee_get_aps_extended_panid (wakes env) w (junk64 env)) aps_ext_panid_text)"

definition tc_addr_text :: "u64 \<Rightarrow> string" where
  "tc_addr_text v = ''Current Trust Center Address: '' @ format_d (sint v) @ ''(0x'' @ format_X 16 (unat v) @ '')'' @ nl"

definition print_tc_addr :: "ctl_env \<Rightarrow> char list \<Rightarrow> world \<Rightarrow> (ub + int \<times> string \<times> world) option" where
  "print_tc_addr env name = with_device env name
     (print_value (\<lambda>w. conbee_get_trust_center_addr (wakes env) w (junk64 env)) tc_addr_text)"

text \<open>The value is a \<open>uint8_t\<close> in one of the two commands that print it and an \<open>int\<close> in the other.\<close>

definition security_mode_text :: "int \<Rightarrow> string" where
  "security_mode_text mode = ''Current Security Mode: '' @
     (if mode = uint SECURITY_MODE_NO then ''no security''
      else if mode = uint SECURITY_MODE_NO_MASTER then ''no master, but trust center link key''
      else if mode = uint SECURITY_MODE_PRECONF then ''preconfigured network key''
      else if mode = uint SECURITY_MODE_TC then ''network from trust center''
      else ''unknon mode'') @ nl"

definition print_security_mode :: "ctl_env \<Rightarrow> char list \<Rightarrow> world \<Rightarrow> (ub + int \<times> string \<times> world) option" where
  "print_security_mode env name = with_device env name
     (print_value (\<lambda>w. conbee_get_security_mode (wakes env) w (junk8 env)) (\<lambda>v. security_mode_text (uint v)))"

subsection \<open>Setting commands\<close>

text \<open>The commands of the tool, in the order \<open>main\<close> registers them.\<close>

datatype ctl_command =
    PrintVersion | PrintMac | PrintPanid | PrintNwkAddr | PrintNwkExtPanid
  | PrintNetworkMode | SetNetworkMode | PrintChannelMask | SetChannelMask
  | PrintApsExtPanid | SetApsExtPanid | PrintTcAddr | SetTrustCenter
  | PrintSecurityMode | SetSecurityMode

text \<open>The variable of the one option a \<open>set\<close> command registers behind the help flag.\<close>

fun int_variable :: "'c argument list \<Rightarrow> 32 word" where
  "int_variable (_ # ARG_INT n # _) = (case int_value n of Some v \<Rightarrow> v | None \<Rightarrow> 0)"
| "int_variable _ = 0"

fun str_variable :: "'c argument list \<Rightarrow> char list" where
  "str_variable (_ # ARG_STR s # _) = str_value s"
| "str_variable _ = []"

text \<open>Parsing the strings of a \<open>set\<close> command. What is printed is kept; the code is not looked at.\<close>

fun message_of :: "'c parse_result \<Rightarrow> string" where
  "message_of (Returned code msg) = msg"
| "message_of _ = []"

definition parse_own_options ::
  "ctl_command arg_parse_ctx option \<Rightarrow> nat \<Rightarrow> string option list \<Rightarrow> ub + string \<times> ctl_command argument list" where
  "parse_own_options ctx argc argv =
     bindE (argparse_parse ctx argc argv) (\<lambda>(res, args). Inr (message_of res, args))"

definition parse_int_option :: "arg_int \<Rightarrow> nat \<Rightarrow> string option list \<Rightarrow> ub + string \<times> 32 word" where
  "parse_int_option opt argc argv =
     bindE (argparse_init True True True True) (\<lambda>ctx.
     bindE (argparse_add_int True ctx (Some opt)) (\<lambda>(_, ctx).
     bindE (parse_own_options ctx argc argv) (\<lambda>(msg, args). Inr (msg, int_variable args))))"

definition parse_str_option :: "arg_str \<Rightarrow> nat \<Rightarrow> string option list \<Rightarrow> ub + string \<times> char list" where
  "parse_str_option opt argc argv =
     bindE (argparse_init True True True True) (\<lambda>ctx.
     bindE (argparse_add_string True ctx (Some opt)) (\<lambda>(_, ctx).
     bindE (parse_own_options ctx argc argv) (\<lambda>(msg, args). Inr (msg, str_variable args))))"

definition set_value ::
  "(world \<Rightarrow> (ub + int \<times> world) option) \<Rightarrow> ub + string \<Rightarrow> world \<Rightarrow> (ub + string \<times> world) option" where
  "set_value setter shown w =
     map_option (\<lambda>r. bindE r (\<lambda>(err, w). if err < 0 then Inr ([], w) else bindE shown (\<lambda>s. Inr (s, w)))) (setter w)"

text \<open>A command whose own options have been parsed: what the parser printed comes first.\<close>

definition after_options ::
  "ub + string \<times> 'v \<Rightarrow> ('v \<Rightarrow> (ub + int \<times> string \<times> world) option) \<Rightarrow> (ub + int \<times> string \<times> world) option" where
  "after_options parsed cont =
     (case parsed of
        Inl e \<Rightarrow> Some (Inl e)
      | Inr (msg, v) \<Rightarrow> map_option (map_sum id (\<lambda>(code, out, w). (code, msg @ out, w))) (cont v))"

definition network_mode_option :: "ctl_env \<Rightarrow> arg_int" where
  "network_mode_option env =
     \<lparr>int_base = \<lparr>mandatory = 1, is_set = 0\<rparr>, int_short = CHR ''m'', int_long = ''mode'',
      int_description = ''the network mode to set 0=Router, 1=Cooardinator'', int_value = Some (junk_int env)\<rparr>"

definition network_mode_set_text :: "32 word \<Rightarrow> string" where
  "network_mode_set_text mode = ''Network mode set to '' @ (if mode = 0 then ''Router'' else ''Coordinator'') @ nl"

definition set_network_mode ::
  "ctl_env \<Rightarrow> char list \<Rightarrow> nat \<Rightarrow> string option list \<Rightarrow> world \<Rightarrow> (ub + int \<times> string \<times> world) option" where
  "set_network_mode env name argc argv w =
     after_options (parse_int_option (network_mode_option env) argc argv) (\<lambda>mode.
       with_device env name
         (set_value (\<lambda>w. conbee_set_network_mode (wakes env) w (ucast mode))
           (Inr (network_mode_set_text mode))) w)"

definition security_mode_option :: "ctl_env \<Rightarrow> arg_int" where
  "security_mode_option env =
     \<lparr>int_base = \<lparr>mandatory = 1, is_set = 0\<rparr>, int_short = CHR ''m'', int_long = ''mode'',
      int_description = ''the channel mask as a hex string, e.g. 0x20000000 (32 bit)'', int_value = Some (junk_int env)\<rparr>"

definition set_security_mode ::
  "ctl_env \<Rightarrow> char list \<Rightarrow> nat \<Rightarrow> string option list \<Rightarrow> world \<Rightarrow> (ub + int \<times> string \<times> world) option" where
  "set_security_mode env name argc argv w =
     after_options (parse_int_option (security_mode_option env) argc argv) (\<lambda>mode.
       with_device env name
         (set_value (\<lambda>w. conbee_set_security_mode (wakes env) w (ucast mode)) (Inr (security_mode_text (sint mode)))) w)"

text \<open>
  \<open>strtol\<close> and \<open>%s\<close> on an array: both stop inside it or read behind its end. \<open>strtol\<close> stops at the first
  character that does not belong to the number; for that the characters from there on must reach behind it.
\<close>

definition number_text :: "string \<Rightarrow> nat \<Rightarrow> string" where
  "number_text s base =
     (let s = dropWhile is_space s;
          s = (if char_at s 0 \<in> {CHR ''-'', CHR ''+''} then tl s else s);
          s = (if base = 16 \<and> char_at s 0 = CHR ''0'' \<and> char_at s 1 \<in> {CHR ''x'', CHR ''X''} then tl (tl s) else s)
      in dropWhile (\<lambda>c. digit_value c < base) s)"

definition array_strtol :: "char list \<Rightarrow> nat \<Rightarrow> nat \<Rightarrow> ub + int" where
  "array_strtol a off base =
     (if off \<le> length a \<and> number_text (drop off a) base \<noteq> [] then Inr (strtol (drop off a) base) else Inl OutOfBounds)"

definition array_text :: "char list \<Rightarrow> ub + string" where
  "array_text a = (if CHR 0x00 \<in> set a then Inr (takeWhile (\<lambda>c. c \<noteq> CHR 0x00) a) else Inl OutOfBounds)"

definition set_number ::
  "(int \<Rightarrow> world \<Rightarrow> (ub + int \<times> world) option) \<Rightarrow> string \<Rightarrow> char list \<Rightarrow> world \<Rightarrow> (ub + string \<times> world) option" where
  "set_number setter label a w =
     (case array_strtol a 2 16 of
        Inl e \<Rightarrow> Some (Inl e)
      | Inr k \<Rightarrow> set_value (setter k) (map_sum id (\<lambda>s. label @ s @ nl) (array_text a)) w)"

definition channel_mask_option :: "ctl_env \<Rightarrow> arg_str" where
  "channel_mask_option env =
     \<lparr>str_base = \<lparr>mandatory = 1, is_set = 0\<rparr>, str_short = CHR ''m'', str_long = ''mask'',
      str_value = take 12 (junk_text env), str_maxchars = 10,
      str_description = ''the channel mask as a hex string, e.g. 0x20000000 (32 bit)''\<rparr>"

definition set_channel_mask ::
  "ctl_env \<Rightarrow> char list \<Rightarrow> nat \<Rightarrow> string option list \<Rightarrow> world \<Rightarrow> (ub + int \<times> string \<times> world) option" where
  "set_channel_mask env name argc argv w =
     after_options (parse_str_option (channel_mask_option env) argc argv) (\<lambda>a. with_device env name
       (set_number (\<lambda>k w. conbee_set_channel_mask (wakes env) w (word_of_int k)) ''Channel Mask set to '' a) w)"

definition aps_ext_panid_option :: "ctl_env \<Rightarrow> arg_str" where
  "aps_ext_panid_option env =
     \<lparr>str_base = \<lparr>mandatory = 1, is_set = 0\<rparr>, str_short = CHR ''p'', str_long = ''panid'',
      str_value = take 20 (junk_text env), str_maxchars = 18,
      str_description = ''the aps ext panid as a hex string, e.g. 0xFFFFFFFFFFFFFFFF (64 bit)''\<rparr>"

definition set_aps_ext_panid ::
  "ctl_env \<Rightarrow> char list \<Rightarrow> nat \<Rightarrow> string option list \<Rightarrow> world \<Rightarrow> (ub + int \<times> string \<times> world) option" where
  "set_aps_ext_panid env name argc argv w =
     after_options (parse_str_option (aps_ext_panid_option env) argc argv) (\<lambda>a. with_device env name
       (set_number (\<lambda>k w. conbee_set_aps_extended_panid (wakes env) w (word_of_int k)) ''APS EXT PANID set to '' a) w)"

definition trust_center_option :: "ctl_env \<Rightarrow> arg_str" where
  "trust_center_option env =
     \<lparr>str_base = \<lparr>mandatory = 1, is_set = 0\<rparr>, str_short = CHR ''a'', str_long = ''addr'',
      str_value = take 20 (junk_text env), str_maxchars = 18,
      str_description = ''the trust center address as a hex string, e.g. 0x2000000000000000 (64 bit)''\<rparr>"

definition set_trust_center ::
  "ctl_env \<Rightarrow> char list \<Rightarrow> nat \<Rightarrow> string option list \<Rightarrow> world \<Rightarrow> (ub + int \<times> string \<times> world) option" where
  "set_trust_center env name argc argv w =
     after_options (parse_str_option (trust_center_option env) argc argv) (\<lambda>a. with_device env name
       (set_number (\<lambda>k w. conbee_set_trust_center_addr (wakes env) w (word_of_int k)) ''Trust Center set to '' a) w)"

subsection \<open>The program\<close>

fun run_command ::
  "ctl_env \<Rightarrow> char list \<Rightarrow> ctl_command \<Rightarrow> nat \<Rightarrow> string option list \<Rightarrow> world \<Rightarrow> (ub + int \<times> string \<times> world) option" where
  "run_command env name PrintVersion argc argv w = print_version env name w"
| "run_command env name PrintMac argc argv w = print_mac env name w"
| "run_command env name PrintPanid argc argv w = print_panid env name w"
| "run_command env name PrintNwkAddr argc argv w = print_nwk_addr env name w"
| "run_command env name PrintNwkExtPanid argc argv w = print_nwk_ext_panid env name w"
| "run_command env name PrintNetworkMode argc argv w = print_network_mode env name w"
| "run_command env name SetNetworkMode argc argv w = set_network_mode env name argc argv w"
| "run_command env name PrintChannelMask argc argv w = print_channel_mask env name w"
| "run_command env name SetChannelMask argc argv w = set_channel_mask env name argc argv w"
| "run_command env name PrintApsExtPanid argc argv w = print_aps_ext_panid env name w"
| "run_command env name SetApsExtPanid argc argv w = set_aps_ext_panid env name argc argv w"
| "run_command env name PrintTcAddr argc argv w = print_tc_addr env name w"
| "run_command env name SetTrustCenter argc argv w = set_trust_center env name argc argv w"
| "run_command env name PrintSecurityMode argc argv w = print_security_mode env name w"
| "run_command env name SetSecurityMode argc argv w = set_security_mode env name argc argv w"

text \<open>\<open>conbee_device_name\<close>: 200 characters, zero at the start of the program, with the default copied in.\<close>

definition default_device_name :: "char list" where
  "default_device_name = ''/dev/ttyACM0'' @ replicate 188 CHR 0x00"

definition device_option :: arg_str where
  "device_option =
     \<lparr>str_base = \<lparr>mandatory = 1, is_set = 0\<rparr>, str_short = CHR ''d'', str_long = ''device'',
      str_value = default_device_name, str_maxchars = 199,
      str_description = ''device name of the conbee stick (default: /dev/ttyACM0)''\<rparr>"

definition ctl_cmd :: "string \<Rightarrow> string \<Rightarrow> ctl_command \<Rightarrow> ctl_command argument" where
  "ctl_cmd name description c =
     ARG_CMD \<lparr>cmd_base = \<lparr>mandatory = 1, is_set = 0\<rparr>, no_command = 0, cmd_name = name, cmd_description = description, cmd_cb = c\<rparr>"

definition ctl_commands :: "ctl_command argument list" where
  "ctl_commands =
    [ctl_cmd ''version'' ''get firmware version'' PrintVersion,
     ctl_cmd ''mac'' ''get sticks mac address'' PrintMac,
     ctl_cmd ''panid'' ''get current nwk panid'' PrintPanid,
     ctl_cmd ''nwk-addr'' ''get current nwk address'' PrintNwkAddr,
     ctl_cmd ''nwk-ext-panid'' ''get current nwk ext panid'' PrintNwkExtPanid,
     ctl_cmd ''network-mode'' ''get current network mode'' PrintNetworkMode,
     ctl_cmd ''set-network-mode'' ''set network mode'' SetNetworkMode,
     ctl_cmd ''channel-mask'' ''print the current channel mask of the stick'' PrintChannelMask,
     ctl_cmd ''set-channel-mask'' ''set channel mask'' SetChannelMask,
     ctl_cmd ''aps-ext-panid'' ''get aps extended panid'' PrintApsExtPanid,
     ctl_cmd ''set-aps-ext-panid'' ''set aps extended panid'' SetApsExtPanid,
     ctl_cmd ''tc-addr'' ''get current trust center address'' PrintTcAddr,
     ctl_cmd ''set-tc-addr'' ''set trust center address'' SetTrustCenter,
     ctl_cmd ''sec-mode'' ''get current security mode'' PrintSecurityMode,
     ctl_cmd ''set-sec-mode'' ''set security mode'' SetSecurityMode]"

text \<open>\<open>main\<close>: the code of \<open>argparse_parse\<close> is dropped, so the program always ends with 0.\<close>

definition conbeectrl_main :: "ctl_env \<Rightarrow> nat \<Rightarrow> string option list \<Rightarrow> world \<Rightarrow> (ub + int \<times> string \<times> world) option" where
  "conbeectrl_main env argc argv w =
     (case bindE (argparse_init True True True True) (\<lambda>ctx.
           bindE (register_all (ARG_STR device_option # ctl_commands) (the ctx)) (\<lambda>ctx.
           argparse_parse (Some ctx) argc argv)) of
        Inl e \<Rightarrow> Some (Inl e)
      | Inr (RunCommand c n v, args) \<Rightarrow>
          map_option (map_sum id (\<lambda>(code, out, w). (0, out, w))) (run_command env (str_variable args) c n v w)
      | Inr (Returned code msg, args) \<Rightarrow> Some (Inr (0, msg, w))
      | Inr (RunFlag c v, args) \<Rightarrow> Some (Inr (0, [], w)))"

subsection \<open>Finding the command\<close>

lemma main_ctx:
  "bindE (argparse_init True True True True) (\<lambda>ctx. bindE (register_all (ARG_STR device_option # ctl_commands) (the ctx)) f) =
     f \<lparr>arguments = [ARG_FLAG help_flag] @ ARG_STR device_option # ctl_commands, capacity = array_size 17\<rparr>"
proof -
  have "length ctl_commands = 15" by (simp add: ctl_commands_def)
  then show ?thesis by (simp add: argparse_init_ok register_all_ok del: register_all.simps)
qed

definition main_ctx_args :: "ctl_command argument list" where
  "main_ctx_args = [ARG_FLAG help_flag] @ ARG_STR device_option # ctl_commands"

lemma conbeectrl_main_eq:
  "conbeectrl_main env argc argv w =
     (case argparse_parse (Some \<lparr>arguments = main_ctx_args, capacity = array_size 17\<rparr>) argc argv of
        Inl e \<Rightarrow> Some (Inl e)
      | Inr (RunCommand c n v, args) \<Rightarrow>
          map_option (map_sum id (\<lambda>(code, out, w). (0, out, w))) (run_command env (str_variable args) c n v w)
      | Inr (Returned code msg, args) \<Rightarrow> Some (Inr (0, msg, w))
      | Inr (RunFlag c v, args) \<Rightarrow> Some (Inr (0, [], w)))"
  by (simp only: conbeectrl_main_def main_ctx main_ctx_args_def)

lemma find_in_main: "find_command main_ctx_args s = find_command ctl_commands s"
  by (simp add: main_ctx_args_def)

lemma device_name_set: "length (str_value device_option) = 200" "str_short device_option = CHR ''d''"
  "str_maxchars device_option = 199" "str_variable main_ctx_args = default_device_name"
  by (simp_all add: device_option_def default_device_name_def main_ctx_args_def)

lemma find_command_word: "find_command ctl_commands s = Some c \<Longrightarrow> char_at s 0 \<noteq> CHR ''-''"
proof -
  assume "find_command ctl_commands s = Some c"
  then obtain a where a: "ARG_CMD a \<in> set ctl_commands" "cmd_name a = s" by (blast dest: find_command_name)
  have "\<forall>a \<in> set ctl_commands. case a of ARG_CMD a \<Rightarrow> char_at (cmd_name a) 0 \<noteq> CHR ''-'' | _ \<Rightarrow> True"
    by (simp add: ctl_commands_def ctl_cmd_def)
  with a show ?thesis by force
qed

text \<open>The first word of the line decides: it is the name of a command, or the program says it is not.\<close>

lemma main_dispatch:
  assumes "char_at s 0 \<noteq> CHR ''-''"
  shows "conbeectrl_main env (2 + length rest) ([Some program, Some s] @ map Some rest @ [None]) w =
     (case find_command ctl_commands s of
        Some c \<Rightarrow> map_option (map_sum id (\<lambda>(code, out, w). (0, out, w)))
          (run_command env default_device_name c (1 + length rest) (Some s # map Some rest @ [None]) w)
      | None \<Rightarrow> Some (Inr (0, s @ '' is an unknown command/argument'' @ nl @ nl @ argparse_usage main_ctx_args program, w)))"
proof -
  let ?argv = "[Some program, Some s] @ map Some rest @ [None]"
  have arg: "get_arg ?argv 1 = Inr s" "get_arg ?argv 0 = Inr program" by (simp_all add: get_arg_def)
  have loop: "parse_loop (2 + length rest) main_ctx_args 1 ?argv =
      Inr (Some (case find_command ctl_commands s of
                   Some cb \<Rightarrow> CallCommand cb (1 + length rest) (drop 1 ?argv)
                 | None \<Rightarrow> UnknownArgument s), main_ctx_args)"
    using parse_word [OF arg(1) assms, of "2 + length rest" main_ctx_args] find_in_main [of s]
    by (simp split: option.splits)
  have "main_ctx_args \<noteq> []" by (simp add: main_ctx_args_def)
  then show ?thesis
    unfolding conbeectrl_main_eq argparse_parse_def option.case arg_parse_ctx.simps loop if_not_P [OF \<open>main_ctx_args \<noteq> []\<close>]
    using arg(2) by (auto simp: device_name_set report_def split: option.splits)
qed

subsection \<open>A command from connecting to closing\<close>

text \<open>
  A working system: every call succeeds, the worker starts, serves the queues and stops when it is asked
  to; and a process that has done nothing yet, on a heap with room.
\<close>

definition working_env :: "ctl_env \<Rightarrow> u8 list \<Rightarrow> u8 list \<Rightarrow> (u8 list \<Rightarrow> u8 list) \<Rightarrow> bool" where
  "working_env env rstack wstack stick \<longleftrightarrow> all_calls_succeed (system_calls env) \<and>
     started env = (\<lambda>w. w\<lparr>dev := (dev w)\<lparr>worker_running := 1\<rparr>\<rparr>) \<and>
     wakes env = worker_wakes rstack wstack stick \<and> others env = worker_pass rstack wstack \<and> joined env = (\<lambda>w. w) \<and>
     length rstack = 1500 \<and> length wstack = 1000"

definition fresh_process :: "world \<Rightarrow> bool" where
  "fresh_process w \<longleftrightarrow> length (tty (dev w)) = 200 \<and> write_faults w = [] \<and> tty_in w = [] \<and>
     roomy (mem w) \<and> heap_ok (mem w) \<and> 6 \<le> avail (mem w)"

lemma connect_at_rest:
  assumes "working_env env rstack wstack stick" and "fresh_process w"
  obtains v where "conbee_connect (system_calls env) w name = Inr (0, v)" and "at_rest (started env v)"
    and "next_sequence (dev (started env v)) = 0" and "worker_running (dev (started env v)) = 1"
    and "mem (started env v) = mem w"
proof -
  have ok: "all_calls_succeed (system_calls env)" and len: "length (tty (dev w)) = 200"
    and st: "started env = (\<lambda>w. w\<lparr>dev := (dev w)\<lparr>worker_running := 1\<rparr>\<rparr>)"
    using assms by (simp_all add: working_env_def fresh_process_def)
  show ?thesis
  proof (rule conbee_connect_cases [OF len, of "system_calls env" name])
    fix v assume v: "conbee_connect (system_calls env) w name = Inr (if all_calls_succeed (system_calls env) then 0 else - 1, v)"
      "connected v = all_calls_succeed (system_calls env)"
      "all_calls_succeed (system_calls env) \<Longrightarrow> fd (dev v) = open_result (system_calls env) \<and> pipe_send_queue (dev v) = pipe_fds (system_calls env) \<and>
           send_queue (dev v) = conbee_queue_init \<and> receive_queue (dev v) = conbee_queue_init \<and>
           next_sequence (dev v) = 0 \<and> worker_running (dev v) = 0 \<and> worker_stop (dev v) = 0 \<and>
           pipe_data v = [] \<and> worker_created v = (thread_result (system_calls env) = 0)"
      "mem v = mem w" "tty_in v = tty_in w" "write_faults v = write_faults w"
    have "at_rest (started env v)"
      using v assms(2) ok
      by (simp add: at_rest_def st queues_def fresh_process_def sends_ok_def connected_def conbee_queue_init_def)
    then show ?thesis using that v ok st by simp
  qed
qed

lemma close_when_settled:
  assumes "working_env env rstack wstack stick" and "tty_in w = []" and "pipe_data w = []"
  shows "\<exists>v. conbee_close (others env) (joined env) w = Some v \<and> \<not> connected v"
proof -
  have "\<exists>v. worker_turn (plain_turn rstack wstack (w\<lparr>dev := (dev w)\<lparr>worker_stop := 1\<rparr>\<rparr>))
      (w\<lparr>dev := (dev w)\<lparr>worker_stop := 1\<rparr>\<rparr>) = Some (Inr v)"
    using assms(2,3) by (simp add: worker_turn_def plain_turn_def sys_select_def)
  from stopping.close_returns [OF this, of "\<lambda>w. w"] show ?thesis
    using assms(1) by (auto simp: working_env_def)
qed

text \<open>A command whose call is answered prints what its body prints, disconnects and returns 0.\<close>

lemma with_device_works:
  assumes "working_env env rstack wstack stick" and "fresh_process w"
    and "\<And>v. at_rest v \<Longrightarrow> next_sequence (dev v) = 0 \<Longrightarrow> mem v = mem w \<Longrightarrow> \<exists>w'. body v = Some (Inr (out, w')) \<and> answered v w'"
  shows "\<exists>u. with_device env name body w = Some (Inr (0, out, u)) \<and> \<not> connected u"
proof -
  obtain v where v: "conbee_connect (system_calls env) w (c_string (map of_char name)) = Inr (0, v)"
    "at_rest (started env v)" "next_sequence (dev (started env v)) = 0" "mem (started env v) = mem w"
    by (rule connect_at_rest [OF assms(1,2)])
  obtain w' where w': "body (started env v) = Some (Inr (out, w'))" "answered (started env v) w'"
    using assms(3) [OF v(2-4)] by blast
  then obtain u where "conbee_close (others env) (joined env) w' = Some u" "\<not> connected u"
    using close_when_settled [OF assms(1), of w'] by (auto simp: answered_def settled_def)
  then show ?thesis using v(1) w'(1) by (simp add: with_device_def)
qed

text \<open>
  The printing commands for one parameter: the value, nothing if the stick reports a failure, and
  what the uninitialised variable of the command held if the answer has the wrong size.
\<close>

lemma print_parameter:
  fixes junk :: "'a::len word"
  assumes "working_env env rstack wstack stick" and "fresh_process w" and "length val \<le> 1400" and "n < 65536"
    and "stick (slip_encode (packet_of (request_body (ReadParameter p) 0))) =
         slip_encode (packet_of (parameter_answer COMMAND_READ_PARAMETER 0 st p val))"
  shows "\<exists>u. with_device env name
       (print_value (\<lambda>w. get_parameter (read_parameter_response n) (wakes env) p w junk) shown) w =
     Some (Inr (0, if st \<noteq> STATUS_SUCCESS then [] else shown (if length val = n then le_word val else junk), u)) \<and> \<not> connected u"
proof (rule with_device_works [OF assms(1,2)])
  fix v assume v: "at_rest v" "next_sequence (dev v) = 0"
  have stick: "stick (slip_encode (packet_of (request_body (ReadParameter p) (next_sequence (dev v))))) =
      slip_encode (packet_of (parameter_answer COMMAND_READ_PARAMETER (next_sequence (dev v)) st p val))"
    using assms(5) v(2) by simp
  have stacks: "length rstack = 1500" "length wstack = 1000" "wakes env = worker_wakes rstack wstack stick"
    using assms(1) by (simp_all add: working_env_def)
  show "\<exists>w'. print_value (\<lambda>w. get_parameter (read_parameter_response n) (wakes env) p w junk) shown v =
      Some (Inr (if st \<noteq> STATUS_SUCCESS then [] else shown (if length val = n then le_word val else junk), w')) \<and> answered v w'"
    using get_parameter_answered [where stick = stick, OF v(1) stacks(1,2) assms(3,4) stick, of junk] stacks(3)
    by (auto simp: print_value_def)
qed

subsection \<open>Properties of the printing commands\<close>

text \<open>
  The commands that print a number: the parameter, the bytes of its variable and the text, for the bytes
  of a right answer or for a variable that has not been set.
\<close>

fun numeric_command :: "ctl_command \<Rightarrow> ctl_env \<Rightarrow> (u8 \<times> nat \<times> (u8 list option \<Rightarrow> string)) option" where
  "numeric_command PrintPanid env = Some (PARAM_NWK_PANID, 2, \<lambda>v. panid_text (case v of Some bs \<Rightarrow> le_word bs | None \<Rightarrow> junk16 env))"
| "numeric_command PrintNwkAddr env = Some (PARAM_NWK_ADDRESS, 2, \<lambda>v. nwk_addr_text (case v of Some bs \<Rightarrow> le_word bs | None \<Rightarrow> junk16 env))"
| "numeric_command PrintNwkExtPanid env =
     Some (PARAM_NWK_EXT_PANID, 8, \<lambda>v. nwk_ext_panid_text (case v of Some bs \<Rightarrow> le_word bs | None \<Rightarrow> junk64 env))"
| "numeric_command PrintNetworkMode env =
     Some (PARAM_APS_COORDINATOR, 1, \<lambda>v. network_mode_text (case v of Some bs \<Rightarrow> le_word bs | None \<Rightarrow> junk8 env))"
| "numeric_command PrintChannelMask env =
     Some (PARAM_CHANNEL_MASK, 4, \<lambda>v. channel_mask_text (case v of Some bs \<Rightarrow> le_word bs | None \<Rightarrow> junk32 env))"
| "numeric_command PrintApsExtPanid env =
     Some (PARAM_APS_EXT_PANID, 8, \<lambda>v. aps_ext_panid_text (case v of Some bs \<Rightarrow> le_word bs | None \<Rightarrow> junk64 env))"
| "numeric_command PrintTcAddr env =
     Some (PARAM_TRUST_CENTER_ADDRESS, 8, \<lambda>v. tc_addr_text (case v of Some bs \<Rightarrow> le_word bs | None \<Rightarrow> junk64 env))"
| "numeric_command PrintSecurityMode env =
     Some (PARAM_SECURITY_MODE, 1, \<lambda>v. security_mode_text (uint (case v of Some bs \<Rightarrow> le_word bs | None \<Rightarrow> junk8 env)))"
| "numeric_command _ env = None"

lemmas getters = conbee_get_nwk_panid_def conbee_get_nwk_address_def conbee_get_nwk_extended_panid_def
  conbee_get_network_mode_def conbee_get_channel_mask_def conbee_get_aps_extended_panid_def
  conbee_get_trust_center_addr_def conbee_get_security_mode_def
  conbee_read_parameter_response_uint8_def conbee_read_parameter_response_uint16_def
  conbee_read_parameter_response_uint32_def conbee_read_parameter_response_uint64_def

lemmas printers = print_panid_def print_nwk_addr_def print_nwk_ext_panid_def print_network_mode_def
  print_channel_mask_def print_aps_ext_panid_def print_tc_addr_def print_security_mode_def

lemma numeric_command_prints:
  assumes "numeric_command c env = Some (p, n, shown)"
    and env: "working_env env rstack wstack stick" "fresh_process w" "length val \<le> 1400"
    and stick: "stick (slip_encode (packet_of (request_body (ReadParameter p) 0))) =
         slip_encode (packet_of (parameter_answer COMMAND_READ_PARAMETER 0 st p val))"
  shows "\<exists>u. run_command env name c argc argv w =
     Some (Inr (0, if st \<noteq> STATUS_SUCCESS then [] else shown (if length val = n then Some val else None), u)) \<and> \<not> connected u"
proof -
  have n: "n < 65536" using assms(1) by (cases c) auto
  note printed = print_parameter [where stick = stick and st = st, OF env n stick, of name]
  show ?thesis
    using assms(1) printed [where junk = "junk8 env"] printed [where junk = "junk16 env"]
      printed [where junk = "junk32 env"] printed [where junk = "junk64 env"]
    by (cases c) (auto simp: printers getters)
qed

text \<open>
  C29: a command that prints a numeric parameter, from the command line to the stick and back: the code is 0, the
  device is closed again, and what is printed is the value when the answer has the right size. For a failure
  status nothing is printed; for an answer of another size the command prints its uninitialised variable as
  if it were the value, since the 255 of the getter is not less than 0.
\<close>

theorem printing_command_result:
  assumes "find_command ctl_commands s = Some c" and "numeric_command c env = Some (p, n, shown)"
    and "working_env env rstack wstack stick" and "fresh_process w" and "length val \<le> 1400"
    and "stick (slip_encode (packet_of (request_body (ReadParameter p) 0))) =
         slip_encode (packet_of (parameter_answer COMMAND_READ_PARAMETER 0 st p val))"
  shows "\<exists>u. conbeectrl_main env (2 + length rest) ([Some program, Some s] @ map Some rest @ [None]) w =
     Some (Inr (0, if st \<noteq> STATUS_SUCCESS then [] else shown (if length val = n then Some val else None), u)) \<and> \<not> connected u"
  using main_dispatch [OF find_command_word [OF assms(1)], of env rest program w] assms(1)
    numeric_command_prints [where stick = stick and st = st, OF assms(2-6),
      of default_device_name "1 + length rest" "Some s # map Some rest @ [None]"] by auto

definition ready_env :: "(u8 list \<Rightarrow> u8 list) \<Rightarrow> ctl_env" where
  "ready_env stick =
    \<lparr>system_calls = \<lparr>open_result = 3, tcgetattr_result = 0, cfsetospeed_result = 0, cfsetispeed_result = 0,
        tcsetattr_result = 0, pipe_result = 0, pipe_fds = (4, 5), thread_result = 0\<rparr>,
     started = (\<lambda>w. w\<lparr>dev := (dev w)\<lparr>worker_running := 1\<rparr>\<rparr>),
     wakes = worker_wakes (replicate 1500 0) (replicate 1000 0) stick,
     others = worker_pass (replicate 1500 0) (replicate 1000 0), joined = (\<lambda>w. w),
     junk8 = 0xA5, junk16 = 0xA5A5, junk32 = 0xA5A5A5A5, junk64 = 0xA5A5A5A5A5A5A5A5, junk_int = 0xA5A5A501,
     junk_mac = replicate 8 0xA5, junk_version = \<lparr>major = 1, minor = 2, platform = 3, reserved = 4\<rparr>,
     junk_text = replicate 20 CHR ''5''\<rparr>"

lemma ready_env_works: "working_env (ready_env stick) (replicate 1500 0) (replicate 1000 0) stick"
  by (simp add: working_env_def ready_env_def all_calls_succeed_def)

lemma ready_junk_int: "junk_int (ready_env stick) = 0xA5A5A501"
  by (simp add: ready_env_def)

definition new_process :: world where
  "new_process = (idle_world 6)\<lparr>dev := (dev (idle_world 6))\<lparr>tty := replicate 200 0\<rparr>\<rparr>"

lemma new_process_fresh: "fresh_process new_process"
  by (simp add: fresh_process_def new_process_def idle_world_def roomy_def sizeof_ptr_def)

theorem printing_command_result_witness:
  "\<exists>u. conbeectrl_main (ready_env (\<lambda>_. slip_encode (packet_of (parameter_answer COMMAND_READ_PARAMETER 0 0 PARAM_NWK_PANID [0x62, 0x1A]))))
      2 [Some ''conbeectrl'', Some ''panid'', None] new_process = Some (Inr (0, panid_text (le_word [0x62, 0x1A]), u)) \<and> \<not> connected u"
  using printing_command_result [OF _ _ ready_env_works new_process_fresh, of "''panid''" PrintPanid _ PARAM_NWK_PANID 2 _ "[0x62, 0x1A]" 0 "[]"
      "''conbeectrl''"]
  by (simp add: ctl_commands_def ctl_cmd_def STATUS_SUCCESS_def)

subsection \<open>Properties of the setting commands\<close>

lemma set_parameter_command:
  assumes "working_env env rstack wstack stick" and "fresh_process w" and "length val < 256"
    and "stick (slip_encode (packet_of (request_body (WriteParameter p val) 0))) = slip_encode (packet_of [COMMAND_WRITE_PARAMETER, 0, st, 5, 0])"
    and setter: "\<And>w. setter w = set_parameter (wakes env) w (conbee_write_parameter_request (mem w) p val (word_of_nat (length val)))"
  shows "\<exists>u. with_device env name (set_value setter (Inr s)) w =
     Some (Inr (0, if st = STATUS_SUCCESS then s else [], u)) \<and> \<not> connected u"
proof (rule with_device_works [OF assms(1,2)])
  fix v assume v: "at_rest v" "next_sequence (dev v) = 0"
  have stacks: "length rstack = 1500" "length wstack = 1000" "wakes env = worker_wakes rstack wstack stick"
    using assms(1) by (simp_all add: working_env_def)
  have line: "stick (slip_encode (packet_of (request_body (WriteParameter p val) (next_sequence (dev v))))) =
      slip_encode (packet_of [COMMAND_WRITE_PARAMETER, 0, st, 5, 0])"
    using assms(4) v(2) by simp
  have "\<exists>w'. setter v = Some (Inr (if st = STATUS_SUCCESS then 0 else -1, w')) \<and> answered v w'"
    unfolding setter stacks(3)
    using set_parameter_answered [where stick = stick and answer = "[COMMAND_WRITE_PARAMETER, 0, st, 5, 0]" and p = p,
      OF v(1) stacks(1,2) assms(3) _ _ _ _ line] v(2) by auto
  then show "\<exists>w'. set_value setter (Inr s) v = Some (Inr (if st = STATUS_SUCCESS then s else [], w')) \<and> answered v w'"
    by (auto simp: set_value_def)
qed

text \<open>The commands for the two modes differ in the parameter, the option's text and what they print.\<close>

fun mode_command :: "ctl_command \<Rightarrow> ctl_env \<Rightarrow> (u8 \<times> arg_int \<times> (32 word \<Rightarrow> string)) option" where
  "mode_command SetNetworkMode env = Some (PARAM_APS_COORDINATOR, network_mode_option env, network_mode_set_text)"
| "mode_command SetSecurityMode env = Some (PARAM_SECURITY_MODE, security_mode_option env, \<lambda>mode. security_mode_text (sint mode))"
| "mode_command _ env = None"

lemma mode_command_options: "mode_command c env = Some (p, opt, shown) \<Longrightarrow>
    plain_int opt \<and> int_short opt = CHR ''m'' \<and> int_long opt = ''mode'' \<and> int_value opt = Some (junk_int env) \<and>
    int_base opt = \<lparr>mandatory = 1, is_set = 0\<rparr>"
  by (cases c) (auto simp: network_mode_option_def security_mode_option_def plain_int_def)

lemma parse_int_option_eq:
  "parse_int_option opt argc argv =
     bindE (argparse_parse (Some (int_ctx opt :: ctl_command arg_parse_ctx)) argc argv) (\<lambda>(res, args). Inr (message_of res, int_variable args))"
  by (simp add: parse_int_option_def argparse_init_ok argparse_add_int_def add_argument_ok parse_own_options_def
      int_ctx_def bindE_assoc numeral_2_eq_2 split_def)

lemma after_options_ok:
  "parsed = Inr (msg, v) \<Longrightarrow> cont v = Some (Inr (code, out, u)) \<Longrightarrow> after_options parsed cont = Some (Inr (code, msg @ out, u))"
  by (simp add: after_options_def)

lemma mode_command_sets:
  assumes c: "mode_command c env = Some (p, opt, shown)"
    and env: "working_env env rstack wstack stick" "fresh_process w"
    and parsed: "parse_int_option opt argc argv = Inr (msg, mode)"
    and stick: "stick (slip_encode (packet_of (request_body (WriteParameter p [ucast mode]) 0))) =
         slip_encode (packet_of [COMMAND_WRITE_PARAMETER, 0, st, 5, 0])"
  shows "\<exists>u. run_command env name c argc argv w =
     Some (Inr (0, msg @ (if st = STATUS_SUCCESS then shown mode else []), u)) \<and> \<not> connected u"
proof -
  have one: "le_bytes (Suc 0) b = [b]" for b :: u8 by (simp add: le_bytes_def)
  have set1: "\<And>w. conbee_set_network_mode (wakes env) w (ucast mode) =
      set_parameter (wakes env) w (conbee_write_parameter_request (mem w) PARAM_APS_COORDINATOR [ucast mode] (word_of_nat (length [ucast mode :: u8])))"
    and set2: "\<And>w. conbee_set_security_mode (wakes env) w (ucast mode) =
      set_parameter (wakes env) w (conbee_write_parameter_request (mem w) PARAM_SECURITY_MODE [ucast mode] (word_of_nat (length [ucast mode :: u8])))"
    by (simp_all add: conbee_set_network_mode_def conbee_set_security_mode_def conbee_write_parameter_request_uint8_def one)
  have "\<exists>u. with_device env name (set_value setter (Inr s)) w = Some (Inr (0, if st = STATUS_SUCCESS then s else [], u)) \<and> \<not> connected u"
    if "\<And>w. setter w = set_parameter (wakes env) w (conbee_write_parameter_request (mem w) p [ucast mode] (word_of_nat (length [ucast mode :: u8])))"
    for setter s
    by (rule set_parameter_command [OF env _ stick that]) simp
  note works = this
  consider "c = SetNetworkMode" | "c = SetSecurityMode" using c by (cases c) auto
  then show ?thesis
  proof cases
    case 1
    then have p: "p = PARAM_APS_COORDINATOR" and "opt = network_mode_option env" using c by auto
    from works [OF set1 [folded p]] obtain u where u: "with_device env name (set_value (\<lambda>w. conbee_set_network_mode (wakes env) w (ucast mode)) (Inr (shown mode))) w =
        Some (Inr (0, if st = STATUS_SUCCESS then shown mode else [], u))" "\<not> connected u" by blast
    have "run_command env name c argc argv w = Some (Inr (0, msg @ (if st = STATUS_SUCCESS then shown mode else []), u))"
      unfolding 1 run_command.simps set_network_mode_def by (rule after_options_ok) (use parsed c 1 u(1) in auto)
    then show ?thesis using u(2) by blast
  next
    case 2
    then have p: "p = PARAM_SECURITY_MODE" and "opt = security_mode_option env" using c by auto
    from works [OF set2 [folded p]] obtain u where u: "with_device env name (set_value (\<lambda>w. conbee_set_security_mode (wakes env) w (ucast mode)) (Inr (shown mode))) w =
        Some (Inr (0, if st = STATUS_SUCCESS then shown mode else [], u))" "\<not> connected u" by blast
    have "run_command env name c argc argv w = Some (Inr (0, msg @ (if st = STATUS_SUCCESS then shown mode else []), u))"
      unfolding 2 run_command.simps set_security_mode_def by (rule after_options_ok) (use parsed c 2 u(1) in auto)
    then show ?thesis using u(2) by blast
  qed
qed

lemma ucast_word_of_int: "ucast (word_of_int k :: 32 word) = (word_of_int k :: u8)"
  by (simp add: ucast_eq word_of_int_eq_iff take_bit_take_bit uint_word_of_int take_bit_eq_mod mod_mod_cancel)

text \<open>
  C31: \<open>set-network-mode -m k\<close> and \<open>set-sec-mode -m k\<close>, end to end: what is written to the stick is
  the low byte of \<open>k\<close>, whatever \<open>int\<close> it is, and what is printed on success is the text for the whole \<open>k\<close>;
  nothing is printed when the stick refuses. The two differ from 256 on.
\<close>

theorem set_mode_result:
  assumes "find_command ctl_commands s = Some c" and "mode_command c env = Some (p, opt, shown)"
    and "- (2 ^ 31) \<le> k" and "k < 2 ^ 31"
    and "working_env env rstack wstack stick" and "fresh_process w"
    and "stick (slip_encode (packet_of (request_body (WriteParameter p [word_of_int k]) 0))) =
         slip_encode (packet_of [COMMAND_WRITE_PARAMETER, 0, st, 5, 0])"
  shows "\<exists>u. conbeectrl_main env 4 [Some program, Some s, Some ''-m'', Some (format_d k), None] w =
     Some (Inr (0, if st = STATUS_SUCCESS then shown (word_of_int k) else [], u)) \<and> \<not> connected u"
proof -
  have opt: "plain_int opt" "int_short opt = CHR ''m''" using mode_command_options [OF assms(2)] by auto
  have "strtol (format_d k) 10 = k" using assms(3,4) by (intro strtol_format_d) simp_all
  then have parsed: "parse_int_option opt 3 [Some s, Some ''-m'', Some (format_d k), None] = Inr ([], word_of_int k)"
    by (simp add: parse_int_option_eq parse_int_short [OF opt(1), unfolded opt(2)] parsed_int_def int_set_def)
  have stick: "stick (slip_encode (packet_of (request_body (WriteParameter p [ucast (word_of_int k :: 32 word)]) 0))) =
      slip_encode (packet_of [COMMAND_WRITE_PARAMETER, 0, st, 5, 0])"
    using assms(7) by (simp only: ucast_word_of_int)
  have "conbeectrl_main env 4 [Some program, Some s, Some ''-m'', Some (format_d k), None] w =
      map_option (map_sum id (\<lambda>(code, out, w). (0, out, w)))
        (run_command env default_device_name c 3 [Some s, Some ''-m'', Some (format_d k), None] w)"
    using main_dispatch [OF find_command_word [OF assms(1)], of env "[''-m'', format_d k]" program w] assms(1)
    by (simp add: eval_nat_numeral)
  with mode_command_sets [where stick = stick and st = st, OF assms(2,5,6) parsed stick, of default_device_name]
  show ?thesis by auto
qed

theorem set_mode_result_witness:
  "\<exists>u. conbeectrl_main (ready_env (\<lambda>_. slip_encode (packet_of [COMMAND_WRITE_PARAMETER, 0, 0, 5, 0])))
      4 [Some ''conbeectrl'', Some ''set-network-mode'', Some ''-m'', Some (format_d 256), None] new_process =
    Some (Inr (0, network_mode_set_text (word_of_int 256), u)) \<and> \<not> connected u"
  using set_mode_result [OF _ _ _ _ ready_env_works new_process_fresh, of "''set-network-mode''" SetNetworkMode _ PARAM_APS_COORDINATOR
      _ network_mode_set_text 256 0 "''conbeectrl''"]
  by (simp add: ctl_commands_def ctl_cmd_def STATUS_SUCCESS_def)

text \<open>
  Without its mandatory option the command says so and prints its usage, and then goes on all the same:
  it sends the stick the low byte of its uninitialised variable, and reports that as the mode set.
\<close>

lemma set_mode_without_option:
  assumes "find_command ctl_commands s = Some c" and "mode_command c env = Some (p, opt, shown)"
    and "working_env env rstack wstack stick" and "fresh_process w"
    and "stick (slip_encode (packet_of (request_body (WriteParameter p [ucast (junk_int env)]) 0))) =
         slip_encode (packet_of [COMMAND_WRITE_PARAMETER, 0, STATUS_SUCCESS, 5, 0])"
  shows "\<exists>u usage. conbeectrl_main env 2 [Some program, Some s, None] w =
     Some (Inr (0, ''mandatory parameter missing '' @ nl @ usage @ shown (junk_int env), u)) \<and> \<not> connected u"
proof -
  have opt: "int_value opt = Some (junk_int env)" "int_base opt = \<lparr>mandatory = 1, is_set = 0\<rparr>"
    using mode_command_options [OF assms(2)] by auto
  let ?usage = "argparse_usage [ARG_FLAG help_flag :: ctl_command argument, ARG_INT opt] s"
  have parsed: "parse_int_option opt (Suc 0) [Some s, None] = Inr (''mandatory parameter missing '' @ nl @ ?usage, junk_int env)"
    using opt by (simp add: parse_int_option_eq argparse_parse_def int_ctx_def parse_loop_end report_def get_arg_def help_flag_def)
  have "conbeectrl_main env 2 [Some program, Some s, None] w =
      map_option (map_sum id (\<lambda>(code, out, w). (0, out, w))) (run_command env default_device_name c (Suc 0) [Some s, None] w)"
    using main_dispatch [OF find_command_word [OF assms(1)], of env "[]" program w] assms(1) by simp
  with mode_command_sets [where stick = stick and st = STATUS_SUCCESS, OF assms(2-4) parsed assms(5), of default_device_name]
  show ?thesis by auto
qed

subsection \<open>A command behind the device option\<close>

fun own_option :: "ctl_command \<Rightarrow> char option" where
  "own_option SetNetworkMode = Some CHR ''m''"
| "own_option SetSecurityMode = Some CHR ''m''"
| "own_option SetChannelMask = Some CHR ''m''"
| "own_option SetApsExtPanid = Some CHR ''p''"
| "own_option SetTrustCenter = Some CHR ''a''"
| "own_option _ = None"

lemma parse_str_option_eq:
  "parse_str_option opt argc argv =
     bindE (argparse_parse (Some (str_ctx opt :: ctl_command arg_parse_ctx)) argc argv) (\<lambda>(res, args). Inr (message_of res, str_variable args))"
  by (simp add: parse_str_option_def argparse_init_ok argparse_add_string_def add_argument_ok parse_own_options_def
      str_ctx_def bindE_assoc numeral_2_eq_2 split_def)

lemma parse_int_option_overcount:
  "plain_int opt \<Longrightarrow> int_short opt = x \<Longrightarrow> argc > 3 \<Longrightarrow>
   parse_int_option opt argc [Some s, Some [CHR ''-'', x], Some v, None] = Inl NullDeref"
  by (auto simp: parse_int_option_eq parse_int_overcount)

lemma parse_str_option_overcount:
  "x \<notin> {CHR ''-'', CHR ''h''} \<Longrightarrow> str_short opt = x \<Longrightarrow> str_maxchars opt \<le> length (str_value opt) \<Longrightarrow> argc > 3 \<Longrightarrow>
   parse_str_option opt argc [Some s, Some [CHR ''-'', x], Some v, None] = Inl NullDeref"
  by (auto simp: parse_str_option_eq parse_str_overcount)

lemma own_options:
  "plain_int (network_mode_option env)" "int_short (network_mode_option env) = CHR ''m''"
  "plain_int (security_mode_option env)" "int_short (security_mode_option env) = CHR ''m''"
  "str_short (channel_mask_option env) = CHR ''m''" "str_maxchars (channel_mask_option env) = 10"
  "str_short (aps_ext_panid_option env) = CHR ''p''" "str_maxchars (aps_ext_panid_option env) = 18"
  "str_short (trust_center_option env) = CHR ''a''" "str_maxchars (trust_center_option env) = 18"
  "str_value (channel_mask_option env) = take 12 (junk_text env)"
  "str_value (aps_ext_panid_option env) = take 20 (junk_text env)"
  "str_value (trust_center_option env) = take 20 (junk_text env)"
  by (simp_all add: network_mode_option_def security_mode_option_def channel_mask_option_def aps_ext_panid_option_def
      trust_center_option_def plain_int_def)

lemmas set_commands = set_network_mode_def set_security_mode_def set_channel_mask_def set_aps_ext_panid_def set_trust_center_def

lemma own_options_overcount:
  assumes "own_option c = Some x" and "20 \<le> length (junk_text env)" and "argc > 3"
  shows "run_command env name c argc [Some s, Some [CHR ''-'', x], Some v, None] w = Some (Inl NullDeref)"
  using assms
  by (elim own_option.elims) (simp_all add: set_commands parse_int_option_overcount parse_str_option_overcount after_options_def own_options)

text \<open>
  C34: a set command with its own option behind \<open>-d device\<close> follows the null pointer behind \<open>argv\<close>, for each of
  the five commands and every value: the command gets its own strings with a count two too large, so its
  parser reads on behind the last one. The tool's device option and its set commands cannot be combined.
\<close>

theorem set_after_device_undefined:
  assumes "find_command ctl_commands s = Some c" and "own_option c = Some x" and "20 \<le> length (junk_text env)"
    and "char_at d 0 \<noteq> CHR ''-''" and "find_command ctl_commands d = None"
  shows "conbeectrl_main env 6 [Some program, Some ''-d'', Some d, Some s, Some [CHR ''-'', x], Some v, None] w = Some (Inl NullDeref)"
proof -
  obtain args where "argparse_parse (Some \<lparr>arguments = [ARG_FLAG help_flag] @ ARG_STR device_option # ctl_commands, capacity = array_size 17\<rparr>)
      (4 + length [[CHR ''-'', x], v])
      ([Some program, Some [CHR ''-'', str_short device_option], Some d] @ map Some (s # [[CHR ''-'', x], v]) @ [None]) =
    Inr (RunCommand c (2 + length (s # [[CHR ''-'', x], v])) (map Some (s # [[CHR ''-'', x], v]) @ [None]), args)"
    using command_after_option_gets_wrong_count [of "[ARG_FLAG help_flag]" device_option d ctl_commands s c "array_size 17"
        "[[CHR ''-'', x], v]" program] assms(1,4,5) find_command_word [OF assms(1)] device_name_set
    by (auto simp: help_flag_def)
  then have parsed: "argparse_parse (Some \<lparr>arguments = main_ctx_args, capacity = array_size 17\<rparr>) 6
      [Some program, Some ''-d'', Some d, Some s, Some [CHR ''-'', x], Some v, None] =
    Inr (RunCommand c 5 [Some s, Some [CHR ''-'', x], Some v, None], args)"
    by (simp add: main_ctx_args_def device_name_set(2))
  show ?thesis
    unfolding conbeectrl_main_eq parsed
    by (simp add: own_options_overcount [OF assms(2,3)])
qed

theorem set_after_device_undefined_witness:
  "conbeectrl_main (ready_env (\<lambda>_. [])) 6 [Some ''conbeectrl'', Some ''-d'', Some ''/dev/ttyACM1'', Some ''set-network-mode'',
     Some ''-m'', Some ''1'', None] new_process = Some (Inl NullDeref)"
  using set_after_device_undefined [of "''set-network-mode''" SetNetworkMode "CHR ''m''" "ready_env (\<lambda>_. [])" "''/dev/ttyACM1''"
      "''conbeectrl''" "''1''" new_process]
  by (simp add: ctl_commands_def ctl_cmd_def ready_env_def)

subsection \<open>Numbers in hexadecimal\<close>

lemma number_text_numeral:
  assumes "length (numeral_text 16 n) > 1 \<or> hd s \<notin> {CHR ''x'', CHR ''X''}"
  shows "number_text (numeral_text 16 n @ s) 16 = dropWhile (\<lambda>c. digit_value c < 16) s"
proof -
  obtain d r where dr: "numeral_text 16 n = digit_char d # r" "d < 16" by (rule numeral_text_cons [of 16 n]) simp_all
  have "char_at (numeral_text 16 n @ s) 1 \<notin> {CHR ''x'', CHR ''X''}" by (rule second_digit) (use assms in auto)
  moreover have "digit_value c < 16" if "c \<in> set (numeral_text 16 n)" for c
    using numeral_text_digits [OF _ _ that] digit_value_digit by auto
  then have "dropWhile (\<lambda>c. digit_value c < 16) (numeral_text 16 n @ s) = dropWhile (\<lambda>c. digit_value c < 16) s" by simp
  ultimately show ?thesis using digit_char_plain [OF dr(2)] dr(1) by (simp add: number_text_def Let_def)
qed

lemma array_strtol_numeral:
  assumes "drop 2 a = numeral_text 16 n @ s" and "length (numeral_text 16 n) > 1 \<or> hd s \<notin> {CHR ''x'', CHR ''X''}"
    and "2 \<le> length a"
  shows "array_strtol a 2 16 =
     (if dropWhile (\<lambda>c. digit_value c < 16) s = [] then Inl OutOfBounds else Inr (min (2 ^ 63 - 1) (int (digits 16 n s))))"
  unfolding array_strtol_def assms(1) number_text_numeral [OF assms(2)]
  using strtol_numeral [of 16 n s] assms(2,3) by auto

text \<open>What is in the array of a string option: the value, and behind a value that fills it what was there before.\<close>

lemma parse_str_option_value:
  assumes "str_short opt \<notin> {CHR ''-'', CHR ''h''}" and "str_maxchars opt \<le> length (str_value opt)"
  shows "parse_str_option opt 3 [Some s, Some [CHR ''-'', str_short opt], Some v, None] = Inr ([], str_value (string_set opt v))"
  by (simp add: parse_str_option_eq parse_str_short [OF assms])

definition string_option :: "arg_str \<Rightarrow> bool" where
  "string_option opt \<longleftrightarrow> str_short opt \<notin> {CHR ''-'', CHR ''h''} \<and> 4 \<le> str_maxchars opt \<and> length (str_value opt) = str_maxchars opt + 2"

lemma string_set_value:
  "length v \<le> str_maxchars opt \<Longrightarrow>
   str_value (string_set opt v) = v @ replicate (str_maxchars opt - length v) CHR 0x00 @ drop (str_maxchars opt) (str_value opt)"
  by (simp add: string_set_def)

lemma hex_option_array:
  assumes "string_option opt" and "length (numeral_text 16 n) + 2 \<le> str_maxchars opt"
  shows "\<exists>a. parse_str_option opt 3 [Some s, Some [CHR ''-'', str_short opt], Some (''0x'' @ numeral_text 16 n), None] = Inr ([], a) \<and>
    array_strtol a 2 16 =
     (if length (numeral_text 16 n) + 2 < str_maxchars opt then Inr (min (2 ^ 63 - 1) (int n))
      else if \<forall>c \<in> set (drop (str_maxchars opt) (str_value opt)). digit_value c < 16 then Inl OutOfBounds
      else Inr (min (2 ^ 63 - 1) (int (digits 16 n (drop (str_maxchars opt) (str_value opt))))))"
proof -
  let ?v = "''0x'' @ numeral_text 16 n" and ?m = "str_maxchars opt"
  let ?a = "str_value (string_set opt ?v)" and ?behind = "drop (str_maxchars opt) (str_value opt)"
  have opt: "str_short opt \<notin> {CHR ''-'', CHR ''h''}" "4 \<le> ?m" "length (str_value opt) = ?m + 2"
    using assms(1) by (simp_all add: string_option_def)
  have a: "?a = ?v @ replicate (?m - length ?v) CHR 0x00 @ ?behind" by (rule string_set_value) (use assms(2) in simp)
  have tail: "drop 2 ?a = numeral_text 16 n @ replicate (?m - length ?v) CHR 0x00 @ ?behind" "2 \<le> length ?a"
    unfolding a by simp_all
  have "parse_str_option opt 3 [Some s, Some [CHR ''-'', str_short opt], Some ?v, None] = Inr ([], ?a)"
    using opt by (intro parse_str_option_value) simp_all
  moreover have "array_strtol ?a 2 16 =
     (if length (numeral_text 16 n) + 2 < ?m then Inr (min (2 ^ 63 - 1) (int n))
      else if \<forall>c \<in> set ?behind. digit_value c < 16 then Inl OutOfBounds
      else Inr (min (2 ^ 63 - 1) (int (digits 16 n ?behind))))"
  proof (cases "length (numeral_text 16 n) + 2 < ?m")
    case True
    then obtain k where k: "replicate (?m - length ?v) CHR 0x00 = CHR 0x00 # replicate k CHR 0x00"
      by (cases "?m - length ?v") auto
    have "\<not> digit_value CHR 0x00 < 16" by code_simp
    then show ?thesis
      using array_strtol_numeral [OF tail(1) _ tail(2)] True unfolding k by simp
  next
    case False
    then have "replicate (?m - length ?v) CHR 0x00 = []" and "length (numeral_text 16 n) > 1" using assms(2) opt(2) by auto
    then show ?thesis
      using array_strtol_numeral [OF tail(1) _ tail(2)] False by (simp add: dropWhile_eq_Nil_conv)
  qed
  ultimately show ?thesis by blast
qed

text \<open>
  What \<open>strtol\<close> makes of a hexadecimal number given to a string option, as the commands for the channel
  mask, the extended PAN id and the trust center read it. A number shorter than \<open>maxchars\<close> is read right, up
  to the largest \<open>long\<close>. One that fills \<open>maxchars\<close>, as the examples in the usage texts do, has no terminator,
  and the two uninitialised characters behind it take part: as further digits, or, if both are digits,
  the read goes on behind the array.
\<close>

lemma hex_option_value:
  assumes "string_option opt" and "length (numeral_text 16 n) + 2 \<le> str_maxchars opt"
  shows "\<exists>a. parse_str_option opt 3 [Some s, Some [CHR ''-'', str_short opt], Some (''0x'' @ numeral_text 16 n), None] = Inr ([], a) \<and>
    array_strtol a 2 16 =
     (if length (numeral_text 16 n) + 2 < str_maxchars opt then Inr (min (2 ^ 63 - 1) (int n))
      else if \<forall>c \<in> set (drop (str_maxchars opt) (str_value opt)). digit_value c < 16 then Inl OutOfBounds
      else Inr (min (2 ^ 63 - 1) (int (digits 16 n (drop (str_maxchars opt) (str_value opt))))))"
  by (rule hex_option_array [OF assms])

text \<open>The commands for the three numbers: parameter, bytes of the number, option and what is printed.\<close>

fun number_command :: "ctl_command \<Rightarrow> ctl_env \<Rightarrow> (u8 \<times> (int \<Rightarrow> u8 list) \<times> arg_str \<times> string) option" where
  "number_command SetChannelMask env =
     Some (PARAM_CHANNEL_MASK, \<lambda>k. le_bytes 4 (word_of_int k :: u32), channel_mask_option env, ''Channel Mask set to '')"
| "number_command SetApsExtPanid env =
     Some (PARAM_APS_EXT_PANID, \<lambda>k. le_bytes 8 (word_of_int k :: u64), aps_ext_panid_option env, ''APS EXT PANID set to '')"
| "number_command SetTrustCenter env =
     Some (PARAM_TRUST_CENTER_ADDRESS, \<lambda>k. le_bytes 8 (word_of_int k :: u64), trust_center_option env, ''Trust Center set to '')"
| "number_command _ env = None"

lemma number_command_sets:
  assumes c: "number_command c env = Some (p, bytes, opt, label)"
    and env: "working_env env rstack wstack stick" "fresh_process w"
    and parsed: "parse_str_option opt argc argv = Inr (msg, a)"
    and number: "array_strtol a 2 16 = Inr k" and shown: "array_text a = Inr s"
    and stick: "stick (slip_encode (packet_of (request_body (WriteParameter p (bytes k)) 0))) =
         slip_encode (packet_of [COMMAND_WRITE_PARAMETER, 0, st, 5, 0])"
  shows "\<exists>u. run_command env name c argc argv w =
     Some (Inr (0, msg @ (if st = STATUS_SUCCESS then label @ s @ nl else []), u)) \<and> \<not> connected u"
proof -
  have small: "length (bytes k) < 256" using c by (cases c) auto
  define setter where "setter = (\<lambda>w. set_parameter (wakes env) w (conbee_write_parameter_request (mem w) p (bytes k) (word_of_nat (length (bytes k)))))"
  have "\<exists>u. with_device env name (set_value setter (Inr (label @ s @ nl))) w =
      Some (Inr (0, if st = STATUS_SUCCESS then label @ s @ nl else [], u)) \<and> \<not> connected u"
    by (rule set_parameter_command [OF env small stick]) (simp add: setter_def)
  then obtain u where u: "with_device env name (set_value setter (Inr (label @ s @ nl))) w =
      Some (Inr (0, if st = STATUS_SUCCESS then label @ s @ nl else [], u))" "\<not> connected u" by blast
  let ?set = "\<lambda>k w. case c of
        SetChannelMask \<Rightarrow> conbee_set_channel_mask (wakes env) w (word_of_int k)
      | SetApsExtPanid \<Rightarrow> conbee_set_aps_extended_panid (wakes env) w (word_of_int k)
      | _ \<Rightarrow> conbee_set_trust_center_addr (wakes env) w (word_of_int k)"
  have run: "run_command env name c argc argv w =
      after_options (parse_str_option opt argc argv) (\<lambda>a. with_device env name (set_number ?set label a) w)"
    using c by (cases c) (auto simp: set_commands)
  have "?set k = setter"
    using c by (cases c) (auto simp: setter_def conbee_set_channel_mask_def conbee_set_aps_extended_panid_def
        conbee_set_trust_center_addr_def conbee_write_parameter_request_uint32_def conbee_write_parameter_request_uint64_def)
  then have "set_number ?set label a = set_value setter (Inr (label @ s @ nl))"
    by (simp add: fun_eq_iff set_number_def number shown)
  with u(1) have "with_device env name (set_number ?set label a) w =
      Some (Inr (0, if st = STATUS_SUCCESS then label @ s @ nl else [], u))" by simp
  then have "run_command env name c argc argv w = Some (Inr (0, msg @ (if st = STATUS_SUCCESS then label @ s @ nl else []), u))"
    unfolding run by (rule after_options_ok [OF parsed])
  then show ?thesis using u(2) by blast
qed

text \<open>
  C30: \<open>set-channel-mask\<close>, \<open>set-aps-ext-panid\<close> and \<open>set-tc-addr\<close> with a hexadecimal number that leaves
  room for the terminator, end to end: the number is written to the stick with its lowest byte first, in 4 or 8 bytes,
  and on success the text given is printed; the device is closed again.
\<close>

theorem set_number_result:
  assumes "find_command ctl_commands s = Some c" and "number_command c env = Some (p, bytes, opt, label)"
    and "20 \<le> length (junk_text env)" and "length (numeral_text 16 n) + 2 < str_maxchars opt"
    and "working_env env rstack wstack stick" and "fresh_process w"
    and "stick (slip_encode (packet_of (request_body (WriteParameter p (bytes (int n))) 0))) =
         slip_encode (packet_of [COMMAND_WRITE_PARAMETER, 0, st, 5, 0])"
  shows "\<exists>u. conbeectrl_main env 4 [Some program, Some s, Some [CHR ''-'', str_short opt], Some (''0x'' @ numeral_text 16 n), None] w =
     Some (Inr (0, if st = STATUS_SUCCESS then label @ ''0x'' @ numeral_text 16 n @ nl else [], u)) \<and> \<not> connected u"
proof -
  let ?v = "''0x'' @ numeral_text 16 n"
  let ?a = "str_value (string_set opt ?v)"
  have opt: "string_option opt" "str_maxchars opt \<le> 18"
    using assms(2,3) by (cases c; auto simp: string_option_def own_options)+
  have parsed: "parse_str_option opt 3 [Some s, Some [CHR ''-'', str_short opt], Some ?v, None] = Inr ([], ?a)"
    using opt by (intro parse_str_option_value) (simp_all add: string_option_def)
  moreover obtain a where "parse_str_option opt 3 [Some s, Some [CHR ''-'', str_short opt], Some ?v, None] = Inr ([], a)"
    "array_strtol a 2 16 = Inr (min (2 ^ 63 - 1) (int n))"
    using hex_option_array [OF opt(1), of n s] assms(4) by auto
  moreover have "n < 2 ^ 63"
  proof -
    have "n < 16 ^ length (numeral_text 16 n)" by (rule numeral_text_bound) simp
    also have "\<dots> \<le> 16 ^ 15" by (rule power_increasing) (use assms(4) opt(2) in auto)
    finally show ?thesis by simp
  qed
  ultimately have number: "array_strtol ?a 2 16 = Inr (int n)" by simp
  have a: "?a = ?v @ replicate (str_maxchars opt - length ?v) CHR 0x00 @ drop (str_maxchars opt) (str_value opt)"
    by (rule string_set_value) (use assms(4) in simp)
  obtain k where "replicate (str_maxchars opt - length ?v) CHR 0x00 = CHR 0x00 # replicate k CHR 0x00"
    using assms(4) by (cases "str_maxchars opt - length ?v") auto
  then have shown: "array_text ?a = Inr ?v"
    unfolding a using numeral_text_no_NUL [of 16 n] by (simp add: array_text_def takeWhile_append takeWhile_eq_all_conv)
  have "conbeectrl_main env 4 [Some program, Some s, Some [CHR ''-'', str_short opt], Some ?v, None] w =
      map_option (map_sum id (\<lambda>(code, out, w). (0, out, w)))
        (run_command env default_device_name c 3 [Some s, Some [CHR ''-'', str_short opt], Some ?v, None] w)"
    using main_dispatch [OF find_command_word [OF assms(1)], of env "[[CHR ''-'', str_short opt], ?v]" program w] assms(1)
    by (simp add: eval_nat_numeral)
  with number_command_sets [where stick = stick and st = st, OF assms(2,5,6) parsed number shown assms(7), of default_device_name]
  show ?thesis by auto
qed

theorem set_number_result_witness:
  "\<exists>u. conbeectrl_main (ready_env (\<lambda>_. slip_encode (packet_of [COMMAND_WRITE_PARAMETER, 0, 0, 5, 0])))
      4 [Some ''conbeectrl'', Some ''set-channel-mask'', Some ''-m'', Some (''0x'' @ numeral_text 16 0x8000), None] new_process =
    Some (Inr (0, ''Channel Mask set to '' @ ''0x'' @ numeral_text 16 0x8000 @ nl, u)) \<and> \<not> connected u"
proof -
  let ?env = "ready_env (\<lambda>_. slip_encode (packet_of [COMMAND_WRITE_PARAMETER, 0, 0, 5, 0]))"
  have len: "length (numeral_text 16 0x8000) = 4" by (simp add: numeral_text.simps)
  have env: "20 \<le> length (junk_text ?env)" by (simp add: ready_env_def)
  have cmd: "find_command ctl_commands ''set-channel-mask'' = Some SetChannelMask" by (simp add: ctl_commands_def ctl_cmd_def)
  show ?thesis
    using set_number_result [OF cmd _ env _ ready_env_works new_process_fresh, of PARAM_CHANNEL_MASK _ "channel_mask_option ?env"
        "''Channel Mask set to ''" "0x8000" 0 "''conbeectrl''"]
    by (simp add: own_options len STATUS_SUCCESS_def)
qed

end
