(* ===== verification/Yaap_Example.thy ===== *)
theory Yaap_Example
  imports Argparse
begin

text \<open>
  The program \<open>libs/yaap/examples/example1.c\<close>: one command and one integer option. The result is the
  code of \<open>main\<close> and what is printed; \<open>count\<close> is what its uninitialised variable holds.
\<close>

datatype example_command = Test1

definition test1 :: "int \<times> string" where
  "test1 = (0, ''Test'' @ nl)"

definition test_cmd :: "example_command arg_parse_cmd" where
  "test_cmd = \<lparr>cmd_base = \<lparr>mandatory = 1, is_set = 0\<rparr>, no_command = 0, cmd_name = ''test'', cmd_description = ''simple test'',
     cmd_cb = Test1\<rparr>"

definition test_int :: "32 word \<Rightarrow> arg_int" where
  "test_int count = \<lparr>int_base = \<lparr>mandatory = 0, is_set = 0\<rparr>, int_short = CHR ''c'', int_long = ''count'',
     int_description = ''just a counting value'', int_value = Some count\<rparr>"

fun example_result :: "example_command parse_result \<Rightarrow> int \<times> string" where
  "example_result (Returned code msg) = (code, msg)"
| "example_result (RunCommand Test1 argc argv) = test1"
| "example_result (RunFlag Test1 argv) = test1"

fun example_count :: "example_command argument list \<Rightarrow> 32 word" where
  "example_count [_, _, ARG_INT n] = (case int_value n of Some v \<Rightarrow> v | None \<Rightarrow> 0)"
| "example_count _ = 0"

definition example_main :: "32 word \<Rightarrow> nat \<Rightarrow> string option list \<Rightarrow> ub + int \<times> string" where
  "example_main count argc argv =
     bindE (argparse_init True True True True) (\<lambda>ctx.
     bindE (argparse_add_command True ctx (Some test_cmd)) (\<lambda>(_, ctx).
     bindE (argparse_add_int True ctx (Some (test_int count))) (\<lambda>(_, ctx).
     bindE (argparse_parse ctx argc argv) (\<lambda>(res, args).
       let (ret, out) = example_result res
       in Inr (ret, out @ (if ret \<ge> 0 then ''Counter: '' @ format_d (sint (example_count args)) @ nl else []))))))"

definition example_args :: "32 word \<Rightarrow> example_command argument list" where
  "example_args count = [ARG_FLAG help_flag, ARG_CMD test_cmd, ARG_INT (test_int count)]"

lemma example_main_eq:
  "example_main count argc argv =
     bindE (argparse_parse (Some \<lparr>arguments = example_args count, capacity = array_size 3\<rparr>) argc argv) (\<lambda>(res, args).
       let (ret, out) = example_result res
       in Inr (ret, out @ (if ret \<ge> 0 then ''Counter: '' @ format_d (sint (example_count args)) @ nl else [])))"
  by (simp add: example_main_def argparse_init_ok argparse_add_command_def argparse_add_int_def add_argument_ok example_args_def
      numeral_2_eq_2 numeral_3_eq_3)

text \<open>
  The command is registered as mandatory, and parsing never marks a command: a counter given on the line
  is read, and then the command is reported missing and the counter is not printed.
\<close>

lemma example_counter_not_printed:
  "\<exists>usage. example_main count 3 [Some program, Some ''-c'', Some v, None] =
     Inr (-1, ''mandatory parameter missing '' @ nl @ usage)"
proof -
  let ?argv = "[Some program, Some ''-c'', Some v, None]"
  let ?args = "[ARG_FLAG help_flag, ARG_CMD test_cmd, ARG_INT (int_set (test_int count) (strtol v 10))]"
  have "match_arguments 3 (example_args count) 1 False ?argv = Inr (None, 2, True, ?argv, ?args)"
    by (simp add: example_args_def get_arg_def help_flag_def test_int_def store_int_strtol int_set_def numeral_2_eq_2)
  from parse_loop_match [OF this] have loop: "parse_loop 3 (example_args count) 1 ?argv = Inr (None, ?args)"
    by (simp add: parse_loop_end)
  have "filter missing ?args = [ARG_CMD test_cmd]"
    by (simp add: help_flag_def test_cmd_def int_set_def set_base_def test_int_def)
  then show ?thesis
    unfolding example_main_eq argparse_parse_def using loop by (simp add: example_args_def report_def get_arg_def)
qed

text \<open>The counter is printed only behind the command or the help message, when it has not been set.\<close>

lemma example_prints_uninitialised:
  "example_main count 2 [Some program, Some ''test'', None] = Inr (0, ''Test'' @ nl @ ''Counter: '' @ format_d (sint count) @ nl)"
proof -
  have "parse_loop 2 (example_args count) 1 [Some program, Some ''test'', None] =
      Inr (Some (CallCommand Test1 1 [Some ''test'', None]), example_args count)"
    using parse_word [of "[Some program, Some ''test'', None]" 1 "''test''" 2 "example_args count"]
    by (simp add: get_arg_def example_args_def test_cmd_def)
  then show ?thesis
    unfolding example_main_eq argparse_parse_def by (simp add: example_args_def test1_def test_int_def)
qed

end
