(* ===== verification/Spec2Isabelle.thy ===== *)
theory Spec2Isabelle
  imports Crc16 Slip Queue Frame Device Frame_IO Exchange Connect Transport Worker Api Startup Threads Interleaving Heap_Threads Heap_Refinement Heap_Runs Single_Caller Single_Caller_Heap Shutdown Format Argparse Conbeectrl Yaap_Example
begin

text \<open>
  Verification development for libconbee, a C library that talks to a ConBee ZigBee stick over a serial
  line. Paths are relative to the repository, under \<open>src/\<close>: \<open>src/src/conbee.c\<close> is the file \<open>src/conbee.c\<close>
  of the repository.

  \<^bold>\<open>The program.\<close> A caller of the library uses a function of \<open>conbee-functions.c\<close>, say
  \<open>conbee_get_nwk_panid\<close>. It builds a request frame, \<open>conbee_enqueue_frame\<close> gives the frame a sequence
  number, puts it on the send queue and writes two bytes into a pipe. A worker thread,
  \<open>conbee_send_receive\<close>, waits with \<open>select\<close> for the pipe and for the serial line. Woken by the pipe it
  takes a frame from the send queue; \<open>conbee_write_frame\<close> lays it out, appends a checksum (\<open>crc16\<close>) and
  sends it in SLIP framing. Woken by the line it reads a packet with \<open>conbee_read_frame\<close>, which checks and
  decodes it, puts the frame on the receive queue and signals a condition variable. The caller
  meanwhile waits in \<open>conbee_wait_for_frame\<close> for the frame with its sequence number and command, and decodes
  the value. \<open>conbee_connect\<close> opens the line and starts the worker, \<open>conbee_close\<close> stops it. The tool
  \<open>conbeectrl\<close> has a command for every getter and setter: its \<open>main\<close> registers them with the bundled parser
  \<open>libs/yaap\<close>, \<open>argparse_parse\<close> finds the command on the line and calls it, and the command connects,
  makes its one call, prints and closes; the setting commands first run a parser of their own.

  \<^bold>\<open>Theories and code.\<close>
    \<^item> \<open>Conbee_Prelude\<close>: bytes, little-endian byte lists (\<open>le_bytes\<close>, \<open>le_word\<close>), the error monad
      (\<open>bindE\<close>) over \<open>ub\<close>, the kinds of undefined behaviour; the collection \<open>conbee_const\<close> of the constants.
    \<^item> \<open>Crc16\<close>: \<open>src/crc16.c\<close>, with C's integer promotions.
    \<^item> \<open>Slip\<close>: \<open>src/slip.c\<close>. Both routines take the byte functions of the device as arguments, as the C code
      takes them through function pointers; the locales \<open>byte_sink\<close>, \<open>byte_source\<close> and \<open>slip_channel\<close> state what a
      working line does, and \<open>Device\<close> interprets them on \<open>conbee_write_byte\<close> and \<open>conbee_read_byte\<close>.
    \<^item> \<open>Memory\<close>: the heap. It maps addresses to frames, payload buffers and queue items; \<open>malloc\<close> hands out fresh
      addresses while memory is available, and a use of a freed or foreign address is \<open>Inl\<close> of an error.
      The record also says to which size the allocator rounds, on which \<open>conbee_queue_push\<close> depends.
    \<^item> \<open>Queue\<close>: \<open>src/conbee-queue.c\<close> on that heap, with its pointers, and the list it represents
      (\<open>queue_at\<close>).
    \<^item> \<open>Frame\<close>: the frame structure and constants of \<open>include/conbee.h\<close>, and the functions of \<open>src/conbee.c\<close> that
      build requests, test the status and decode responses.
    \<^item> \<open>Device\<close>: the record \<open>world\<close> (device, heap, bytes on the line, pipe), \<open>conbee_write_byte\<close>,
      \<open>conbee_read_byte\<close>, and SLIP over the real line.
    \<^item> \<open>Frame_IO\<close>, \<open>Exchange\<close>: \<open>conbee_write_frame\<close> and \<open>conbee_read_frame\<close> and what they do to every
      request and to damaged or short packets.
    \<^item> \<open>Connect\<close>: \<open>conbee_connect\<close> and \<open>conbee_close\<close>.
    \<^item> \<open>Transport\<close>: \<open>conbee_enqueue_frame\<close> and \<open>conbee_wait_for_frame\<close>, one critical section a step.
    \<^item> \<open>Worker\<close>: \<open>src/conbee-send-receive.c\<close>, one turn of the loop after the other.
    \<^item> \<open>Api\<close>: \<open>src/conbee-functions.c\<close>, every getter and setter. The nine parameter getters and the five setters
      share one body each, \<open>get_parameter\<close> and \<open>set_parameter\<close>, as they do in C up to names and widths.
    \<^item> \<open>Startup\<close>: a worker that begins before \<open>conbee_connect\<close> has set \<open>tty_status\<close> and what every call of \<open>Api\<close> does then, and
      a device without a worker after \<open>pthread_create\<close> has failed.
    \<^item> \<open>Threads\<close>: any number of callers and the worker interleaved statement by statement, with the
      mutexes; frames are values and queues lists there, which \<open>Queue\<close> shows them to be.
    \<^item> \<open>Interleaving\<close>: each function of \<open>Transport\<close> and \<open>Worker\<close> is a run of one thread's steps in \<open>Threads\<close>,
      over the relation \<open>abstracts\<close> between the heap with its queues and the system with its lists.
    \<^item> \<open>Heap_Threads\<close>: the same threads on the heap of \<open>Memory\<close>, with linked queues and frames that are allocated and
      freed; a statement that touches memory is the operation of its component (\<open>push_request\<close> is
      \<open>conbee_queue_push\<close> under the mutex, \<open>scan_head\<close> a turn of the loop of \<open>conbee_wait_for_frame\<close>), and a step may end in
      undefined behaviour. \<open>Heap_Refinement\<close> proves the simulation between the two systems: every frame has
      exactly one holder (a caller, a queue or the worker), each queue is its list but for the dangling
      pointer in its head. \<open>Heap_Runs\<close> holds the theorems, and carries runs from the lists to the heap.
    \<^item> \<open>Single_Caller\<close>, \<open>Single_Caller_Heap\<close>: the threads in the environment the library is written for, one caller at a
      time and a stick that answers each request once: an invariant, a bound on the steps of an exchange
      (\<open>work\<close>; \<open>lone_run\<close> counts the wake-ups without a signal) and the two ways it can end, on lists; safety of the pointers on the heap.
    \<^item> \<open>Shutdown\<close>: the system of \<open>Threads\<close> with the flags \<open>worker_running\<close> and \<open>worker_stop\<close>, the start and the end of
      the worker and the statements of \<open>conbee_close\<close>.
    \<^item> \<open>Format\<close>: what the tool uses of \<open>printf\<close> and \<open>strtol\<close>.
    \<^item> \<open>Argparse\<close>: \<open>libs/yaap/src/argparse.c\<close>. A registered argument is a value of the datatype \<open>argument\<close>, with the
      variable of an option inside it; \<open>parse_loop\<close>, \<open>match_arguments\<close> and \<open>check_argument\<close> are the two loops
      of \<open>argparse_parse\<close> and their body. The parser ends in a \<open>parse_result\<close>, which says which
      callback runs with which strings.
    \<^item> \<open>Conbeectrl\<close>: \<open>src/conbeectrl\<close>. One definition per command, \<open>run_command\<close> for the callbacks and
      \<open>conbeectrl_main\<close>; the result is the code, what is printed on \<open>stdout\<close> and the world afterwards.
    \<^item> \<open>Yaap_Example\<close>: \<open>libs/yaap/examples/example1.c\<close>, which can print its counter only when it was not set.

  \<^bold>\<open>What the lemmas show.\<close> The checksum is the negated 16-bit sum. A packet sent is received whole whatever its
  bytes; a failed read is taken for a repeated byte. Every sequence of pushes and pops on the
  linked queue is what it is on a list; deletions leave dangling pointers behind, and the theorems
  say when they are followed. Every request goes out as exactly its bytes; a frame written is
  read back; packets with one damaged byte are refused, and exactly those of one byte, or of six with a right checksum,
  leave the buffer. The worker sends all requests in order and queues what it receives. A call
  of the library is followed end to end, through the queues, the worker and the line, to the
  value and code it returns. Interleaved, the threads exclude each other, sequence numbers
  within 256 requests are distinct, and no frame is lost between the caller and the line; the mutexes do
  not deadlock and the worker empties the pipe. All this holds of the threads on the heap too, which
  refine those on lists: no frame is freed twice or used after it was freed by any of them, and the only
  steps that can be undefined are those for want of memory, those inside \<open>conbee_read_frame\<close>, and the deletion of a
  response that had another before it. With one caller and a stick that only answers, that deletion does not happen, no scan spins,
  and an exchange ends within 109 steps, and six more for every wake-up without a signal, unless the signal is lost; it leaves nothing on the heap
  when it is a setter's. On the negative side, the deletion happens with two callers,
  a waiting caller whose frame is not at the head of the receive queue never returns and blocks the
  library, a worker that begins too early leaves such a frame there and every getter and setter hangs, a wake-up can be lost, and \<open>conbee_close\<close> may wait for ever. When it returns the worker is gone and the
  closed line is not used, but callers still waiting are left behind. The parser stays in its arrays when its count
  is right, and reads integers back as they are printed. The commands of the tool are followed
  from \<open>main\<close> through parser, library, worker and line to the text printed, with what goes wrong on the
  way: a missing option, a number that fills its array, a command behind \<open>-d\<close>, an answer of the wrong size.

  \<^bold>\<open>Loops, blocking and fuel.\<close> Loops over data are structural or have a termination proof. The
  loops of \<open>slip_receive_packet\<close>, \<open>conbee_wait_for_frame\<close> and \<open>conbee_close\<close> may run for ever: they are
  \<open>partial_function (option)\<close>, where \<open>None\<close> is a call that never returns, and every claim that one returns
  is that its value is \<open>Some\<close>. No fuel is used. The worker loop runs over a list of turns, and
  \<open>None\<close> is a turn blocked in \<open>read\<close>.

  \<^bold>\<open>Parameters.\<close> What the operating system does is an argument: the results of the calls in
  \<open>conbee_connect\<close> (\<open>connect_env\<close>), what \<open>select\<close> reports, whether a written byte is accepted, the bytes the
  stick sends, the contents of stack buffers the code reads before writing them. While a caller sleeps in
  \<open>pthread_cond_wait\<close> another step of the system happens; that step is an argument of
  \<open>conbee_wait_for_frame\<close> with the laws of the locale \<open>waking\<close>, and \<open>Worker\<close> discharges them for the worker's
  turn (\<open>wake\<close>). The record \<open>ctl_env\<close> collects all this for a command of the tool, with what its uninitialised
  local variables hold; the string arrays of the commands are cut from one list of characters, so theorems
  about them assume it is as long as the longest array. Whether memory is available is an argument of \<open>argparse_init\<close> and
  \<open>add_argument\<close>; the commands run where it is. In the same way the locale \<open>stopping_worker\<close> is the worker as \<open>conbee_close\<close> sees it.

  \<^bold>\<open>Not modelled.\<close> The messages on \<open>stderr\<close>; \<open>conbee_close\<close> after \<open>pthread_create\<close> has failed, which
  joins a thread handle that was never set. The sequential
  \<open>conbee_enqueue_frame\<close> of \<open>Transport\<close> finds room in the pipe; that it can fill up (64 KiB, the default of Linux) and that
  \<open>pthread_cond_wait\<close> can return without a signal is modelled in \<open>Threads\<close> and \<open>Heap_Threads\<close>. In \<open>Heap_Threads\<close> what the worker does
  with a frame no other thread has seen (reading the packet, writing the frame) is one step. In the parser, the blocks
  \<open>argparse_free\<close> frees are listed, not tracked; two options that share one variable are not
  expressible. The constants of \<open>include/conbee.h\<close> that no code uses are left out.
\<close>

end
